(* ===== verification/Rolnix_Prelude.thy ===== *)
theory Rolnix_Prelude
  imports Main "HOL-Library.Word" "HOL-Library.Monad_Syntax"
begin

text \<open>
  Shared vocabulary of the rolnix development: Rust's machine integers as words, the
  arithmetic of the \<^verbatim>\<open>dev\<close> profile (the default of \<^verbatim>\<open>boot/run-qemu.sh\<close> and of
  \<^verbatim>\<open>cargo test\<close>), in which an overflowing \<^verbatim>\<open>+\<close>, \<^verbatim>\<open>-\<close> or \<^verbatim>\<open>*\<close>, a failed
  \<^verbatim>\<open>assert!\<close> or \<^verbatim>\<open>debug_assert!\<close>, an \<^verbatim>\<open>expect\<close> on nothing and an
  \<^verbatim>\<open>unreachable!\<close> all panic.

  A fallible operation returns an option: \<open>None\<close> is the panic (which halts the machine, so
  no state follows it), \<open>Some\<close> the value. The release build differs from this model only by
  leaving the overflow checks and the \<^verbatim>\<open>debug_assert!\<close>s out, so wherever the model returns
  \<open>Some v\<close> the release build computes the same \<open>v\<close>. A Rust \<^verbatim>\<open>Result\<close> is a sum, with
  \<open>Inl\<close> for \<^verbatim>\<open>Err\<close>, and a Rust \<^verbatim>\<open>Option\<close> is an option inside the panic option.
\<close>

unbundle bit_operations_syntax

section \<open>Machine integers\<close>

type_synonym u8 = "8 word"
type_synonym u16 = "16 word"
type_synonym u32 = "32 word"
type_synonym u64 = "64 word"
type_synonym usize = "64 word"

named_theorems panic_free \<comment> \<open>when a fallible operation returns\<close>
named_theorems kconsts \<comment> \<open>the source's named constants\<close>

definition rassert :: "bool \<Rightarrow> unit option" where
  "rassert b = (if b then Some () else None)"

definition uadd :: "'a::len word \<Rightarrow> 'a word \<Rightarrow> 'a word option" where
  "uadd a b = (if unat a + unat b < 2 ^ LENGTH('a) then Some (a + b) else None)"

definition usub :: "'a::len word \<Rightarrow> 'a word \<Rightarrow> 'a word option" where
  "usub a b = (if b \<le> a then Some (a - b) else None)"

definition umul :: "'a::len word \<Rightarrow> 'a word \<Rightarrow> 'a word option" where
  "umul a b = (if unat a * unat b < 2 ^ LENGTH('a) then Some (a * b) else None)"

definition is_power_of_two :: "u64 \<Rightarrow> bool" where
  "is_power_of_two a = list_ex (\<lambda>k. a = push_bit k 1) [0..<64]"

text \<open>The \<^verbatim>\<open>?\<close> operator: an error returns, a value continues.\<close>

definition try_bind :: "('e + 'a) option \<Rightarrow> ('a \<Rightarrow> ('e + 'b) option) \<Rightarrow> ('e + 'b) option" where
  "try_bind m k = (case m of None \<Rightarrow> None | Some (Inl e) \<Rightarrow> Some (Inl e) | Some (Inr x) \<Rightarrow> k x)"

lemma try_bind_simps [simp]: "try_bind None k = None" "try_bind (Some (Inl e)) k = Some (Inl e)"
  "try_bind (Some (Inr x)) k = k x"
  by (simp_all add: try_bind_def)

lemma try_bind_Inr: "try_bind m k = Some (Inr y) \<longleftrightarrow> (\<exists>x. m = Some (Inr x) \<and> k x = Some (Inr y))"
  by (auto simp: try_bind_def split: option.splits sum.splits)

lemma rassert_simps [simp]: "rassert True = Some ()" "rassert False = None"
  by (simp_all add: rassert_def)

lemma rassert_eq_Some [simp]: "rassert b = Some u \<longleftrightarrow> b"
  by (simp add: rassert_def)

lemma bind_rassert [simp]: "Option.bind (rassert b) f = (if b then f () else None)"
  by (simp add: rassert_def)

lemma uadd_SomeI [panic_free]:
  "unat a + unat b < 2 ^ LENGTH('a) \<Longrightarrow> uadd a b = Some (a + b)" for a b :: "'a::len word"
  by (simp add: uadd_def)

lemma usub_SomeI [panic_free]: "b \<le> a \<Longrightarrow> usub a b = Some (a - b)"
  by (simp add: usub_def)

lemma umul_SomeI [panic_free]:
  "unat a * unat b < 2 ^ LENGTH('a) \<Longrightarrow> umul a b = Some (a * b)" for a b :: "'a::len word"
  by (simp add: umul_def)

lemma uadd_eq_Some:
  "uadd a b = Some c \<longleftrightarrow> unat a + unat b < 2 ^ LENGTH('a) \<and> c = a + b" for a b :: "'a::len word"
  by (auto simp: uadd_def)

lemma usub_eq_Some: "usub a b = Some c \<longleftrightarrow> b \<le> a \<and> c = a - b"
  by (auto simp: usub_def)

lemma umul_eq_Some:
  "umul a b = Some c \<longleftrightarrow> unat a * unat b < 2 ^ LENGTH('a) \<and> c = a * b" for a b :: "'a::len word"
  by (auto simp: umul_def)

lemma unat_add_no_wrap: "unat a + unat b < 2 ^ LENGTH('a) \<Longrightarrow> unat (a + b) = unat a + unat b"
  for a b :: "'a::len word"
  by (simp add: unat_add_lem [THEN iffD1])

lemma unat_mult_no_wrap: "unat a * unat b < 2 ^ LENGTH('a) \<Longrightarrow> unat (a * b) = unat a * unat b"
  for a b :: "'a::len word"
  by (simp add: unat_mult_lem [THEN iffD1])

lemma unat_ucast_up: "LENGTH('a) \<le> LENGTH('b) \<Longrightarrow> unat (ucast w :: 'b::len word) = unat w"
  for w :: "'a::len word"
proof -
  assume "LENGTH('a) \<le> LENGTH('b)"
  then have "unat w < 2 ^ LENGTH('b)"
    by (meson less_le_trans one_le_numeral power_increasing unsigned_less)
  then show ?thesis by (simp add: unsigned_ucast_eq take_bit_nat_eq_self_iff)
qed

lemma ucast_up_inject: "LENGTH('a) \<le> LENGTH('b) \<Longrightarrow> (ucast v :: 'b::len word) = ucast w \<longleftrightarrow> v = w"
  for v w :: "'a::len word"
  by (metis unat_ucast_up word_unat_eq_iff)

lemma ucast_down_up: "LENGTH('a) \<le> LENGTH('b) \<Longrightarrow> (ucast (ucast w :: 'b::len word) :: 'a word) = w"
  for w :: "'a::len word"
  by (rule bit_word_eqI) (auto simp: bit_simps dest: bit_imp_le_length)

lemma unat_u32_bound: "unat w < 2 ^ 32" for w :: u32
  using unsigned_less [of w, where 'a = nat] by simp

lemma unat_u64_bound: "unat w < 2 ^ 64" for w :: u64
  using unsigned_less [of w, where 'a = nat] by simp

lemma unat_ucast_down: "unat w < 2 ^ LENGTH('b) \<Longrightarrow> unat (ucast w :: 'b::len word) = unat w" for w :: "'a::len word"
  by (simp add: unsigned_ucast_eq take_bit_nat_eq_self)

section \<open>Rounding to a power of two\<close>

text \<open>
  \<^verbatim>\<open>align_up\<close> has the same body in \<^verbatim>\<open>heap.rs\<close>, \<^verbatim>\<open>vmm.rs\<close> (on \<^verbatim>\<open>usize\<close>) and
  \<^verbatim>\<open>boot.rs\<close> (on \<^verbatim>\<open>u64\<close>). The lemmas below say what the mask expression computes.
\<close>

definition align_up :: "u64 \<Rightarrow> u64 \<Rightarrow> u64 option" where
  "align_up value align = do {
     rassert (is_power_of_two align);
     t \<leftarrow> uadd value align;
     t \<leftarrow> usub t 1;
     Some (t AND NOT (align - 1))
   }"

lemma is_power_of_two_iff: "is_power_of_two a \<longleftrightarrow> (\<exists>k<64. a = 2 ^ k)"
  by (auto simp: is_power_of_two_def list_ex_iff push_bit_eq_mult)

lemma len64: "LENGTH(64) = 64"
  by simp

text \<open>Single bits and masks.\<close>

lemma bit_flag_len: "bit (push_bit k 1 :: 'a::len word) n \<longleftrightarrow> n = k \<and> k < LENGTH('a)"
  by (auto simp: bit_simps)

lemma and_flag_len: "e AND push_bit k 1 = 0 \<longleftrightarrow> \<not> (bit e k \<and> k < LENGTH('a))" for e :: "'a::len word"
proof
  assume "e AND push_bit k 1 = 0"
  then have "\<not> bit (e AND push_bit k 1) k" by simp
  then show "\<not> (bit e k \<and> k < LENGTH('a))" by (simp only: bit_and_iff bit_flag_len) simp
next
  assume "\<not> (bit e k \<and> k < LENGTH('a))"
  then show "e AND push_bit k 1 = 0" by (intro bit_word_eqI) (auto simp only: bit_and_iff bit_flag_len bit_0_eq bot_apply bot_bool_def)
qed

lemma bit_flag: "bit (push_bit k 1 :: u64) n \<longleftrightarrow> n = k \<and> k < 64"
  by (simp only: bit_flag_len len_bit0 len_num1 mult_1_right) simp

lemma and_flag: "e AND push_bit k 1 = 0 \<longleftrightarrow> \<not> (bit e k \<and> k < 64)" for e :: u64
  by (simp only: and_flag_len len_bit0 len_num1 mult_1_right) simp

lemma bit_mask_word: "bit (mask k :: 'a::len word) n \<longleftrightarrow> n < LENGTH('a) \<and> n < k"
  by (auto simp: bit_simps)

lemma unat_power_two: "k < 64 \<Longrightarrow> unat (2 ^ k :: u64) = 2 ^ k"
proof -
  assume "k < 64"
  then have "(2::nat) ^ k < 2 ^ 64" by (rule power_strict_increasing) simp
  then have "unat (word_of_nat (2 ^ k) :: u64) = 2 ^ k"
    by (simp only: unsigned_of_nat take_bit_nat_eq_self len64 of_nat_id)
  then show ?thesis by simp
qed

lemma and_not_low_bits: "k < 64 \<Longrightarrow> unat (w AND NOT (2 ^ k - 1)) = unat w div 2 ^ k * 2 ^ k"
  for w :: u64
proof -
  have "w AND NOT (2 ^ k - 1) = push_bit k (drop_bit k w)"
    by (rule bit_word_eqI) (auto simp: bit_simps mask_eq_exp_minus_1 [symmetric])
  moreover have "push_bit k (drop_bit k w) = w - take_bit k w"
    using bits_ident [of k w] by (metis add_diff_cancel_right')
  moreover have "unat (take_bit k w) = unat w mod 2 ^ k"
    by (simp only: unsigned_take_bit_eq take_bit_nat_def)
  moreover have "take_bit k w \<le> w"
    using calculation(3) by (simp add: word_le_nat_alt)
  ultimately show ?thesis
    by (simp add: unat_sub minus_mod_eq_div_mult)
qed

lemma align_up_eq:
  assumes "is_power_of_two a" and "unat v + unat a < 2 ^ 64"
  obtains r where "align_up v a = Some r" and "unat r = (unat v + unat a - 1) div unat a * unat a"
proof -
  from assms(1) obtain k where k: "k < 64" "a = 2 ^ k" by (auto simp: is_power_of_two_iff)
  have a: "unat a = 2 ^ k" using k by (simp add: unat_power_two)
  have s: "unat (v + a) = unat v + unat a" using assms(2) by (simp add: unat_add_no_wrap)
  have "1 \<le> unat (v + a)" using s a by (metis add_leD2 le_add2 one_le_numeral one_le_power order_trans)
  then have le: "1 \<le> v + a" by (simp add: word_le_nat_alt)
  have "unat (v + a - 1) = unat v + unat a - 1" using le s by (simp add: unat_sub)
  then have "unat ((v + a - 1) AND NOT (a - 1)) = (unat v + unat a - 1) div unat a * unat a"
    using and_not_low_bits [OF k(1), of "v + a - 1"] a k(2) by simp
  moreover have "align_up v a = Some ((v + a - 1) AND NOT (a - 1))"
    using assms le by (simp add: align_up_def panic_free)
  ultimately show thesis using that by blast
qed

lemma round_up_bounds:
  "0 < m \<Longrightarrow> n \<le> (n + m - 1) div m * m" "0 < m \<Longrightarrow> (n + m - 1) div m * m < n + m" for n m :: nat
proof -
  assume m: "0 < m"
  have *: "(n + m - 1) div m * m + (n + m - 1) mod m = n + m - 1" by simp
  have "(n + m - 1) mod m < m" using m by simp
  with * show "n \<le> (n + m - 1) div m * m" "(n + m - 1) div m * m < n + m" using m by linarith+
qed

lemma round_up_le:
  fixes n m q :: nat
  assumes "0 < m" "n \<le> q" "m dvd q"
  shows "(n + m - 1) div m * m \<le> q"
proof -
  obtain k where k: "q = k * m" using assms(3) by (metis dvdE mult.commute)
  have "(n + m - 1) div m < Suc k"
    using assms(1,2) k by (intro div_less_iff_less_mult [THEN iffD2]) auto
  then show ?thesis using k by simp
qed

lemma align_up_SomeD:
  assumes "align_up v a = Some r"
  shows "is_power_of_two a" "unat v + unat a < 2 ^ 64"
    "unat r = (unat v + unat a - 1) div unat a * unat a"
proof -
  show *: "is_power_of_two a" "unat v + unat a < 2 ^ 64"
    using assms by (auto simp: align_up_def uadd_eq_Some bind_eq_Some_conv split: if_splits)
  show "unat r = (unat v + unat a - 1) div unat a * unat a"
    using align_up_eq [OF *] assms by auto
qed

lemma is_power_of_two_pos: "is_power_of_two a \<Longrightarrow> 0 < unat a"
  by (auto simp: is_power_of_two_iff unat_power_two)

lemma align_up_bounds:
  assumes "align_up v a = Some r"
  shows "unat v \<le> unat r" "unat r < unat v + unat a" "unat a dvd unat r"
  using align_up_SomeD [OF assms] is_power_of_two_pos [of a] round_up_bounds [of "unat a" "unat v"]
  by auto

section \<open>Characters and bytes\<close>

text \<open>The kernel's characters are all below 256: \<^verbatim>\<open>c as u8\<close> and \<^verbatim>\<open>b as char\<close> lose nothing.\<close>

definition u8_of_char :: "char \<Rightarrow> u8" where
  "u8_of_char c = word_of_nat (of_char c)"

definition char_of_u8 :: "u8 \<Rightarrow> char" where
  "char_of_u8 b = char_of (unat b)"

lemma of_char_bound: "of_char c < (256 :: nat)"
  by (cases c) (simp add: of_char_def)

lemma unat_u8_of_char: "unat (u8_of_char c) = of_char c"
  using of_char_bound [of c] by (simp add: u8_of_char_def unat_of_nat)

lemma char_of_u8_of_char [simp]: "char_of_u8 (u8_of_char c) = c"
  by (simp add: char_of_u8_def unat_u8_of_char)

lemma u8_of_char_of_u8 [simp]: "u8_of_char (char_of_u8 b) = b"
proof -
  have "unat b < 256" using unsigned_less [of b, where 'a = nat] by simp
  then show ?thesis by (simp add: u8_of_char_def char_of_u8_def)
qed

text \<open>Indexing a list the way a slice is indexed: out of range panics.\<close>

definition index :: "'a list \<Rightarrow> usize \<Rightarrow> 'a option" where
  "index xs i = (if unat i < length xs then Some (xs ! unat i) else None)"

definition store_at :: "'a list \<Rightarrow> usize \<Rightarrow> 'a \<Rightarrow> 'a list option" where
  "store_at xs i v = (if unat i < length xs then Some (xs[unat i := v]) else None)"

end
