(* ===== verification/Arch.thy ===== *)
theory Arch
  imports Rolnix_Prelude
begin

text \<open>
  \<^verbatim>\<open>kernel/src/arch.rs\<close>: the frame size, the physmap (all of RAM mapped at a fixed virtual
  offset), and the interrupt flag and CR3 of the one CPU. Also the 8-byte cells of memory that
  the allocator and the page tables read and write through the physmap.
\<close>

section \<open>Constants\<close>

definition FRAME_SIZE :: usize where [kconsts]: "FRAME_SIZE = 4096"
definition SHARD_COUNT :: nat where [kconsts]: "SHARD_COUNT = 64"
definition SHARD_REFILL_BATCH :: u32 where [kconsts]: "SHARD_REFILL_BATCH = 64"

section \<open>Memory through the physmap\<close>

text \<open>
  \<open>phys_map_base\<close> is the static \<^verbatim>\<open>PHYS_MAP_BASE\<close> (0 until set). \<open>mem\<close> maps the virtual
  address of an 8-byte cell to its content; every cell the kernel touches this way is at
  \<open>phys_map_base + 8 * k\<close>, so cells never overlap partially. A 4-byte access to the start of a
  cell is its low half (x86 is little-endian).
\<close>

record mem_state =
  phys_map_base :: usize
  mem :: "u64 \<Rightarrow> u64"

definition set_physmap_base :: "'a mem_state_scheme \<Rightarrow> usize \<Rightarrow> 'a mem_state_scheme option" where
  "set_physmap_base s base = do {
     let prev = phys_map_base s;
     let s = s\<lparr>phys_map_base := base\<rparr>;
     rassert (prev = 0 \<or> prev = base);
     Some s
   }"

definition physmap_base :: "'a mem_state_scheme \<Rightarrow> usize option" where
  "physmap_base s = do {
     let b = phys_map_base s;
     rassert (b \<noteq> 0);
     Some b
   }"

definition phys_to_virt :: "'a mem_state_scheme \<Rightarrow> usize \<Rightarrow> usize option" where
  "phys_to_virt s phys = do { b \<leftarrow> physmap_base s; uadd b phys }"

definition virt_to_phys :: "'a mem_state_scheme \<Rightarrow> usize \<Rightarrow> usize option" where
  "virt_to_phys s virt = do { b \<leftarrow> physmap_base s; usub virt b }"

definition frame_phys :: "u32 \<Rightarrow> usize" where
  "frame_phys frame = ucast frame * FRAME_SIZE"

definition current_cpu :: nat where [kconsts]: "current_cpu = 0"

definition read_u32 :: "'a mem_state_scheme \<Rightarrow> u64 \<Rightarrow> u32" where
  "read_u32 s va = ucast (mem s va)"

definition write_u32 :: "'a mem_state_scheme \<Rightarrow> u64 \<Rightarrow> u32 \<Rightarrow> 'a mem_state_scheme" where
  "write_u32 s va x = s\<lparr>mem := (mem s)(va := (mem s va AND NOT 0xFFFFFFFF) OR ucast x)\<rparr>"

definition set_cell :: "'a mem_state_scheme \<Rightarrow> u64 \<Rightarrow> u64 \<Rightarrow> 'a mem_state_scheme" where
  "set_cell s a x = s\<lparr>mem := (mem s)(a := x)\<rparr>"

text \<open>\<^verbatim>\<open>write_bytes\<close> over a range of whole 8-byte cells.\<close>

definition zero_range :: "'a mem_state_scheme \<Rightarrow> u64 \<Rightarrow> u64 \<Rightarrow> 'a mem_state_scheme" where
  "zero_range s va len = s\<lparr>mem := (\<lambda>a. if unat va \<le> unat a \<and> unat a < unat va + unat len then 0 else mem s a)\<rparr>"

section \<open>Interrupt flag and CR3\<close>

text \<open>
  The x86-64 bodies: \<^verbatim>\<open>irq_save\<close> reads RFLAGS and clears IF (bit 9), \<^verbatim>\<open>irq_restore\<close> pops
  the saved RFLAGS, \<^verbatim>\<open>sti\<close> and \<^verbatim>\<open>cli\<close> set and clear IF.
\<close>

record cpu =
  rflags :: u64
  cr3 :: u64

definition RFLAGS_IF :: u64 where [kconsts]: "RFLAGS_IF = 0x200"

definition irq_save :: "'a cpu_scheme \<Rightarrow> u64 \<times> 'a cpu_scheme" where
  "irq_save c = (rflags c, c\<lparr>rflags := rflags c AND NOT RFLAGS_IF\<rparr>)"

definition irq_restore :: "'a cpu_scheme \<Rightarrow> u64 \<Rightarrow> 'a cpu_scheme" where
  "irq_restore c flags = c\<lparr>rflags := flags\<rparr>"

definition enable_interrupts :: "'a cpu_scheme \<Rightarrow> 'a cpu_scheme" where
  "enable_interrupts c = c\<lparr>rflags := rflags c OR RFLAGS_IF\<rparr>"

definition disable_interrupts :: "'a cpu_scheme \<Rightarrow> 'a cpu_scheme" where
  "disable_interrupts c = c\<lparr>rflags := rflags c AND NOT RFLAGS_IF\<rparr>"

definition cr3_write :: "'a cpu_scheme \<Rightarrow> usize \<Rightarrow> 'a cpu_scheme" where
  "cr3_write c phys = c\<lparr>cr3 := phys\<rparr>"

definition cr3_read :: "'a cpu_scheme \<Rightarrow> usize" where
  "cr3_read c = cr3 c"

definition interrupts_enabled :: "'a cpu_scheme \<Rightarrow> bool" where
  "interrupts_enabled c \<longleftrightarrow> bit (rflags c) 9"

section \<open>Lemmas\<close>

lemma unat_frame_phys: "unat (frame_phys f) = unat f * 4096"
proof -
  have "unat f < 2 ^ 32" using unsigned_less [of f] by simp
  then show ?thesis
    by (simp add: frame_phys_def FRAME_SIZE_def unat_mult_no_wrap unat_ucast_up)
qed

lemma frame_phys_inject [simp]: "frame_phys f = frame_phys g \<longleftrightarrow> f = g"
  by (metis mult_right_cancel unat_frame_phys word_unat_eq_iff zero_neq_numeral)

text \<open>A frame's physical address fits in 44 bits, so the multiplication never overflows.\<close>

lemma frame_phys_bound: "unat (frame_phys f) < 2 ^ 44"
  using unsigned_less [of f] by (simp add: unat_frame_phys)

text \<open>The physmap covers every address below \<open>n\<close> frames: \<open>phys_to_virt\<close> returns there.\<close>

definition physmap_covers :: "'a mem_state_scheme \<Rightarrow> nat \<Rightarrow> bool" where
  "physmap_covers s n \<longleftrightarrow> phys_map_base s \<noteq> 0 \<and> unat (phys_map_base s) + n * 4096 \<le> 2 ^ 64"

lemma phys_to_virt_SomeI [panic_free]:
  "physmap_covers s n \<Longrightarrow> unat p < n * 4096 \<Longrightarrow> phys_to_virt s p = Some (phys_map_base s + p)"
  by (simp add: phys_to_virt_def physmap_base_def physmap_covers_def uadd_def)

lemma virt_to_phys_inverse:
  "phys_to_virt s p = Some v \<Longrightarrow> virt_to_phys s v = Some p"
  by (auto simp: phys_to_virt_def virt_to_phys_def physmap_base_def Let_def usub_def
        uadd_eq_Some word_le_nat_alt unat_add_no_wrap split: if_splits)

lemma read_write_u32 [simp]:
  "read_u32 (write_u32 s va x) va' = (if va' = va then x else read_u32 s va')"
proof -
  have "ucast ((m AND NOT 0xFFFFFFFF) OR ucast x :: u64) = x" for m :: u64
  proof (rule bit_word_eqI)
    fix n
    have m: "(0xFFFFFFFF :: u64) = mask 32" by (simp add: mask_eq_exp_minus_1)
    assume "n < LENGTH(32)"
    then show "bit (ucast ((m AND NOT 0xFFFFFFFF) OR ucast x :: u64) :: u32) n = bit x n"
      by (simp add: bit_simps m)
  qed
  then show ?thesis by (simp add: read_u32_def write_u32_def)
qed

lemma write_u32_simps [simp]:
  "phys_map_base (write_u32 s va x) = phys_map_base s"
  "va' \<noteq> va \<Longrightarrow> mem (write_u32 s va x) va' = mem s va'"
  by (simp_all add: write_u32_def)

text \<open>The virtual addresses of two 8-byte cells of frames coincide only for the same cell.\<close>

lemma unat_cell: "i < 512 \<Longrightarrow> unat (frame_phys f + 8 * i) = unat f * 4096 + 8 * unat i"
proof -
  assume "i < 512"
  then have i: "unat i < 512" by (simp add: word_less_nat_alt)
  then have "unat (8 * i) = 8 * unat i" by (simp add: unat_mult_no_wrap)
  then show ?thesis
    using i frame_phys_bound [of f] by (simp add: unat_add_no_wrap unat_frame_phys)
qed

lemma cell_inject:
  assumes "i < 512" "j < 512"
  shows "b + frame_phys f + 8 * i = b + frame_phys g + 8 * j \<longleftrightarrow> f = g \<and> i = j"
proof
  assume "b + frame_phys f + 8 * i = b + frame_phys g + 8 * j"
  then have "frame_phys f + 8 * i = frame_phys g + 8 * j"
    by (simp add: add.assoc)
  then have e: "unat f * 4096 + 8 * unat i = unat g * 4096 + 8 * unat j"
    using assms by (metis unat_cell)
  have "unat i < 512" "unat j < 512" using assms by (simp_all add: word_less_nat_alt)
  with e have "unat f = unat g" by linarith
  with e show "f = g \<and> i = j" by (simp add: word_unat_eq_iff)
qed simp

lemma irq_save_restore: "irq_restore (snd (irq_save c)) (fst (irq_save c)) = c"
  by (simp add: irq_save_def irq_restore_def)

lemma irq_save_disables: "\<not> interrupts_enabled (snd (irq_save c))"
  by (simp add: interrupts_enabled_def irq_save_def RFLAGS_IF_def bit_simps)

end
