(* ===== verification/Interfaces.thy ===== *)
theory Interfaces
  imports Rolnix_Prelude
begin

text \<open>
  The contracts between the components, as locales, and what their clients get from them: a
  source of units (the frame pool, an untyped region), a pool that takes its units back, an
  address space (the page tables), a bounded queue (the keyboard ring), and a system of steps with
  an invariant. Each is interpreted
  in the theory of the component that provides it.
\<close>

section \<open>Pools\<close>

fun drain_pool :: "('s \<Rightarrow> ('f option \<times> 's) option) \<Rightarrow> nat \<Rightarrow> 's \<Rightarrow> ('f list \<times> 's) option" where
  "drain_pool alloc 0 s = Some ([], s)"
| "drain_pool alloc (Suc n) s = do {
     (r, s) \<leftarrow> alloc s;
     case r of None \<Rightarrow> Some ([], s)
     | Some f \<Rightarrow> do { (fs, s) \<leftarrow> drain_pool alloc n s; Some (f # fs, s) }
   }"

fun release_all :: "('s \<Rightarrow> 'f \<Rightarrow> 's option) \<Rightarrow> 'f list \<Rightarrow> 's \<Rightarrow> 's option" where
  "release_all rel [] s = Some s"
| "release_all rel (f # fs) s = do { s \<leftarrow> rel s f; release_all rel fs s }"

locale unit_source =
  fixes inv :: "'s \<Rightarrow> bool" and avail :: "'s \<Rightarrow> 'f set" and alloc :: "'s \<Rightarrow> ('f option \<times> 's) option"
  assumes finite_avail: "inv s \<Longrightarrow> finite (avail s)"
    and alloc_empty: "inv s \<Longrightarrow> avail s = {} \<Longrightarrow> \<exists>s'. alloc s = Some (None, s') \<and> inv s' \<and> avail s' = {}"
    and alloc_some: "inv s \<Longrightarrow> avail s \<noteq> {} \<Longrightarrow>
      \<exists>f s'. alloc s = Some (Some f, s') \<and> inv s' \<and> f \<in> avail s \<and> avail s' = avail s - {f}"
begin

lemma drain_exact:
  assumes "inv s" "n \<le> card (avail s)"
  shows "\<exists>fs s'. drain_pool alloc n s = Some (fs, s') \<and> inv s' \<and> length fs = n \<and> distinct fs \<and>
    set fs \<subseteq> avail s \<and> avail s' = avail s - set fs"
  using assms
proof (induction n arbitrary: s)
  case (Suc n)
  then have ne: "avail s \<noteq> {}" by auto
  from alloc_some [OF Suc.prems(1) this] obtain f s1 where f: "alloc s = Some (Some f, s1)" "inv s1"
    "f \<in> avail s" "avail s1 = avail s - {f}" by blast
  have "n \<le> card (avail s1)" using Suc.prems f(3,4) by simp
  from Suc.IH [OF f(2) this] f show ?case by fastforce
qed simp

lemma drain_all:
  assumes "inv s"
  shows "\<exists>fs s'. drain_pool alloc (card (avail s)) s = Some (fs, s') \<and> distinct fs \<and> set fs = avail s \<and>
    inv s' \<and> (\<exists>s''. alloc s' = Some (None, s''))"
proof -
  from drain_exact [OF assms order.refl] obtain fs s' where d:
    "drain_pool alloc (card (avail s)) s = Some (fs, s')" "inv s'" "length fs = card (avail s)" "distinct fs"
    "set fs \<subseteq> avail s" "avail s' = avail s - set fs" by blast
  then have "set fs = avail s" by (metis card_subset_eq distinct_card finite_avail [OF assms])
  with d show ?thesis using alloc_empty [of s'] by auto
qed

end

locale unit_pool = unit_source inv avail alloc
  for inv :: "'s \<Rightarrow> bool" and avail :: "'s \<Rightarrow> 'f set" and alloc +
  fixes held :: "'s \<Rightarrow> 'f \<Rightarrow> bool" and give_back :: "'s \<Rightarrow> 'f \<Rightarrow> 's option"
  assumes alloc_held: "inv s \<Longrightarrow> alloc s = Some (Some f, s') \<Longrightarrow> held s' = (held s)(f := True)"
    and give_back: "inv s \<Longrightarrow> held s f \<Longrightarrow> \<exists>s'. give_back s f = Some s' \<and> inv s' \<and> f \<notin> avail s \<and>
      avail s' = insert f (avail s) \<and> held s' = (held s)(f := False)"
begin

lemma drain_held:
  assumes "inv s" "n \<le> card (avail s)" "drain_pool alloc n s = Some (fs, s')"
  shows "held s' f \<longleftrightarrow> f \<in> set fs \<or> held s f"
  using assms
proof (induction n arbitrary: s fs)
  case (Suc n)
  then have "avail s \<noteq> {}" by auto
  from alloc_some [OF Suc.prems(1) this] obtain g s1 where g: "alloc s = Some (Some g, s1)" "inv s1"
    "g \<in> avail s" "avail s1 = avail s - {g}" by blast
  then have le: "n \<le> card (avail s1)" using Suc.prems by simp
  obtain gs where gs: "drain_pool alloc n s1 = Some (gs, s')" "fs = g # gs"
    using Suc.prems(3) g(1) by (auto simp: bind_eq_Some_conv)
  show ?case
    using Suc.IH [OF g(2) le gs(1)] alloc_held [OF Suc.prems(1) g(1)] gs(2) by auto
qed simp

lemma release_all_held:
  assumes "inv s" "distinct fs" "\<forall>f\<in>set fs. held s f"
  shows "\<exists>s'. release_all give_back fs s = Some s' \<and> inv s' \<and> avail s' = avail s \<union> set fs"
  using assms
proof (induction fs arbitrary: s)
  case (Cons f fs)
  then obtain s1 where s1: "give_back s f = Some s1" "inv s1" "avail s1 = insert f (avail s)"
    "held s1 = (held s)(f := False)" using give_back [OF Cons.prems(1), of f] by auto
  then have "\<forall>g\<in>set fs. held s1 g" using Cons.prems by auto
  from Cons.IH [OF s1(2) _ this] Cons.prems s1 show ?case by fastforce
qed auto

lemma drain_release_roundtrip:
  assumes "inv s" "n \<le> card (avail s)" "drain_pool alloc n s = Some (fs, s1)" "set gs = set fs" "distinct gs"
  shows "\<exists>s2. release_all give_back gs s1 = Some s2 \<and> inv s2 \<and> avail s2 = avail s"
proof -
  from drain_exact [OF assms(1,2)] assms(3) have d: "inv s1" "set fs \<subseteq> avail s" "avail s1 = avail s - set fs"
    by auto
  have "\<forall>f\<in>set gs. held s1 f" using drain_held [OF assms(1-3)] assms(4) by blast
  from release_all_held [OF d(1) assms(5) this] d assms(4) show ?thesis by auto
qed

end

section \<open>Address spaces\<close>

text \<open>
  A finite map that grows by \<open>put\<close>, which may run out of resources (and then changes nothing),
  and shrinks by \<open>del\<close>: the page tables. \<open>put_all\<close> maps pages until the first error, as the
  loaders of the boot harness do, and returns the keys it has mapped.
\<close>

fun put_all :: "('s \<Rightarrow> 'k \<Rightarrow> 'v \<Rightarrow> (('e + unit) \<times> 's) option) \<Rightarrow> ('k \<times> 'v) list \<Rightarrow> 's \<Rightarrow> ('k list \<times> 's) option" where
  "put_all put [] s = Some ([], s)"
| "put_all put ((k, v) # kvs) s = do {
     (r, s) \<leftarrow> put s k v;
     case r of Inl e \<Rightarrow> Some ([], s)
     | Inr u \<Rightarrow> do { (ks, s) \<leftarrow> put_all put kvs s; Some (k # ks, s) }
   }"

fun del_all :: "('s \<Rightarrow> 'k \<Rightarrow> (('e + unit) \<times> 's) option) \<Rightarrow> 'k list \<Rightarrow> 's \<Rightarrow> 's option" where
  "del_all del [] s = Some s"
| "del_all del (k # ks) s = do { (r, s) \<leftarrow> del s k; if r = Inr () then del_all del ks s else None }"

locale address_space =
  fixes inv :: "'s \<Rightarrow> bool" and look :: "'s \<Rightarrow> 'k \<Rightarrow> 'v option" and legal :: "'s \<Rightarrow> 'v \<Rightarrow> bool"
    and put :: "'s \<Rightarrow> 'k \<Rightarrow> 'v \<Rightarrow> (('e + unit) \<times> 's) option" and del :: "'s \<Rightarrow> 'k \<Rightarrow> (('e + unit) \<times> 's) option"
  assumes put_law: "inv s \<Longrightarrow> legal s v \<Longrightarrow> \<exists>r s'. put s k v = Some (r, s') \<and> inv s' \<and>
      (if r = Inr () then look s k = None \<and> look s' = (look s)(k \<mapsto> v) else look s' = look s) \<and>
      (\<forall>v'. v' \<noteq> v \<longrightarrow> legal s v' \<longrightarrow> legal s' v')"
    and del_law: "inv s \<Longrightarrow> look s k = Some v \<Longrightarrow> \<exists>s'. del s k = Some (Inr (), s') \<and> inv s' \<and> look s' = (look s)(k := None)"
begin

lemma put_all_maps:
  assumes "inv s" "distinct (map snd kvs)" "\<forall>v\<in>set (map snd kvs). legal s v"
  shows "\<exists>ks s'. put_all put kvs s = Some (ks, s') \<and> inv s' \<and> distinct ks \<and> (\<forall>k\<in>set ks. look s k = None) \<and>
    (\<exists>n. ks = map fst (take n kvs) \<and> look s' = (look s)(ks [\<mapsto>] map snd (take n kvs)))"
  using assms
proof (induction kvs arbitrary: s)
  case (Cons kv kvs)
  obtain k v where kv: "kv = (k, v)" by force
  obtain r s1 where p: "put s k v = Some (r, s1)" "inv s1"
    "if r = Inr () then look s k = None \<and> look s1 = (look s)(k \<mapsto> v) else look s1 = look s"
    "\<forall>v'. v' \<noteq> v \<longrightarrow> legal s v' \<longrightarrow> legal s1 v'" using put_law [OF Cons.prems(1), of v k] Cons.prems(3) kv by auto
  show ?case
  proof (cases r)
    case (Inl e)
    then show ?thesis using p kv by (auto intro!: exI [of _ 0])
  next
    case (Inr u)
    have "distinct (map snd kvs)" "\<forall>v\<in>set (map snd kvs). legal s1 v" using Cons.prems p(4) kv by auto
    from Cons.IH [OF p(2) this] obtain ks s' n where ih: "put_all put kvs s1 = Some (ks, s')" "inv s'" "distinct ks"
      "\<forall>k\<in>set ks. look s1 k = None" "ks = map fst (take n kvs)" "look s' = (look s1)(ks [\<mapsto>] map snd (take n kvs))" by blast
    have "k \<notin> set ks" using ih(4) p(3) Inr by (metis fun_upd_same option.discI old.unit.exhaust)
    moreover have "\<forall>j\<in>set ks. look s j = None" using ih(4) p(3) Inr by (auto split: if_splits)
    ultimately show ?thesis using p ih kv Inr
      by (intro exI [of _ "k # ks"] exI [of _ s']) (auto intro!: exI [of _ "Suc n"])
  qed
qed (auto intro!: exI [of _ 0])

lemma del_all_unmaps:
  assumes "inv s" "distinct ks" "\<forall>k\<in>set ks. look s k \<noteq> None"
  shows "\<exists>s'. del_all del ks s = Some s' \<and> inv s' \<and> look s' = (\<lambda>k. if k \<in> set ks then None else look s k)"
  using assms
proof (induction ks arbitrary: s)
  case (Cons k ks)
  from Cons.prems(3) obtain v where "look s k = Some v" by auto
  from del_law [OF Cons.prems(1) this] obtain s1 where d: "del s k = Some (Inr (), s1)" "inv s1" "look s1 = (look s)(k := None)"
    by blast
  then have "\<forall>k\<in>set ks. look s1 k \<noteq> None" using Cons.prems(2,3) by auto
  from Cons.IH [OF d(2) _ this] Cons.prems(2) obtain s' where "del_all del ks s1 = Some s'" "inv s'"
    "look s' = (\<lambda>k. if k \<in> set ks then None else look s1 k)" by auto
  moreover have "(if j \<in> set ks then None else look s1 j) = (if j \<in> set (k # ks) then None else look s j)" for j
    using d(3) by simp
  ultimately show ?case using d(1) by simp
qed auto

lemma put_del_restores:
  assumes "inv s" "distinct (map snd kvs)" "\<forall>v\<in>set (map snd kvs). legal s v"
  shows "\<exists>ks s1 s2. put_all put kvs s = Some (ks, s1) \<and> del_all del ks s1 = Some s2 \<and> inv s2 \<and> look s2 = look s"
proof -
  from put_all_maps [OF assms] obtain ks s1 n where p: "put_all put kvs s = Some (ks, s1)" "inv s1" "distinct ks"
    "\<forall>k\<in>set ks. look s k = None" "ks = map fst (take n kvs)" "look s1 = (look s)(ks [\<mapsto>] map snd (take n kvs))" by blast
  have "\<forall>k\<in>set ks. look s1 k \<noteq> None"
    using p(5,6) by (auto simp: map_upds_apply_nontin map_upds_def map_add_def map_of_eq_None_iff zip_map_fst_snd split: option.splits)
  from del_all_unmaps [OF p(2,3) this] obtain s2 where d: "del_all del ks s1 = Some s2" "inv s2"
    "look s2 = (\<lambda>k. if k \<in> set ks then None else look s1 k)" by blast
  have "look s2 = look s" using d(3) p(4,6) by (auto simp: map_upds_apply_nontin)
  with p(1) d show ?thesis by blast
qed

end

section \<open>Bounded queues\<close>

text \<open>A first-in first-out queue that drops what does not fit.\<close>

fun push_all :: "('s \<Rightarrow> 'a \<Rightarrow> 's option) \<Rightarrow> 'a list \<Rightarrow> 's \<Rightarrow> 's option" where
  "push_all push [] s = Some s"
| "push_all push (x # xs) s = do { s \<leftarrow> push s x; push_all push xs s }"

locale bounded_fifo =
  fixes ok :: "'s \<Rightarrow> bool" and contents :: "'s \<Rightarrow> 'a list" and cap :: nat
    and push :: "'s \<Rightarrow> 'a \<Rightarrow> 's option" and pop :: "'s \<Rightarrow> ('a option \<times> 's) option"
  assumes push_fifo: "ok s \<Longrightarrow> \<exists>s'. push s x = Some s' \<and> ok s' \<and> contents s' = take cap (contents s @ [x])"
    and pop_fifo: "ok s \<Longrightarrow> \<exists>s'. pop s = Some (case contents s of [] \<Rightarrow> None | x # _ \<Rightarrow> Some x, s') \<and> ok s' \<and> contents s' = tl (contents s)"
    and fits_cap: "ok s \<Longrightarrow> length (contents s) \<le> cap"
begin

lemma push_all_contents: "ok s \<Longrightarrow> \<exists>s'. push_all push xs s = Some s' \<and> ok s' \<and> contents s' = take cap (contents s @ xs)"
proof (induction xs arbitrary: s)
  case Nil
  then show ?case using fits_cap by simp
next
  case (Cons x xs)
  obtain t where t: "push s x = Some t" "ok t" "contents t = take cap (contents s @ [x])" using push_fifo [OF Cons.prems] by blast
  have "take cap (take cap (contents s @ [x]) @ xs) = take cap (contents s @ x # xs)"
    using fits_cap [OF Cons.prems] by (cases "length (contents s) = cap") (auto simp: take_Cons')
  with Cons.IH [OF t(2)] t show ?case by auto
qed

lemma drain_contents: "ok s \<Longrightarrow> \<exists>s'. drain_pool pop n s = Some (take n (contents s), s') \<and> ok s' \<and> contents s' = drop n (contents s)"
proof (induction n arbitrary: s)
  case (Suc n)
  obtain t where t: "pop s = Some (case contents s of [] \<Rightarrow> None | x # _ \<Rightarrow> Some x, t)" "ok t" "contents t = tl (contents s)"
    using pop_fifo [OF Suc.prems] by blast
  show ?case
  proof (cases "contents s")
    case Nil
    then show ?thesis using t by simp
  next
    case (Cons x xs)
    with Suc.IH [OF t(2)] t show ?thesis by auto
  qed
qed auto

end

section \<open>Systems of steps\<close>

locale safe_system =
  fixes init :: "'s \<Rightarrow> bool" and step :: "'s \<Rightarrow> 's \<Rightarrow> bool" and inv :: "'s \<Rightarrow> bool"
  assumes init_inv: "init s \<Longrightarrow> inv s"
    and step_inv: "inv s \<Longrightarrow> step s t \<Longrightarrow> inv t"
begin

lemma steps_inv: "step\<^sup>*\<^sup>* s t \<Longrightarrow> inv s \<Longrightarrow> inv t"
  by (induction rule: rtranclp_induct) (auto intro: step_inv)

lemma reachable_inv: "init s \<Longrightarrow> step\<^sup>*\<^sup>* s t \<Longrightarrow> inv t"
  using steps_inv init_inv by blast

text \<open>Whatever every step from a good state keeps is kept along every run.\<close>

lemma steps_stable:
  assumes "\<And>s t. inv s \<Longrightarrow> step s t \<Longrightarrow> R s t" "\<And>s. R s s" "\<And>s t u. R s t \<Longrightarrow> R t u \<Longrightarrow> R s u"
    "step\<^sup>*\<^sup>* s t" "inv s"
  shows "R s t"
  using assms(4,5)
proof (induction rule: rtranclp_induct)
  case (step t u)
  then show ?case using assms(1,3) steps_inv [OF step(1)] by blast
qed (rule assms(2))

end

end
