(* ===== verification/Spinlock.thy ===== *)
theory Spinlock
  imports Arch Interfaces
begin

text \<open>
  \<^verbatim>\<open>kernel/src/spinlock.rs\<close> on several CPUs. Each CPU is somewhere in the code of the lock; its next
  atomic access to \<^verbatim>\<open>locked\<close>, or its next access to the interrupt flag, is one step, and the
  steps of the CPUs interleave in any order.
\<close>

section \<open>The lock\<close>

record 'v spinlock =
  locked :: bool
  guarded :: 'v

definition spin_new :: "'v \<Rightarrow> 'v spinlock" where
  "spin_new v = \<lparr>locked = False, guarded = v\<rparr>"

text \<open>Where a CPU is: outside, at the \<^verbatim>\<open>swap\<close> or at the inner \<^verbatim>\<open>load\<close> of \<^verbatim>\<open>acquire\<close>, in possession of a guard, or in
  \<^verbatim>\<open>drop\<close> between the release and the \<^verbatim>\<open>irq_restore\<close>. The argument is the \<^verbatim>\<open>irq\<close> field of the guard.\<close>

datatype at = Outside | Swapping "u64 option" | Spinning "u64 option" | Guard "u64 option" | Dropping u64

record 'v smp =
  spin :: "'v spinlock"
  ats :: "nat \<Rightarrow> at"
  cpus :: "nat \<Rightarrow> cpu"

definition lock_plain :: "'v smp \<Rightarrow> nat \<Rightarrow> 'v smp" where
  "lock_plain s i = s\<lparr>ats := (ats s)(i := Swapping None)\<rparr>"

definition lock_irqsave :: "'v smp \<Rightarrow> nat \<Rightarrow> 'v smp" where
  "lock_irqsave s i =
    (let (saved, c) = irq_save (cpus s i)
     in s\<lparr>cpus := (cpus s)(i := c), ats := (ats s)(i := Swapping (Some saved))\<rparr>)"

definition acquire_swap :: "'v smp \<Rightarrow> nat \<Rightarrow> u64 option \<Rightarrow> 'v smp" where
  "acquire_swap s i irq =
    (let old = locked (spin s)
     in s\<lparr>spin := (spin s)\<lparr>locked := True\<rparr>, ats := (ats s)(i := if old then Spinning irq else Guard irq)\<rparr>)"

definition acquire_load :: "'v smp \<Rightarrow> nat \<Rightarrow> u64 option \<Rightarrow> 'v smp" where
  "acquire_load s i irq = s\<lparr>ats := (ats s)(i := if locked (spin s) then Spinning irq else Swapping irq)\<rparr>"

definition lock_release :: "'v spinlock \<Rightarrow> 'v spinlock" where
  "lock_release l = l\<lparr>locked := False\<rparr>"

definition deref_mut :: "'v smp \<Rightarrow> ('v \<Rightarrow> 'v) \<Rightarrow> 'v smp" where
  "deref_mut s f = s\<lparr>spin := (spin s)\<lparr>guarded := f (guarded (spin s))\<rparr>\<rparr>"

definition guard_drop :: "'v smp \<Rightarrow> nat \<Rightarrow> u64 option \<Rightarrow> 'v smp" where
  "guard_drop s i irq =
    s\<lparr>spin := lock_release (spin s), ats := (ats s)(i := case irq of None \<Rightarrow> Outside | Some saved \<Rightarrow> Dropping saved)\<rparr>"

definition drop_restore :: "'v smp \<Rightarrow> nat \<Rightarrow> u64 \<Rightarrow> 'v smp" where
  "drop_restore s i saved = s\<lparr>cpus := (cpus s)(i := irq_restore (cpus s i) saved), ats := (ats s)(i := Outside)\<rparr>"

section \<open>Interleavings\<close>

text \<open>One step of CPU \<open>i\<close>; outside the lock it runs other code, which may change its flags.\<close>

inductive spin_step :: "nat \<Rightarrow> 'v smp \<Rightarrow> 'v smp \<Rightarrow> bool" where
  other_code: "ats s i = Outside \<Longrightarrow> spin_step i s (s\<lparr>cpus := (cpus s)(i := c)\<rparr>)"
| plain: "ats s i = Outside \<Longrightarrow> spin_step i s (lock_plain s i)"
| irqsave: "ats s i = Outside \<Longrightarrow> spin_step i s (lock_irqsave s i)"
| swap: "ats s i = Swapping irq \<Longrightarrow> spin_step i s (acquire_swap s i irq)"
| load: "ats s i = Spinning irq \<Longrightarrow> spin_step i s (acquire_load s i irq)"
| access: "ats s i = Guard irq \<Longrightarrow> spin_step i s (deref_mut s f)"
| drop: "ats s i = Guard irq \<Longrightarrow> spin_step i s (guard_drop s i irq)"
| restore: "ats s i = Dropping saved \<Longrightarrow> spin_step i s (drop_restore s i saved)"

inductive_cases spin_step_cases: "spin_step i s t"

definition spin_steps :: "'v smp \<Rightarrow> 'v smp \<Rightarrow> bool" where
  "spin_steps s t \<longleftrightarrow> (\<exists>i. spin_step i s t)"

definition spin_start :: "'v smp \<Rightarrow> bool" where
  "spin_start s \<longleftrightarrow> \<not> locked (spin s) \<and> (\<forall>i. ats s i = Outside)"

definition holds :: "'v smp \<Rightarrow> nat \<Rightarrow> bool" where
  "holds s i \<longleftrightarrow> (\<exists>irq. ats s i = Guard irq)"

fun irq_of :: "at \<Rightarrow> u64 option" where
  "irq_of Outside = None"
| "irq_of (Swapping irq) = irq"
| "irq_of (Spinning irq) = irq"
| "irq_of (Guard irq) = irq"
| "irq_of (Dropping saved) = Some saved"

text \<open>The lock is taken exactly while one CPU has the guard, and a CPU between \<^verbatim>\<open>irq_save\<close> and
  \<^verbatim>\<open>irq_restore\<close> has its interrupts off.\<close>

definition spin_inv :: "'v smp \<Rightarrow> bool" where
  "spin_inv s \<longleftrightarrow> (locked (spin s) \<longleftrightarrow> (\<exists>i. holds s i)) \<and> (\<forall>i j. holds s i \<longrightarrow> holds s j \<longrightarrow> i = j) \<and>
     (\<forall>i. irq_of (ats s i) \<noteq> None \<longrightarrow> \<not> interrupts_enabled (cpus s i))"

lemma lock_irqsave_simps [simp]:
  "spin (lock_irqsave s i) = spin s" "ats (lock_irqsave s i) = (ats s)(i := Swapping (Some (fst (irq_save (cpus s i)))))"
  "cpus (lock_irqsave s i) = (cpus s)(i := snd (irq_save (cpus s i)))"
  by (simp_all add: lock_irqsave_def case_prod_beta)

lemmas spin_ops = lock_plain_def acquire_swap_def acquire_load_def lock_release_def deref_mut_def guard_drop_def drop_restore_def

lemma spin_step_others:
  assumes "spin_step i s t" "j \<noteq> i"
  shows "ats t j = ats s j" "cpus t j = cpus s j"
  using assms by (cases; simp add: spin_ops)+

lemma spin_step_holds:
  assumes "spin_step i s t"
  shows "holds s i \<or> guarded (spin t) = guarded (spin s) \<and> locked (spin t) = (locked (spin s) \<or> holds t i) \<and> (holds t i \<longrightarrow> \<not> locked (spin s))"
    and "holds s i \<longrightarrow> locked (spin s) \<longrightarrow> locked (spin t) = holds t i"
  using assms by (cases; auto simp: spin_ops holds_def split: option.split)+

lemma spin_step_irq:
  assumes "spin_step i s t" "irq_of (ats s i) \<noteq> None \<longrightarrow> \<not> interrupts_enabled (cpus s i)" "irq_of (ats t i) \<noteq> None"
  shows "\<not> interrupts_enabled (cpus t i)"
  using assms by (cases; auto simp: spin_ops irq_save_disables split: option.splits if_splits)

lemma spin_run: "spin_steps\<^sup>*\<^sup>* s t \<Longrightarrow> spin_step i t u \<Longrightarrow> spin_steps\<^sup>*\<^sup>* s u"
  by (rule rtranclp.rtrancl_into_rtrancl) (auto simp: spin_steps_def)

lemma spin_step_inv:
  assumes inv: "spin_inv s" and step: "spin_step i s t"
  shows "spin_inv t"
proof -
  have o: "holds t j = holds s j" if "j \<noteq> i" for j using spin_step_others [OF step that] by (simp add: holds_def)
  have l: "locked (spin s) \<longleftrightarrow> (\<exists>j. holds s j)" and u: "\<And>j k. holds s j \<Longrightarrow> holds s k \<Longrightarrow> j = k"
    and q: "\<And>j. irq_of (ats s j) \<noteq> None \<longrightarrow> \<not> interrupts_enabled (cpus s j)" using inv by (auto simp: spin_inv_def)
  note st = spin_step_holds [OF step]
  have "locked (spin t) \<longleftrightarrow> (\<exists>j. holds t j)" using st l u o by metis
  moreover have "j = k" if "holds t j" "holds t k" for j k using that st l u o by metis
  moreover have "irq_of (ats t j) \<noteq> None \<longrightarrow> \<not> interrupts_enabled (cpus t j)" for j
    using spin_step_others [OF step, of j] spin_step_irq [OF step] q [of j] by (cases "j = i") simp_all
  ultimately show ?thesis unfolding spin_inv_def by blast
qed

interpretation spin_sys: safe_system "spin_start :: 'v smp \<Rightarrow> bool" spin_steps spin_inv
proof
  show "spin_inv s" if "spin_start s" for s :: "'v smp" using that by (simp add: spin_start_def spin_inv_def holds_def)
  show "spin_inv t" if "spin_inv s" "spin_steps s t" for s t :: "'v smp" using that spin_step_inv by (auto simp: spin_steps_def)
qed

text \<open>What one CPU does between taking a guard with \<^verbatim>\<open>lock_irqsave\<close> and having dropped it, with the other
  CPUs in between.\<close>

inductive irq_section :: "nat \<Rightarrow> 'v smp \<Rightarrow> 'v smp \<Rightarrow> bool" for i s where
  enter: "ats s i = Outside \<Longrightarrow> irq_section i s (lock_irqsave s i)"
| others: "irq_section i s t \<Longrightarrow> spin_step j t u \<Longrightarrow> j \<noteq> i \<Longrightarrow> irq_section i s u"
| own: "irq_section i s t \<Longrightarrow> spin_step i t u \<Longrightarrow> ats t i \<noteq> Outside \<Longrightarrow> irq_section i s u"

lemma irq_section_flags:
  assumes "irq_section i s t"
  shows "(\<exists>saved. irq_of (ats t i) = Some saved \<and> irq_restore (cpus t i) saved = cpus s i) \<or> ats t i = Outside \<and> cpus t i = cpus s i"
  using assms
proof induction
  case enter
  then show ?case by (simp add: irq_save_restore)
next
  case (others t j u)
  then show ?case using spin_step_others [of j t u i] by simp
next
  case (own t u)
  then obtain saved where saved: "irq_of (ats t i) = Some saved" "irq_restore (cpus t i) saved = cpus s i" by blast
  show ?case using own(2) by cases (use saved own(3) in \<open>auto simp: spin_ops split: option.splits\<close>)
qed

section \<open>Properties\<close>

text \<open>C22: Mutual exclusion: in every interleaving of any number of CPUs at most one holds a guard, the lock is
  marked taken exactly while one does, no other CPU can change the guarded value or take the guard
  away meanwhile, and a CPU that came in through \<^verbatim>\<open>lock_irqsave\<close> has interrupts off from before its first
  attempt until after the release.\<close>

theorem spinlock_exclusive:
  assumes "spin_start s0" "spin_steps\<^sup>*\<^sup>* s0 s"
  shows "(locked (spin s) \<longleftrightarrow> (\<exists>i. holds s i)) \<and> (\<forall>i j. holds s i \<and> holds s j \<longrightarrow> i = j) \<and>
    (\<forall>i j t. holds s i \<and> spin_step j s t \<and> j \<noteq> i \<longrightarrow> holds t i \<and> guarded (spin t) = guarded (spin s)) \<and>
    (\<forall>i. irq_of (ats s i) \<noteq> None \<longrightarrow> \<not> interrupts_enabled (cpus s i))"
proof -
  have inv: "spin_inv s" by (rule spin_sys.reachable_inv [OF assms])
  have "holds t i \<and> guarded (spin t) = guarded (spin s)" if "holds s i" "spin_step j s t" "j \<noteq> i" for i j t
    using that spin_step_others [OF that(2), of i] spin_step_holds(1) [OF that(2)] inv unfolding spin_inv_def holds_def by metis
  then show ?thesis using inv by (auto simp: spin_inv_def)
qed

definition example_smp :: "nat smp" where
  "example_smp = \<lparr>spin = spin_new 7, ats = (\<lambda>_. Outside), cpus = (\<lambda>_. \<lparr>rflags = 0x202, cr3 = 0\<rparr>)\<rparr>"

theorem spinlock_exclusive_witness:
  "\<exists>s. spin_steps\<^sup>*\<^sup>* example_smp s \<and> holds s 3 \<and> (\<nexists>j t. j \<noteq> 3 \<and> spin_step j s t \<and> guarded (spin t) \<noteq> guarded (spin s))"
proof -
  let ?s = "acquire_swap (lock_plain example_smp 3) 3 None"
  have "spin_step 3 example_smp (lock_plain example_smp 3)" "spin_step 3 (lock_plain example_smp 3) ?s"
    by (rule spin_step.plain spin_step.swap; simp add: example_smp_def lock_plain_def)+
  then have r: "spin_steps\<^sup>*\<^sup>* example_smp ?s" by (rule spin_run [OF spin_run [OF rtranclp.rtrancl_refl]])
  have h: "holds ?s 3" by (simp add: holds_def acquire_swap_def lock_plain_def example_smp_def spin_new_def)
  have "spin_start example_smp" by (simp add: spin_start_def example_smp_def spin_new_def)
  note ex = spinlock_exclusive [OF this r, THEN conjunct2, THEN conjunct2, THEN conjunct1, rule_format]
  have "guarded (spin t) = guarded (spin ?s)" if "j \<noteq> 3" "spin_step j ?s t" for j t using ex [of 3 j t] h that by simp
  then show ?thesis using r h by (intro exI [of _ ?s]) auto
qed

text \<open>Leaving the critical section restores the interrupt state: once a CPU that entered through
  \<^verbatim>\<open>lock_irqsave\<close> is outside again, its flags are those it came with.\<close>

theorem irqsave_restores:
  assumes "irq_section i s t" "ats t i = Outside"
  shows "cpus t i = cpus s i"
  using irq_section_flags [OF assms(1)] assms(2) by auto

theorem irqsave_restores_witness:
  "\<exists>t. irq_section 0 example_smp t \<and> ats t 0 = Outside \<and> interrupts_enabled (cpus t 0)"
proof -
  let ?a = "lock_irqsave example_smp 0"
  obtain v where v: "ats ?a 0 = Swapping (Some v)" by simp
  let ?b = "acquire_swap ?a 0 (Some v)"
  have l: "\<not> locked (spin ?a)" by (simp add: example_smp_def spin_new_def)
  have b: "ats ?b 0 = Guard (Some v)" using l by (simp add: acquire_swap_def)
  let ?c = "guard_drop ?b 0 (Some v)"
  have c: "ats ?c 0 = Dropping v" by (simp add: guard_drop_def)
  let ?d = "drop_restore ?c 0 v"
  have "irq_section 0 example_smp ?a" by (rule irq_section.enter) (simp add: example_smp_def)
  then have "irq_section 0 example_smp ?b" by (rule irq_section.own [OF _ spin_step.swap [OF v]]) (simp add: v)
  then have "irq_section 0 example_smp ?c" by (rule irq_section.own [OF _ spin_step.drop [OF b]]) (simp add: b)
  then have d: "irq_section 0 example_smp ?d" by (rule irq_section.own [OF _ spin_step.restore [OF c]]) (simp add: c)
  have o: "ats ?d 0 = Outside" by (simp add: drop_restore_def)
  have "cpus ?d 0 = cpus example_smp 0" by (rule irqsave_restores [OF d o])
  then show ?thesis using d o by (intro exI [of _ ?d]) (simp add: example_smp_def interrupts_enabled_def RFLAGS_IF_def)
qed

end
