(* ===== verification/Frame.thy ===== *)
theory Frame
  imports Arch
begin

text \<open>
  \<^verbatim>\<open>kernel/src/frame.rs\<close>: the owner of a physical frame as a tagged 64-bit word, the
  per-frame metadata and the frame table. The free lists and the capability table are derived
  views of the owner words. Atomics are read and written one at a time here: the model is the
  single CPU the kernel runs on, and \<^verbatim>\<open>compare_exchange\<close> is one step.

  \<^verbatim>\<open>unpin_frame\<close> and \<^verbatim>\<open>remove_mapping\<close> call back into the allocator
  (\<^verbatim>\<open>drain_if_ready\<close>), so they are in the theory \<open>Allocator\<close>.
\<close>

section \<open>Owners\<close>

datatype ownertag = Reserved | Free | Kernel | Pending | Untyped | Domain

datatype frame_owner = FrameOwner (raw: u64)

fun tag_u64 :: "ownertag \<Rightarrow> u64" where
  "tag_u64 Reserved = 0"
| "tag_u64 Free = 1"
| "tag_u64 Kernel = 2"
| "tag_u64 Pending = 3"
| "tag_u64 Untyped = 4"
| "tag_u64 Domain = 5"

definition encode :: "ownertag \<Rightarrow> u32 \<Rightarrow> u64" where
  "encode tag i = tag_u64 tag OR push_bit 8 (ucast i)"

definition decode :: "u64 \<Rightarrow> (ownertag \<times> u32) option" where
  "decode r = do {
     tag \<leftarrow> (let t = r AND 0xff in
        if t = 0 then Some Reserved
        else if t = 1 then Some Free
        else if t = 2 then Some Kernel
        else if t = 3 then Some Pending
        else if t = 4 then Some Untyped
        else if t = 5 then Some Domain
        else None);
     Some (tag, ucast (drop_bit 8 r AND 0xffffffff))
   }"

definition RESERVED :: frame_owner where "RESERVED = FrameOwner (encode Reserved 0)"
definition FREE :: frame_owner where "FREE = FrameOwner (encode Free 0)"
definition KERNEL :: frame_owner where "KERNEL = FrameOwner (encode Kernel 0)"
definition PENDING :: frame_owner where "PENDING = FrameOwner (encode Pending 0)"

definition untyped :: "u32 \<Rightarrow> frame_owner" where
  "untyped i = FrameOwner (encode Untyped i)"

definition domain :: "u32 \<Rightarrow> frame_owner" where
  "domain i = FrameOwner (encode Domain i)"

definition tag_of :: "frame_owner \<Rightarrow> ownertag option" where
  "tag_of ow = map_option fst (decode (raw ow))"

definition id_of :: "frame_owner \<Rightarrow> u32 option" where
  "id_of ow = map_option snd (decode (raw ow))"

section \<open>Per-frame metadata\<close>

record frameinfo =
  owner_word :: u64
  mapping_count :: u32
  pin_count :: u32
  generation :: u32

definition owner :: "frameinfo \<Rightarrow> frame_owner" where
  "owner fi = FrameOwner (owner_word fi)"

definition owner_tag :: "frameinfo \<Rightarrow> ownertag option" where
  "owner_tag fi = tag_of (owner fi)"

definition is_free :: "frameinfo \<Rightarrow> bool option" where
  "is_free fi = do { t \<leftarrow> owner_tag fi; Some (t = Free) }"

definition transition :: "frameinfo \<Rightarrow> frame_owner \<Rightarrow> frame_owner \<Rightarrow> bool \<times> frameinfo" where
  "transition fi expected new =
     (if owner_word fi = raw expected then (True, fi\<lparr>owner_word := raw new\<rparr>) else (False, fi))"

definition bump_gen :: "frameinfo \<Rightarrow> u32 \<times> frameinfo" where
  "bump_gen fi = (generation fi + 1, fi\<lparr>generation := generation fi + 1\<rparr>)"

definition pin :: "frameinfo \<Rightarrow> u32 \<times> frameinfo" where
  "pin fi = (pin_count fi + 1, fi\<lparr>pin_count := pin_count fi + 1\<rparr>)"

definition unpin :: "frameinfo \<Rightarrow> (u32 \<times> frameinfo) option" where
  "unpin fi = do {
     rassert (0 < pin_count fi);
     Some (pin_count fi - 1, fi\<lparr>pin_count := pin_count fi - 1\<rparr>)
   }"

definition fi_add_mapping :: "frameinfo \<Rightarrow> u32 \<times> frameinfo" where
  "fi_add_mapping fi = (mapping_count fi + 1, fi\<lparr>mapping_count := mapping_count fi + 1\<rparr>)"

definition fi_remove_mapping :: "frameinfo \<Rightarrow> (u32 \<times> frameinfo) option" where
  "fi_remove_mapping fi = do {
     rassert (0 < mapping_count fi);
     Some (mapping_count fi - 1, fi\<lparr>mapping_count := mapping_count fi - 1\<rparr>)
   }"

section \<open>The frame table\<close>

text \<open>
  \<open>ft_base\<close> and \<open>ft_num\<close> are the fields of the static \<^verbatim>\<open>FRAME_TABLE\<close>; \<open>infos\<close> is the
  array at \<open>ft_base\<close>, 24 bytes per entry (\<^verbatim>\<open>size_of::<FrameInfo>()\<close>: 8 + 3 * 4, padded to
  the alignment of the 8-byte owner word).
\<close>

record frame_state = mem_state +
  ft_base :: u64
  ft_num :: u64
  infos :: "u32 \<Rightarrow> frameinfo"

definition SIZE_OF_FRAME_INFO :: usize where [kconsts]: "SIZE_OF_FRAME_INFO = 24"

definition zero_info :: frameinfo where
  "zero_info = \<lparr>owner_word = 0, mapping_count = 0, pin_count = 0, generation = 0\<rparr>"

definition init_table_zeroed ::
  "'a frame_state_scheme \<Rightarrow> usize \<Rightarrow> usize \<Rightarrow> usize \<Rightarrow> (string + 'a frame_state_scheme) option" where
  "init_table_zeroed s base_va num_frames bytes = do {
     rassert (base_va \<noteq> 0);
     if ft_base s \<noteq> 0 then Some (Inl ''frame table already initialized'')
     else do {
       let s = s\<lparr>ft_base := base_va\<rparr>;
       let s = s\<lparr>ft_num := num_frames\<rparr>;
       Some (Inr (s\<lparr>infos := (\<lambda>i. if unat i * 24 + 24 \<le> unat bytes then zero_info else infos s i)\<rparr>))
     }
   }"

definition total_frames :: "'a frame_state_scheme \<Rightarrow> usize" where
  "total_frames s = ft_num s"

definition frame_info :: "'a frame_state_scheme \<Rightarrow> u32 \<Rightarrow> frameinfo option" where
  "frame_info s idx = do {
     rassert (ft_base s \<noteq> 0);
     rassert (ucast idx < ft_num s);
     Some (infos s idx)
   }"

definition put_info :: "'a frame_state_scheme \<Rightarrow> u32 \<Rightarrow> frameinfo \<Rightarrow> 'a frame_state_scheme" where
  "put_info s idx fi = s\<lparr>infos := (infos s)(idx := fi)\<rparr>"

definition try_set_owner ::
  "'a frame_state_scheme \<Rightarrow> u32 \<Rightarrow> frame_owner \<Rightarrow> frame_owner \<Rightarrow> (bool \<times> 'a frame_state_scheme) option" where
  "try_set_owner s frame expected new = do {
     fi \<leftarrow> frame_info s frame;
     let (ok, fi) = transition fi expected new;
     Some (ok, put_info s frame fi)
   }"

definition set_owner ::
  "'a frame_state_scheme \<Rightarrow> u32 \<Rightarrow> frame_owner \<Rightarrow> frame_owner \<Rightarrow> 'a frame_state_scheme option" where
  "set_owner s frame expected new = do {
     fi \<leftarrow> frame_info s frame;
     let (ok, fi) = transition fi expected new;
     rassert ok;
     Some (put_info s frame fi)
   }"

definition pin_frame :: "'a frame_state_scheme \<Rightarrow> u32 \<Rightarrow> (u32 \<times> 'a frame_state_scheme) option" where
  "pin_frame s frame = do {
     fi \<leftarrow> frame_info s frame;
     let (n, fi) = pin fi;
     Some (n, put_info s frame fi)
   }"

definition add_mapping :: "'a frame_state_scheme \<Rightarrow> u32 \<Rightarrow> (u32 \<times> 'a frame_state_scheme) option" where
  "add_mapping s frame = do {
     fi \<leftarrow> frame_info s frame;
     let (n, fi) = fi_add_mapping fi;
     Some (n, put_info s frame fi)
   }"

definition frame_gen :: "'a frame_state_scheme \<Rightarrow> u32 \<Rightarrow> u32 option" where
  "frame_gen s frame = do { fi \<leftarrow> frame_info s frame; Some (generation fi) }"

section \<open>Encoding lemmas\<close>

lemma encode_low_byte: "encode t i AND 0xff = tag_u64 t"
proof -
  have m: "(0xff :: u64) = mask 8" by (simp add: mask_eq_exp_minus_1)
  have "push_bit 8 (ucast i :: u64) AND mask 8 = 0"
    by (rule bit_word_eqI) (simp add: bit_simps)
  then show ?thesis
    unfolding m by (cases t) (simp_all add: encode_def bit.conj_disj_distrib2 take_bit_eq_mask [symmetric])
qed

lemma encode_id: "ucast (drop_bit 8 (encode t i) AND 0xffffffff :: u64) = i"
proof -
  have m: "(0xffffffff :: u64) = mask 32" by (simp add: mask_eq_exp_minus_1)
  have d: "drop_bit 8 (tag_u64 t) = 0"
    by (cases t) simp_all
  have "drop_bit 8 (push_bit 8 (ucast i :: u64)) AND mask 32 = ucast i"
    by (rule bit_word_eqI) (auto simp: bit_simps dest: bit_imp_le_length)
  then show ?thesis
    unfolding m by (simp add: encode_def d bit.conj_disj_distrib2 ucast_down_up)
qed

lemma decode_encode [simp]: "decode (encode t i) = Some (t, i)"
  by (cases t) (simp_all add: decode_def encode_low_byte encode_id)

lemma encode_inject [simp]: "encode t i = encode t' i' \<longleftrightarrow> t = t' \<and> i = i'"
  by (metis decode_encode option.inject prod.inject)

lemmas owner_consts = RESERVED_def FREE_def KERNEL_def PENDING_def untyped_def domain_def

lemma owner_tags [simp]:
  "tag_of RESERVED = Some Reserved" "tag_of FREE = Some Free" "tag_of KERNEL = Some Kernel"
  "tag_of PENDING = Some Pending" "tag_of (untyped i) = Some Untyped" "tag_of (domain i) = Some Domain"
  "id_of (untyped i) = Some i" "id_of (domain i) = Some i"
  by (simp_all add: tag_of_def id_of_def owner_consts)

text \<open>Every owner word is one of the six canonical encodings; then \<^verbatim>\<open>decode\<close> never panics.\<close>

definition canonical :: "u64 \<Rightarrow> bool" where
  "canonical w \<longleftrightarrow> w \<in> {raw RESERVED, raw FREE, raw KERNEL, raw PENDING} \<or>
     (\<exists>i. w = raw (untyped i)) \<or> (\<exists>i. w = raw (domain i))"

lemma canonical_consts [simp]:
  "canonical (raw RESERVED)" "canonical (raw FREE)" "canonical (raw KERNEL)"
  "canonical (raw PENDING)" "canonical (raw (untyped i))" "canonical (raw (domain i))"
  by (auto simp: canonical_def)

lemma canonical_tag: "canonical w \<Longrightarrow> \<exists>t. tag_of (FrameOwner w) = Some t"
  by (auto simp: canonical_def tag_of_def owner_consts)

lemma canonical_tag_iff:
  assumes "canonical w"
  shows "tag_of (FrameOwner w) = Some Free \<longleftrightarrow> w = raw FREE"
    and "tag_of (FrameOwner w) = Some Reserved \<longleftrightarrow> w = raw RESERVED"
    and "tag_of (FrameOwner w) = Some Pending \<longleftrightarrow> w = raw PENDING"
    and "tag_of (FrameOwner w) = Some Kernel \<longleftrightarrow> w = raw KERNEL"
  using assms by (auto simp: canonical_def tag_of_def owner_consts)

end
