(* ===== verification/Allocator.thy ===== *)
theory Allocator
  imports Frame "HOL-Library.Multiset"
begin

text \<open>
  \<^verbatim>\<open>kernel/src/allocator.rs\<close> and the two functions of \<^verbatim>\<open>frame.rs\<close> that drain into it: the
  sharded free lists threaded through the first word of the free frames. A \<^verbatim>\<open>SpinLock\<close>
  guard is direct access to the guarded shard here; the lock itself is modelled in the theory
  \<open>Spinlock\<close>.

  The lemmas show that "on a free list iff Free" is an invariant of every operation, that none
  of them panics on a well-formed state beyond its documented assertions, and what each returns.
\<close>

section \<open>State and operations\<close>

definition LIST_END :: u32 where [kconsts]: "LIST_END = 0xFFFFFFFF"

record shard =
  head :: u32
  count :: u32

definition empty_shard :: shard where
  "empty_shard = \<lparr>head = LIST_END, count = 0\<rparr>"

definition is_empty :: "shard \<Rightarrow> bool" where
  "is_empty sh \<longleftrightarrow> head sh = LIST_END"

record pmm = frame_state +
  shards :: "shard list"
  global :: shard

definition list_next :: "pmm \<Rightarrow> u32 \<Rightarrow> u32 option" where
  "list_next s frame = do {
     va \<leftarrow> phys_to_virt s (frame_phys frame);
     Some (read_u32 s va)
   }"

definition set_list_next :: "pmm \<Rightarrow> u32 \<Rightarrow> u32 \<Rightarrow> pmm option" where
  "set_list_next s frame nxt = do {
     va \<leftarrow> phys_to_virt s (frame_phys frame);
     Some (write_u32 s va nxt)
   }"

definition shard_at :: "pmm \<Rightarrow> nat \<Rightarrow> shard option" where
  "shard_at s i = (if i < length (shards s) then Some (shards s ! i) else None)"

definition put_shard :: "pmm \<Rightarrow> nat \<Rightarrow> shard \<Rightarrow> pmm" where
  "put_shard s i sh = s\<lparr>shards := (shards s)[i := sh]\<rparr>"

definition pop_shard :: "pmm \<Rightarrow> nat \<Rightarrow> (u32 option \<times> pmm) option" where
  "pop_shard s shard = do {
     guard \<leftarrow> shard_at s shard;
     if is_empty guard then Some (None, s)
     else do {
       let frame = head guard;
       fi \<leftarrow> frame_info s frame;
       free \<leftarrow> is_free fi;
       rassert free;
       nxt \<leftarrow> list_next s frame;
       n \<leftarrow> usub (count guard) 1;
       let s = put_shard s shard \<lparr>head = nxt, count = n\<rparr>;
       s \<leftarrow> set_owner s frame FREE KERNEL;
       Some (Some frame, s)
     }
   }"

text \<open>The loop of \<^verbatim>\<open>refill_shard\<close>: \<open>n\<close> rounds of \<^verbatim>\<open>tail = cur; cur = list_next(cur)\<close>.\<close>

fun peel :: "pmm \<Rightarrow> nat \<Rightarrow> u32 \<Rightarrow> u32 \<Rightarrow> (u32 \<times> u32) option" where
  "peel s 0 tail cur = Some (tail, cur)"
| "peel s (Suc n) tail cur = do { nxt \<leftarrow> list_next s cur; peel s n cur nxt }"

definition refill_shard :: "pmm \<Rightarrow> nat \<Rightarrow> pmm option" where
  "refill_shard s shard = do {
     let g = global s;
     let batch = min (count g) SHARD_REFILL_BATCH;
     if batch = 0 then Some s
     else do {
       let batch_head = head g;
       cur \<leftarrow> list_next s batch_head;
       (tail, cur) \<leftarrow> peel s (unat batch - 1) batch_head cur;
       n \<leftarrow> usub (count g) batch;
       let s = s\<lparr>global := \<lparr>head = cur, count = n\<rparr>\<rparr>;
       guard \<leftarrow> shard_at s shard;
       s \<leftarrow> set_list_next s tail (head guard);
       n \<leftarrow> uadd (count guard) batch;
       Some (put_shard s shard \<lparr>head = batch_head, count = n\<rparr>)
     }
   }"

definition alloc_frame :: "pmm \<Rightarrow> (u32 option \<times> pmm) option" where
  "alloc_frame s = do {
     let shard = current_cpu mod SHARD_COUNT;
     (r, s) \<leftarrow> pop_shard s shard;
     case r of
       Some frame \<Rightarrow> Some (Some frame, s)
     | None \<Rightarrow> do { s \<leftarrow> refill_shard s shard; pop_shard s shard }
   }"

definition release_frame :: "pmm \<Rightarrow> u32 \<Rightarrow> pmm option" where
  "release_frame s frame = do {
     let shard = current_cpu mod SHARD_COUNT;
     guard \<leftarrow> shard_at s shard;
     info \<leftarrow> frame_info s frame;
     let ow = owner info;
     t \<leftarrow> tag_of ow;
     rassert (t \<noteq> Reserved);
     rassert (t \<noteq> Free);
     if pin_count info \<noteq> 0 \<or> mapping_count info \<noteq> 0 then
       (if t \<noteq> Pending then set_owner s frame ow PENDING else Some s)
     else do {
       s \<leftarrow> set_owner s frame ow FREE;
       info \<leftarrow> frame_info s frame;
       let s = put_info s frame (snd (bump_gen info));
       s \<leftarrow> set_list_next s frame (head guard);
       n \<leftarrow> uadd (count guard) 1;
       Some (put_shard s shard \<lparr>head = frame, count = n\<rparr>)
     }
   }"

definition drain_if_ready :: "pmm \<Rightarrow> u32 \<Rightarrow> pmm option" where
  "drain_if_ready s frame = do {
     info \<leftarrow> frame_info s frame;
     t \<leftarrow> owner_tag info;
     if t = Pending \<and> pin_count info = 0 \<and> mapping_count info = 0
     then release_frame s frame else Some s
   }"

definition unpin_frame :: "pmm \<Rightarrow> u32 \<Rightarrow> (u32 \<times> pmm) option" where
  "unpin_frame s frame = do {
     fi \<leftarrow> frame_info s frame;
     (n, fi) \<leftarrow> unpin fi;
     s \<leftarrow> drain_if_ready (put_info s frame fi) frame;
     Some (n, s)
   }"

definition remove_mapping :: "pmm \<Rightarrow> u32 \<Rightarrow> (u32 \<times> pmm) option" where
  "remove_mapping s frame = do {
     fi \<leftarrow> frame_info s frame;
     (n, fi) \<leftarrow> fi_remove_mapping fi;
     s \<leftarrow> drain_if_ready (put_info s frame fi) frame;
     Some (n, s)
   }"

text \<open>The scan of \<^verbatim>\<open>build_global_freelist\<close> over the indices \<^verbatim>\<open>0..total\<close>.\<close>

fun build_scan :: "pmm \<Rightarrow> u32 list \<Rightarrow> u32 \<Rightarrow> u32 \<Rightarrow> u64 \<Rightarrow> (pmm \<times> u32 \<times> u32 \<times> u64) option" where
  "build_scan s [] first prev cnt = Some (s, first, prev, cnt)"
| "build_scan s (idx # idxs) first prev cnt = do {
     fi \<leftarrow> frame_info s idx;
     free \<leftarrow> is_free fi;
     if free then do {
       (s, first) \<leftarrow> (if first = LIST_END then Some (s, idx)
                     else do { s \<leftarrow> set_list_next s prev idx; Some (s, first) });
       cnt \<leftarrow> uadd cnt 1;
       build_scan s idxs first idx cnt
     } else build_scan s idxs first prev cnt
   }"

definition build_global_freelist :: "pmm \<Rightarrow> (u64 \<times> pmm) option" where
  "build_global_freelist s = do {
     let total = (ucast (total_frames s) :: u32);
     (s, first, prev, cnt) \<leftarrow> build_scan s (map word_of_nat [0..<unat total]) LIST_END LIST_END 0;
     s \<leftarrow> (if prev \<noteq> LIST_END then set_list_next s prev LIST_END else Some s);
     rassert (is_empty (global s));
     Some (cnt, s\<lparr>global := \<lparr>head = first, count = ucast cnt\<rparr>\<rparr>)
   }"

fun sum_counts :: "shard list \<Rightarrow> usize \<Rightarrow> usize option" where
  "sum_counts [] acc = Some acc"
| "sum_counts (sh # shs) acc = do { acc \<leftarrow> uadd acc (ucast (count sh)); sum_counts shs acc }"

definition free_frame_count :: "pmm \<Rightarrow> usize option" where
  "free_frame_count s = do {
     acc \<leftarrow> sum_counts (shards s) 0;
     uadd acc (ucast (count (global s)))
   }"

text \<open>
  The list walk of \<^verbatim>\<open>debug_validate_free_lists\<close>. On a cyclic list it would not return
  (\<open>None\<close>, as for a panic); on a well-formed state it does, which is proved below.
\<close>

partial_function (option) validate_from :: "pmm \<Rightarrow> u32 \<Rightarrow> usize \<Rightarrow> usize option" where
  "validate_from s cur walked =
     (if cur = LIST_END then Some walked
      else do {
        fi \<leftarrow> frame_info s cur;
        free \<leftarrow> is_free fi;
        rassert free;
        walked \<leftarrow> uadd walked 1;
        nxt \<leftarrow> list_next s cur;
        validate_from s nxt walked
      })"

fun validate_shards :: "pmm \<Rightarrow> shard list \<Rightarrow> usize \<Rightarrow> usize option" where
  "validate_shards s [] walked = Some walked"
| "validate_shards s (sh # shs) walked = do {
     walked \<leftarrow> validate_from s (head sh) walked;
     validate_shards s shs walked
   }"

definition debug_validate_free_lists :: "pmm \<Rightarrow> usize option" where
  "debug_validate_free_lists s = do {
     walked \<leftarrow> validate_shards s (shards s) 0;
     validate_from s (head (global s)) walked
   }"


section \<open>Lists in memory\<close>

definition frame_va :: "'a mem_state_scheme \<Rightarrow> u32 \<Rightarrow> u64" where
  "frame_va s f = phys_map_base s + frame_phys f"

definition next_of :: "'a mem_state_scheme \<Rightarrow> u32 \<Rightarrow> u32" where
  "next_of s f = read_u32 s (frame_va s f)"

primrec path :: "'a mem_state_scheme \<Rightarrow> u32 \<Rightarrow> u32 list \<Rightarrow> u32 \<Rightarrow> bool" where
  "path s h [] y \<longleftrightarrow> h = y"
| "path s h (f # fs) y \<longleftrightarrow> h = f \<and> f \<noteq> LIST_END \<and> path s (next_of s f) fs y"

definition shard_ok :: "'a mem_state_scheme \<Rightarrow> shard \<Rightarrow> u32 list \<Rightarrow> bool" where
  "shard_ok s sh fs \<longleftrightarrow> path s (head sh) fs LIST_END \<and> unat (count sh) = length fs"

definition in_table :: "'a frame_state_scheme \<Rightarrow> u32 \<Rightarrow> bool" where
  "in_table s f \<longleftrightarrow> ucast f < ft_num s"

definition free_frames :: "'a frame_state_scheme \<Rightarrow> u32 set" where
  "free_frames s = {f. in_table s f \<and> owner_word (infos s f) = raw FREE}"

definition table_ok :: "'a frame_state_scheme \<Rightarrow> bool" where
  "table_ok s \<longleftrightarrow> ft_base s \<noteq> 0 \<and> unat (ft_num s) < 2 ^ 32 \<and> physmap_covers s (unat (ft_num s)) \<and>
     (\<forall>f. in_table s f \<longrightarrow> canonical (owner_word (infos s f)))"

definition alloc_inv :: "pmm \<Rightarrow> u32 list list \<Rightarrow> u32 list \<Rightarrow> bool" where
  "alloc_inv s ls g \<longleftrightarrow> table_ok s \<and> length (shards s) = 64 \<and> length ls = 64 \<and>
     (\<forall>i<64. shard_ok s (shards s ! i) (ls ! i)) \<and> shard_ok s (global s) g \<and>
     mset (concat ls @ g) = mset_set (free_frames s)"

lemma frame_va_inject [simp]: "frame_va s f = frame_va s g \<longleftrightarrow> f = g"
  by (simp add: frame_va_def)

lemma in_table_iff: "in_table s f \<longleftrightarrow> unat f < unat (ft_num s)"
  by (simp add: in_table_def word_less_nat_alt unat_ucast_up)

lemma in_table_not_end: "table_ok s \<Longrightarrow> in_table s f \<Longrightarrow> f \<noteq> LIST_END"
  by (auto simp: table_ok_def in_table_iff LIST_END_def)

lemma frame_info_SomeI [panic_free]:
  "table_ok s \<Longrightarrow> in_table s f \<Longrightarrow> frame_info s f = Some (infos s f)"
  by (simp add: frame_info_def table_ok_def in_table_def)

lemma frame_info_eq_Some:
  "frame_info s f = Some fi \<longleftrightarrow> ft_base s \<noteq> 0 \<and> in_table s f \<and> fi = infos s f"
  by (auto simp: frame_info_def in_table_def split: if_splits)

lemma frame_phys_to_virt [panic_free]:
  "table_ok s \<Longrightarrow> in_table s f \<Longrightarrow> phys_to_virt s (frame_phys f) = Some (frame_va s f)"
  unfolding table_ok_def frame_va_def
  by (rule phys_to_virt_SomeI) (auto simp: in_table_iff unat_frame_phys)

lemma list_next_SomeI [panic_free]:
  "table_ok s \<Longrightarrow> in_table s f \<Longrightarrow> list_next s f = Some (next_of s f)"
  by (simp add: list_next_def panic_free next_of_def)

lemma set_list_next_SomeI [panic_free]:
  "table_ok s \<Longrightarrow> in_table s f \<Longrightarrow> set_list_next s f x = Some (write_u32 s (frame_va s f) x)"
  by (simp add: set_list_next_def panic_free)

lemma frame_va_write [simp]: "frame_va (write_u32 s va x) f = frame_va s f"
  by (simp add: frame_va_def)

lemma next_of_write [simp]:
  "next_of (write_u32 s (frame_va s f) x) g = (if g = f then x else next_of s g)"
  by (simp add: next_of_def)

lemma next_of_write': "va = frame_va s f \<Longrightarrow> next_of (write_u32 s va x) g = (if g = f then x else next_of s g)"
  by simp

lemma path_append: "path s h (xs @ ys) z \<longleftrightarrow> (\<exists>y. path s h xs y \<and> path s y ys z)"
  by (induction xs arbitrary: h) auto

lemma path_cong:
  "(\<And>f. f \<in> set fs \<Longrightarrow> next_of s f = next_of s' f) \<Longrightarrow> path s h fs y = path s' h fs y"
  by (induction fs arbitrary: h) auto

lemma path_write [simp]:
  "f \<notin> set fs \<Longrightarrow> path (write_u32 s (frame_va s f) x) h fs y = path s h fs y"
  by (rule path_cong) auto

lemma path_end_unique: "path s LIST_END fs LIST_END \<longleftrightarrow> fs = []"
  by (cases fs) auto

lemma shard_ok_cong:
  "(\<And>f. f \<in> set fs \<Longrightarrow> next_of s f = next_of s' f) \<Longrightarrow> shard_ok s sh fs = shard_ok s' sh fs"
  unfolding shard_ok_def using path_cong by metis

lemma shard_ok_empty_iff: "shard_ok s sh fs \<Longrightarrow> is_empty sh \<longleftrightarrow> fs = []"
  by (cases fs) (auto simp: shard_ok_def is_empty_def)

lemma mset_concat_update:
  "i < length ls \<Longrightarrow> mset (concat (ls[i := xs])) + mset (ls ! i) = mset (concat ls) + mset xs"
  by (induction ls arbitrary: i) (auto split: nat.splits simp: add_ac)


section \<open>The invariant and its consequences\<close>

lemma alloc_invI:
  assumes "table_ok s" "length (shards s) = 64" "length ls = 64"
    "\<And>i. i < 64 \<Longrightarrow> shard_ok s (shards s ! i) (ls ! i)" "shard_ok s (global s) g"
    "mset (concat ls @ g) = mset_set (free_frames s)"
  shows "alloc_inv s ls g"
  using assms unfolding alloc_inv_def by blast

lemma alloc_inv_mset: "alloc_inv s ls g \<Longrightarrow> mset (concat ls @ g) = mset_set (free_frames s)"
  unfolding alloc_inv_def by blast

lemma alloc_inv_table: "alloc_inv s ls g \<Longrightarrow> table_ok s"
  by (simp add: alloc_inv_def)

lemma alloc_inv_mem: "alloc_inv s ls g \<Longrightarrow> set (concat ls @ g) = free_frames s"
  unfolding alloc_inv_def by (metis finite finite_set_mset_mset_set set_mset_mset)

lemma alloc_inv_distinct: "alloc_inv s ls g \<Longrightarrow> distinct (concat ls @ g)"
  unfolding alloc_inv_def
  by (metis finite finite_set_mset_mset_set mset_set_set mset_eq_imp_distinct_iff
        distinct_count_atmost_1 count_mset_set' set_mset_mset)

lemma alloc_inv_free:
  assumes "alloc_inv s ls g" "f \<in> set (concat ls @ g)"
  shows "in_table s f" "owner_word (infos s f) = raw FREE" "f \<noteq> LIST_END"
  using assms alloc_inv_mem [OF assms(1)] in_table_not_end [OF alloc_inv_table [OF assms(1)]]
  by (auto simp: free_frames_def)

lemma alloc_inv_shard: "alloc_inv s ls g \<Longrightarrow> i < 64 \<Longrightarrow> shard_ok s (shards s ! i) (ls ! i)"
  by (simp add: alloc_inv_def)

lemma alloc_inv_global: "alloc_inv s ls g \<Longrightarrow> shard_ok s (global s) g"
  by (simp add: alloc_inv_def)

lemma alloc_inv_len: "alloc_inv s ls g \<Longrightarrow> length ls = 64" "alloc_inv s ls g \<Longrightarrow> length (shards s) = 64"
  by (simp_all add: alloc_inv_def)

lemma alloc_inv_listed: "alloc_inv s ls g \<Longrightarrow> i < 64 \<Longrightarrow> f \<in> set (ls ! i) \<Longrightarrow> f \<in> set (concat ls @ g)"
  by (auto simp: alloc_inv_def)

lemma put_info_simps [simp]:
  "ft_base (put_info s f fi) = ft_base s" "ft_num (put_info s f fi) = ft_num s"
  "infos (put_info s f fi) = (infos s)(f := fi)" "phys_map_base (put_info s f fi) = phys_map_base s"
  "mem (put_info s f fi) = mem s" "in_table (put_info s f fi) g = in_table s g"
  "frame_va (put_info s f fi) g = frame_va s g" "next_of (put_info s f fi) g = next_of s g"
  "shards (put_info t f fi) = shards t" "global (put_info t f fi) = global t"
  for t :: pmm
  by (simp_all add: put_info_def in_table_def frame_va_def next_of_def read_u32_def)

lemma put_shard_simps [simp]:
  "ft_base (put_shard s i sh) = ft_base s" "ft_num (put_shard s i sh) = ft_num s"
  "infos (put_shard s i sh) = infos s" "phys_map_base (put_shard s i sh) = phys_map_base s"
  "mem (put_shard s i sh) = mem s" "in_table (put_shard s i sh) g = in_table s g"
  "frame_va (put_shard s i sh) g = frame_va s g" "next_of (put_shard s i sh) g = next_of s g"
  "shards (put_shard s i sh) = (shards s)[i := sh]" "global (put_shard s i sh) = global s"
  by (simp_all add: put_shard_def in_table_def frame_va_def next_of_def read_u32_def)

lemma write_u32_frame_simps [simp]:
  "ft_base (write_u32 s va x) = ft_base s" "ft_num (write_u32 s va x) = ft_num s"
  "infos (write_u32 s va x) = infos s" "in_table (write_u32 s va x) g = in_table s g"
  "shards (write_u32 t va x) = shards t" "global (write_u32 t va x) = global t"
  for t :: pmm
  by (simp_all add: write_u32_def in_table_def)

lemma physmap_covers_simps [simp]:
  "physmap_covers (put_info s f fi) n = physmap_covers s n"
  "physmap_covers (put_shard t i sh) n = physmap_covers t n"
  "physmap_covers (write_u32 s va x) n = physmap_covers s n"
  by (simp_all add: physmap_covers_def)

lemma table_ok_simps [simp]:
  "table_ok (put_shard t i sh) = table_ok t"
  "table_ok (write_u32 s va x) = table_ok s"
  by (simp_all add: table_ok_def)

lemma table_ok_put_info:
  "table_ok s \<Longrightarrow> canonical (owner_word fi) \<Longrightarrow> table_ok (put_info s f fi)"
  by (simp add: table_ok_def)

lemma free_frames_simps [simp]:
  "free_frames (put_shard t i sh) = free_frames t"
  "free_frames (write_u32 s va x) = free_frames s"
  by (simp_all add: free_frames_def)

lemma free_frames_put_info:
  "in_table s f \<Longrightarrow> free_frames (put_info s f fi) =
     (if owner_word fi = raw FREE then insert f (free_frames s) else free_frames s - {f})"
  by (auto simp: free_frames_def)

lemma is_free_FREE [simp]: "owner_word fi = raw FREE \<Longrightarrow> is_free fi = Some True"
  by (simp add: is_free_def owner_tag_def owner_def)

lemma owner_raw [simp]: "raw (owner fi) = owner_word fi"
  by (simp add: owner_def)

lemma set_owner_SomeI [panic_free]:
  "table_ok s \<Longrightarrow> in_table s f \<Longrightarrow> owner_word (infos s f) = raw expected \<Longrightarrow>
   set_owner s f expected new = Some (put_info s f ((infos s f)\<lparr>owner_word := raw new\<rparr>))"
  by (simp add: set_owner_def panic_free transition_def)

lemma shard_atI [panic_free]: "alloc_inv s ls g \<Longrightarrow> i < 64 \<Longrightarrow> shard_at s i = Some (shards s ! i)"
  by (simp add: shard_at_def alloc_inv_def)

section \<open>Popping a shard\<close>

lemma pop_shard_Nil:
  "alloc_inv s ls g \<Longrightarrow> i < 64 \<Longrightarrow> ls ! i = [] \<Longrightarrow> pop_shard s i = Some (None, s)"
  using shard_ok_empty_iff [OF alloc_inv_shard [of s ls g i]]
  by (simp add: pop_shard_def panic_free)

definition popped :: "pmm \<Rightarrow> nat \<Rightarrow> u32 \<Rightarrow> pmm" where
  "popped s i f = put_info (put_shard s i \<lparr>head = next_of s f, count = count (shards s ! i) - 1\<rparr>) f
     ((infos s f)\<lparr>owner_word := raw KERNEL\<rparr>)"

lemma alloc_inv_popped:
  assumes inv: "alloc_inv s ls g" and i: "i < 64" and l: "ls ! i = f # fs"
  shows "alloc_inv (popped s i f) (ls[i := fs]) g"
proof -
  note len = alloc_inv_len [OF inv] and tab = alloc_inv_table [OF inv]
  have ok: "shard_ok s (shards s ! i) (f # fs)" using alloc_inv_shard [OF inv i] l by simp
  have "f \<in> set (concat ls @ g)" using alloc_inv_listed [OF inv i, of f] l by simp
  note f = alloc_inv_free [OF inv this]
  have "count (shards s ! i) \<noteq> 0" using ok by (auto simp: shard_ok_def)
  then have ok': "shard_ok s \<lparr>head = next_of s f, count = count (shards s ! i) - 1\<rparr> fs"
    using ok by (simp add: shard_ok_def unat_minus_one)
  have sh: "shard_ok (popped s i f) sh xs = shard_ok s sh xs" for sh xs
    by (rule shard_ok_cong) (simp add: popped_def)
  have m: "mset (concat ls) = add_mset f (mset (concat (ls[i := fs])))"
    using mset_concat_update [of i ls fs] i len l by simp
  have "f \<in> free_frames s" using f by (simp add: free_frames_def)
  show ?thesis
  proof (rule alloc_invI)
    show "table_ok (popped s i f)"
      using tab by (auto simp: popped_def intro: table_ok_put_info)
    show "shard_ok (popped s i f) (shards (popped s i f) ! j) (ls[i := fs] ! j)" if "j < 64" for j
      using alloc_inv_shard [OF inv that] ok' i len unfolding sh by (auto simp: popped_def nth_list_update)
    show "shard_ok (popped s i f) (global (popped s i f)) g"
      using alloc_inv_global [OF inv] unfolding sh by (simp add: popped_def)
    have "free_frames (popped s i f) = free_frames s - {f}"
      using f by (simp add: popped_def free_frames_put_info owner_consts)
    then show "mset (concat (ls[i := fs]) @ g) = mset_set (free_frames (popped s i f))"
      using alloc_inv_mset [OF inv, symmetric] \<open>f \<in> free_frames s\<close> by (simp add: m mset_set_Diff)
  qed (simp_all add: popped_def len)
qed

lemma pop_shard_Cons:
  assumes inv: "alloc_inv s ls g" and i: "i < 64" and l: "ls ! i = f # fs"
  shows "pop_shard s i = Some (Some f, popped s i f)"
proof -
  note len = alloc_inv_len [OF inv] and tab = alloc_inv_table [OF inv]
  have ok: "shard_ok s (shards s ! i) (f # fs)" using alloc_inv_shard [OF inv i] l by simp
  have "f \<in> set (concat ls @ g)" using alloc_inv_listed [OF inv i, of f] l by simp
  note f = alloc_inv_free [OF inv this]
  have "1 \<le> count (shards s ! i)" using ok by (simp add: shard_ok_def word_le_nat_alt)
  moreover have "head (shards s ! i) = f" using ok by (simp add: shard_ok_def)
  ultimately show ?thesis
    using i len f tab
    by (simp add: pop_shard_def shard_at_def is_empty_def panic_free popped_def)
qed


section \<open>Refilling a shard from the global list\<close>

lemma peel_path:
  assumes "table_ok s" "path s t xs y" "length xs = Suc n" "\<forall>f\<in>set xs. in_table s f"
  shows "peel s n t (next_of s t) = Some (last xs, y)"
  using assms(2-)
proof (induction n arbitrary: t xs)
  case 0
  then show ?case by (cases xs) auto
next
  case (Suc n)
  then obtain u us where xs: "xs = t # u # us" "next_of s t = u"
    by (cases xs; cases "tl xs") auto
  have "peel s n u (next_of s u) = Some (last (u # us), y)"
    using Suc.prems xs by (intro Suc.IH) auto
  with Suc.prems xs assms(1) show ?case by (simp add: panic_free)
qed

definition refilled :: "pmm \<Rightarrow> nat \<Rightarrow> u32 \<Rightarrow> u32 \<Rightarrow> pmm" where
  "refilled s i n t =
     (let sh = shards s ! i in
      put_shard (write_u32 (s\<lparr>global := \<lparr>head = next_of s t, count = count (global s) - n\<rparr>\<rparr>)
        (frame_va s t) (head sh)) i \<lparr>head = head (global s), count = count sh + n\<rparr>)"

lemma global_update_simps [simp]:
  "frame_va (s\<lparr>global := g\<rparr>) f = frame_va s f" "next_of (s\<lparr>global := g\<rparr>) f = next_of s f"
  "in_table (s\<lparr>global := g\<rparr>) f = in_table s f" "free_frames (s\<lparr>global := g\<rparr>) = free_frames s"
  "table_ok (s\<lparr>global := g\<rparr>) = table_ok s"
  by (simp_all add: frame_va_def next_of_def read_u32_def in_table_def free_frames_def table_ok_def
      physmap_covers_def)

lemma len32: "LENGTH(32) = 32"
  by simp

lemma card_in_table:
  assumes "table_ok s" "F \<subseteq> {f. in_table s f}"
  shows "card F < 2 ^ 32"
proof -
  have "LIST_END \<notin> F" using assms in_table_not_end by blast
  then have "F \<subset> UNIV" by blast
  then have "card F < CARD(u32)" by (rule psubset_card_mono [OF finite])
  then show ?thesis by (simp only: card_word len32)
qed

lemma length_free: "alloc_inv s ls g \<Longrightarrow> length (concat ls) + length g = card (free_frames s)"
  using alloc_inv_distinct alloc_inv_mem distinct_card by (metis length_append)

lemma length_free_bound: "alloc_inv s ls g \<Longrightarrow> length (concat ls) + length g < 2 ^ 32"
  using card_in_table [OF alloc_inv_table, of s ls g "free_frames s"] length_free [of s ls g]
  by (auto simp: free_frames_def)

lemma unat_of_nat_u32: "n < 2 ^ 32 \<Longrightarrow> unat (word_of_nat n :: u32) = n"
  by (simp only: unsigned_of_nat take_bit_nat_eq_self len32 of_nat_id)

lemma length_nth_concat: "i < length ls \<Longrightarrow> length (ls ! i) \<le> length (concat ls)"
  by (induction ls arbitrary: i) (auto simp: nth_Cons split: nat.splits intro: trans_le_add2)

lemma set_nth_concat: "i < length ls \<Longrightarrow> set (ls ! i) \<subseteq> set (concat ls)"
  by (auto intro!: bexI [of _ "ls ! i"])

lemma next_of_refilled: "next_of (refilled s i n t) f = (if f = t then head (shards s ! i) else next_of s f)"
  by (simp add: refilled_def Let_def next_of_write' [where f = t])

lemma alloc_inv_refilled:
  assumes inv: "alloc_inv s ls (zs @ t # ys)" and i: "i < 64" and n: "unat n = Suc (length zs)"
  shows "alloc_inv (refilled s i n t) (ls[i := zs @ t # ls ! i]) ys"
proof -
  note len = alloc_inv_len [OF inv] and tab = alloc_inv_table [OF inv]
    and glob = alloc_inv_global [OF inv] and dist = alloc_inv_distinct [OF inv]
  have li: "set (ls ! i) \<subseteq> set (concat ls)" using i len by (intro set_nth_concat) simp
  have keep: "path (refilled s i n t) h fs y = path s h fs y" if "t \<notin> set fs" for h fs y
    using that by (intro path_cong) (auto simp: next_of_refilled)
  have b: "unat (count (shards s ! i)) + unat n < 2 ^ LENGTH(32)"
    using length_free_bound [OF inv] alloc_inv_shard [OF inv i] length_nth_concat [of i ls] i len n
    by (simp add: shard_ok_def)
  have nc: "n \<le> count (global s)" using glob n by (simp add: shard_ok_def word_le_nat_alt)
  have gp: "path s (head (global s)) zs t" "path s (next_of s t) ys LIST_END" "t \<noteq> LIST_END"
    using glob by (auto simp: shard_ok_def path_append)
  show ?thesis
  proof (rule alloc_invI)
    show "table_ok (refilled s i n t)" using tab by (simp add: refilled_def Let_def)
    show "shard_ok (refilled s i n t) (shards (refilled s i n t) ! j) (ls[i := zs @ t # ls ! i] ! j)"
      if "j < 64" for j
    proof (cases "j = i")
      case True
      have "t \<notin> set zs" "t \<notin> set (ls ! i)" using dist li by auto
      then have "path (refilled s i n t) (head (global s)) (zs @ t # ls ! i) LIST_END"
        using gp alloc_inv_shard [OF inv i]
        by (auto simp: path_append keep next_of_refilled shard_ok_def intro!: exI [of _ t])
      with b n alloc_inv_shard [OF inv i] i len show ?thesis
        unfolding True shard_ok_def by (simp add: refilled_def Let_def unat_add_no_wrap)
    next
      case False
      have "t \<notin> set (ls ! j)" using dist len that set_nth_concat [of j ls] by auto
      with False alloc_inv_shard [OF inv that] show ?thesis
        unfolding shard_ok_def by (simp add: keep) (simp add: refilled_def Let_def)
    qed
    have "t \<notin> set ys" using dist by auto
    with gp nc n glob show "shard_ok (refilled s i n t) (global (refilled s i n t)) ys"
      unfolding shard_ok_def by (simp add: keep) (simp add: refilled_def Let_def unat_sub)
    have "free_frames (refilled s i n t) = free_frames s" by (simp add: refilled_def Let_def)
    then show "mset (concat (ls[i := zs @ t # ls ! i]) @ ys) = mset_set (free_frames (refilled s i n t))"
      using alloc_inv_mset [OF inv] mset_concat_update [of i ls "zs @ t # ls ! i"] i len
      by (simp add: ac_simps)
  qed (simp_all add: refilled_def Let_def len)
qed

lemma refill_shard_eq:
  assumes inv: "alloc_inv s ls g" and i: "i < 64" and g: "g \<noteq> []"
  obtains zs t ys n where "g = zs @ t # ys" "unat n = Suc (length zs)"
    "refill_shard s i = Some (refilled s i n t)"
proof -
  note len = alloc_inv_len [OF inv] and tab = alloc_inv_table [OF inv]
    and glob = alloc_inv_global [OF inv]
  define n where "n = min (count (global s)) SHARD_REFILL_BATCH"
  have nn: "unat n = min (length g) 64"
    using glob by (simp add: n_def shard_ok_def kconsts min_def word_le_nat_alt)
  define k where "k = unat n - 1"
  have k: "unat n = Suc k" "k < length g" using nn g by (auto simp: k_def min_def Suc_le_eq)
  define zs t ys where "zs = take k g" "t = g ! k" "ys = drop (Suc k) g"
  have gs: "g = zs @ t # ys" using k id_take_nth_drop [of k g] by (simp add: zs_t_ys_def)
  have zl: "length zs = k" using k by (simp add: zs_t_ys_def)
  have intab: "\<forall>f\<in>set g. in_table s f" using alloc_inv_free [OF inv] by auto
  have gp: "path s (head (global s)) (zs @ [t]) (next_of s t)"
    using glob gs by (auto simp: shard_ok_def path_append)
  have "head (global s) \<in> set g" using glob g by (cases g) (auto simp: shard_ok_def)
  then have "list_next s (head (global s)) = Some (next_of s (head (global s)))"
    using intab tab by (simp add: panic_free)
  moreover have "peel s k (head (global s)) (next_of s (head (global s))) = Some (t, next_of s t)"
    using peel_path [OF tab gp] zl intab gs by simp
  moreover have "n \<le> count (global s)" by (simp add: n_def)
  moreover have "unat (count (shards s ! i)) + unat n < 2 ^ LENGTH(32)"
    using length_free_bound [OF inv] alloc_inv_shard [OF inv i] length_nth_concat [of i ls] i len nn
    by (simp add: shard_ok_def)
  moreover have "in_table s t" using intab gs by simp
  moreover have "n \<noteq> 0" using k by auto
  ultimately have "refill_shard s i = Some (refilled s i n t)"
    using i len tab
    by (simp add: refill_shard_def Let_def shard_at_def flip: n_def)
       (simp add: k Let_def panic_free refilled_def)
  with that gs k zl show thesis by metis
qed

lemma refill_shard_Nil: "alloc_inv s ls [] \<Longrightarrow> refill_shard s i = Some s"
  using alloc_inv_global [of s ls "[]"]
  by (simp add: refill_shard_def shard_ok_def unat_eq_0)


section \<open>Allocation\<close>

text \<open>
  With frames only ever on shard 0 (\<^verbatim>\<open>current_cpu()\<close> is 0) the invariant is
  \<open>pmm_inv s l g\<close>: \<open>l\<close> is shard 0's list, \<open>g\<close> the global one.
\<close>

definition pmm_inv :: "pmm \<Rightarrow> u32 list \<Rightarrow> u32 list \<Rightarrow> bool" where
  "pmm_inv s l g \<longleftrightarrow> alloc_inv s (l # replicate 63 []) g"

lemma pmm_inv_update:
  "alloc_inv s ((l # replicate 63 [])[0 := l']) g \<longleftrightarrow> pmm_inv s l' g"
  by (simp add: pmm_inv_def)

lemma pmm_inv_mem: "pmm_inv s l g \<Longrightarrow> set l \<union> set g = free_frames s"
  unfolding pmm_inv_def by (drule alloc_inv_mem) simp

lemma pmm_inv_distinct: "pmm_inv s l g \<Longrightarrow> distinct (l @ g)"
  unfolding pmm_inv_def by (drule alloc_inv_distinct) simp

lemma pmm_inv_table: "pmm_inv s l g \<Longrightarrow> table_ok s"
  unfolding pmm_inv_def by (rule alloc_inv_table)

lemmas alloc_frame_simps = alloc_frame_def current_cpu_def SHARD_COUNT_def Let_def

lemma alloc_frame_shard:
  assumes "pmm_inv s (f # fs) g"
  shows "alloc_frame s = Some (Some f, popped s 0 f)" "pmm_inv (popped s 0 f) fs g"
  using pop_shard_Cons [OF assms [unfolded pmm_inv_def], of 0 f fs]
    alloc_inv_popped [OF assms [unfolded pmm_inv_def], of 0 f fs]
  by (simp_all add: alloc_frame_simps pmm_inv_def)

lemma alloc_frame_none: "pmm_inv s [] [] \<Longrightarrow> alloc_frame s = Some (None, s)"
  by (simp add: alloc_frame_simps pmm_inv_def pop_shard_Nil refill_shard_Nil)

lemma alloc_frame_refill:
  assumes inv: "pmm_inv s [] g" and g: "g \<noteq> []"
  obtains zs t ys n f fs where "g = zs @ t # ys" "unat n = Suc (length zs)" "zs @ [t] = f # fs"
    "alloc_frame s = Some (Some f, popped (refilled s 0 n t) 0 f)"
    "pmm_inv (popped (refilled s 0 n t) 0 f) fs ys"
proof -
  note inv' = inv [unfolded pmm_inv_def]
  obtain zs t ys n where r: "g = zs @ t # ys" "unat n = Suc (length zs)"
    "refill_shard s 0 = Some (refilled s 0 n t)"
    by (rule refill_shard_eq [OF inv' _ g, of 0]) auto
  obtain f fs where f: "zs @ [t] = f # fs" by (cases zs) auto
  have r1: "alloc_inv (refilled s 0 n t) ((f # fs) # replicate 63 []) ys"
    using alloc_inv_refilled [OF inv' [unfolded r(1)] _ r(2), of 0] f by simp
  note pop = pop_shard_Cons [OF r1, of 0 f fs] and pop_inv = alloc_inv_popped [OF r1, of 0 f fs]
  have "alloc_frame s = Some (Some f, popped (refilled s 0 n t) 0 f)"
    using pop by (simp add: alloc_frame_simps pop_shard_Nil [OF inv', of 0] r(3))
  moreover have "pmm_inv (popped (refilled s 0 n t) 0 f) fs ys"
    using pop_inv by (simp add: pmm_inv_def)
  ultimately show thesis using that r f by blast
qed


text \<open>What an allocator operation may touch: link words of frames that are Free before or after.\<close>

definition links_only :: "pmm \<Rightarrow> pmm \<Rightarrow> u32 set \<Rightarrow> bool" where
  "links_only s s' F \<longleftrightarrow> phys_map_base s' = phys_map_base s \<and> ft_base s' = ft_base s \<and>
     ft_num s' = ft_num s \<and> (\<forall>va. va \<notin> frame_va s ` F \<longrightarrow> mem s' va = mem s va)"

lemma links_only_popped: "links_only s (popped s i f) F"
  by (simp add: links_only_def popped_def)

lemma links_only_refilled:
  "t \<in> F \<Longrightarrow> links_only s (refilled s i n t) F"
  by (auto simp: links_only_def refilled_def Let_def write_u32_def)

lemma links_only_trans:
  "links_only s s' F \<Longrightarrow> links_only s' s'' F \<Longrightarrow> links_only s s'' F"
  by (auto simp: links_only_def frame_va_def)

lemma infos_popped: "infos (popped s i f) = (infos s)(f := (infos s f)\<lparr>owner_word := raw KERNEL\<rparr>)"
  by (simp add: popped_def)

lemma infos_refilled: "infos (refilled s i n t) = infos s"
  by (simp add: refilled_def Let_def)

lemma alloc_frame_cases:
  assumes inv: "pmm_inv s l g"
  obtains (none) "free_frames s = {}" "alloc_frame s = Some (None, s)"
  | (some) f s' l' g' where "f \<in> free_frames s" "alloc_frame s = Some (Some f, s')" "pmm_inv s' l' g'"
      "infos s' = (infos s)(f := (infos s f)\<lparr>owner_word := raw KERNEL\<rparr>)"
      "links_only s s' (free_frames s)" "f # l' @ g' = l @ g"
proof (cases l)
  case (Cons f fs)
  with inv have i: "pmm_inv s (f # fs) g" by simp
  show thesis
    using some [OF _ alloc_frame_shard [OF i]] pmm_inv_mem [OF i] Cons
    by (auto simp: infos_popped links_only_popped)
next
  case Nil
  with inv have i: "pmm_inv s [] g" by simp
  show thesis
  proof (cases "g = []")
    case True
    with i pmm_inv_mem [OF i] alloc_frame_none show thesis by (intro none) auto
  next
    case False
    obtain zs t ys n f fs where r: "g = zs @ t # ys" "unat n = Suc (length zs)" "zs @ [t] = f # fs"
      "alloc_frame s = Some (Some f, popped (refilled s 0 n t) 0 f)"
      "pmm_inv (popped (refilled s 0 n t) 0 f) fs ys"
      by (rule alloc_frame_refill [OF i False])
    have g: "g = f # fs @ ys" using r(1,3) by (metis append.assoc append_Cons append_Nil)
    have "t \<in> set g" using r(1) by simp
    moreover have "f \<in> set g" using g by simp
    ultimately have "t \<in> free_frames s" "f \<in> free_frames s" using pmm_inv_mem [OF i] by auto
    then have "links_only s (popped (refilled s 0 n t) 0 f) (free_frames s)"
      by (blast intro: links_only_trans links_only_popped links_only_refilled)
    then show thesis
      using some [OF _ r(4,5)] \<open>f \<in> free_frames s\<close> g Nil by (simp add: infos_popped infos_refilled)
  qed
qed

section \<open>Release\<close>

definition released :: "pmm \<Rightarrow> u32 \<Rightarrow> pmm" where
  "released s f =
     put_shard (write_u32 (put_info s f ((infos s f)\<lparr>owner_word := raw FREE, generation := generation (infos s f) + 1\<rparr>))
       (frame_va s f) (head (shards s ! 0))) 0 \<lparr>head = f, count = count (shards s ! 0) + 1\<rparr>"

lemma next_of_released: "next_of (released s f) f' = (if f' = f then head (shards s ! 0) else next_of s f')"
  by (simp add: released_def next_of_write' [where f = f])

lemma alloc_inv_released:
  assumes inv: "alloc_inv s ls g" and f: "in_table s f" "f \<notin> free_frames s"
  shows "alloc_inv (released s f) (ls[0 := f # ls ! 0]) g"
proof -
  note len = alloc_inv_len [OF inv] and tab = alloc_inv_table [OF inv]
    and sok = alloc_inv_shard [OF inv, of 0]
  have fn: "f \<notin> set (concat ls @ g)" using alloc_inv_mem [OF inv] f by simp
  have keep: "shard_ok (released s f) sh fs = shard_ok s sh fs" if "f \<notin> set fs" for sh fs
    using that by (intro shard_ok_cong) (auto simp: next_of_released)
  have keep': "path (released s f) h fs y = path s h fs y" if "f \<notin> set fs" for h fs y
    using that by (intro path_cong) (auto simp: next_of_released)
  have not_in: "f \<notin> set (ls ! j)" if "j < 64" for j
    using fn len that set_nth_concat [of j ls] by auto
  have "card (insert f (free_frames s)) < 2 ^ 32"
    using f by (intro card_in_table [OF tab]) (auto simp: free_frames_def)
  then have b: "unat (count (shards s ! 0)) + 1 < 2 ^ LENGTH(32)"
    using f length_free [OF inv] sok length_nth_concat [of 0 ls] len by (simp add: shard_ok_def)
  show ?thesis
  proof (rule alloc_invI)
    show "table_ok (released s f)" using tab by (auto simp: released_def intro: table_ok_put_info)
    show "shard_ok (released s f) (shards (released s f) ! j) (ls[0 := f # ls ! 0] ! j)" if "j < 64" for j
    proof (cases "j = 0")
      case True
      have "path (released s f) f (f # ls ! 0) LIST_END"
        using sok not_in [of 0] in_table_not_end [OF tab f(1)]
        by (simp add: keep' next_of_released shard_ok_def)
      with b sok len show ?thesis
        unfolding True shard_ok_def by (simp add: released_def unat_add_no_wrap)
    next
      case False
      with alloc_inv_shard [OF inv that] not_in [OF that] show ?thesis
        by (simp add: keep) (simp add: released_def)
    qed
    show "shard_ok (released s f) (global (released s f)) g"
      using fn alloc_inv_global [OF inv] by (simp add: keep) (simp add: released_def)
    have "free_frames (released s f) = insert f (free_frames s)"
      using f by (simp add: released_def free_frames_put_info)
    then show "mset (concat (ls[0 := f # ls ! 0]) @ g) = mset_set (free_frames (released s f))"
      using alloc_inv_mset [OF inv] mset_concat_update [of 0 ls "f # ls ! 0"] len f
      by (simp add: ac_simps)
  qed (simp_all add: released_def len)
qed


lemma pmm_inv_released:
  "pmm_inv s l g \<Longrightarrow> in_table s f \<Longrightarrow> f \<notin> free_frames s \<Longrightarrow> pmm_inv (released s f) (f # l) g"
  unfolding pmm_inv_def using alloc_inv_released [of s "l # replicate 63 []" g f] by simp

lemma pmm_inv_put_info:
  assumes inv: "pmm_inv s l g" and f: "in_table s f" "canonical (owner_word fi)"
    "owner_word fi = raw FREE \<longleftrightarrow> f \<in> free_frames s"
  shows "pmm_inv (put_info s f fi) l g"
proof -
  note inv' = inv [unfolded pmm_inv_def]
  have sh: "shard_ok (put_info s f fi) sh xs = shard_ok s sh xs" for sh xs
    by (rule shard_ok_cong) simp
  have "free_frames (put_info s f fi) = free_frames s"
    using f by (auto simp: free_frames_put_info)
  then show ?thesis
    unfolding pmm_inv_def
    using alloc_inv_table [OF inv'] f alloc_inv_len [OF inv'] alloc_inv_shard [OF inv']
      alloc_inv_global [OF inv'] alloc_inv_mset [OF inv']
    by (intro alloc_invI) (simp_all add: sh table_ok_put_info)
qed

lemma shard_at_0: "pmm_inv s l g \<Longrightarrow> shard_at s 0 = Some (shards s ! 0)"
  unfolding pmm_inv_def by (erule shard_atI) simp

lemma shard0_room:
  assumes inv: "pmm_inv s l g" and f: "in_table s f" "f \<notin> free_frames s"
  shows "unat (count (shards s ! 0)) + 1 < 2 ^ 32"
proof -
  note inv' = inv [unfolded pmm_inv_def]
  have "card (insert f (free_frames s)) < 2 ^ 32"
    using f by (intro card_in_table [OF pmm_inv_table [OF inv]]) (auto simp: free_frames_def)
  then show ?thesis
    using f length_free [OF inv'] alloc_inv_shard [OF inv', of 0] by (simp add: shard_ok_def)
qed

lemma put_info_twice [simp]: "put_info (put_info s f a) f b = put_info s f b"
  by (simp add: put_info_def)

lemma put_info_same: "owner_word (infos s f) = w \<Longrightarrow> put_info s f (infos s f\<lparr>owner_word := w\<rparr>) = s"
  by (auto simp: put_info_def)

lemma release_frame_eq:
  assumes inv: "pmm_inv s l g"
  shows "release_frame s f =
    (if \<not> in_table s f \<or> owner_word (infos s f) \<in> {raw RESERVED, raw FREE} then None
     else if pin_count (infos s f) \<noteq> 0 \<or> mapping_count (infos s f) \<noteq> 0
       then Some (put_info s f (infos s f\<lparr>owner_word := raw PENDING\<rparr>))
     else Some (released s f))"
proof (cases "in_table s f")
  case False
  then show ?thesis
    by (simp add: release_frame_def current_cpu_def SHARD_COUNT_def shard_at_0 [OF inv] frame_info_def
        in_table_def)
next
  case True
  note tab = pmm_inv_table [OF inv] and fi = frame_info_SomeI [OF pmm_inv_table [OF inv] True]
  have can: "canonical (owner_word (infos s f))" using tab True by (simp add: table_ok_def)
  then obtain t where t: "tag_of (owner (infos s f)) = Some t"
    using canonical_tag by (auto simp: owner_def)
  note tags = canonical_tag_iff [OF can, folded owner_def, unfolded t, simplified]
  show ?thesis
  proof (cases "owner_word (infos s f) \<in> {raw RESERVED, raw FREE}")
    case True
    with tags show ?thesis
      by (auto simp: release_frame_def current_cpu_def SHARD_COUNT_def shard_at_0 [OF inv] fi t Let_def)
  next
    case no: False
    then have nf: "f \<notin> free_frames s" by (simp add: free_frames_def)
    have nt: "t \<noteq> Reserved" "t \<noteq> Free" using no tags by auto
    have gen: "set_owner s f (owner (infos s f)) FREE = Some (put_info s f (infos s f\<lparr>owner_word := raw FREE\<rparr>))"
      "set_owner s f (owner (infos s f)) PENDING = Some (put_info s f (infos s f\<lparr>owner_word := raw PENDING\<rparr>))"
      using True tab by (simp_all add: set_owner_SomeI)
    have "table_ok (put_info s f fi')" if "canonical (owner_word fi')" for fi' using tab that by (rule table_ok_put_info)
    then show ?thesis
      using no nt True tab tags shard0_room [OF inv True nf]
      by (auto simp: release_frame_def current_cpu_def SHARD_COUNT_def shard_at_0 [OF inv] fi t Let_def
          gen frame_info_SomeI set_list_next_SomeI bump_gen_def uadd_def released_def put_info_same)
  qed
qed


section \<open>Draining\<close>

lemma owner_tag_pending:
  assumes "table_ok s" "in_table s f"
  obtains t where "owner_tag (infos s f) = Some t" "t = Pending \<longleftrightarrow> owner_word (infos s f) = raw PENDING"
  using assms canonical_tag canonical_tag_iff(3)
  by (metis option.inject owner_def owner_tag_def table_ok_def)

lemma drain_if_ready_eq:
  assumes inv: "pmm_inv s l g" and f: "in_table s f"
  shows "drain_if_ready s f = Some
    (if owner_word (infos s f) = raw PENDING \<and> pin_count (infos s f) = 0 \<and> mapping_count (infos s f) = 0
     then released s f else s)"
proof -
  obtain t where t: "owner_tag (infos s f) = Some t" "t = Pending \<longleftrightarrow> owner_word (infos s f) = raw PENDING"
    using owner_tag_pending [OF pmm_inv_table [OF inv] f] by blast
  have "raw PENDING \<notin> {raw RESERVED, raw FREE}" by (simp add: owner_consts)
  then show ?thesis
    using f t frame_info_SomeI [OF pmm_inv_table [OF inv] f]
    by (simp add: drain_if_ready_def release_frame_eq [OF inv])
qed

text \<open>The state after the count of \<open>f\<close> was lowered to the metadata \<open>fi\<close>.\<close>

definition drained :: "pmm \<Rightarrow> u32 \<Rightarrow> frameinfo \<Rightarrow> pmm" where
  "drained s f fi =
     (if owner_word fi = raw PENDING \<and> pin_count fi = 0 \<and> mapping_count fi = 0
      then released (put_info s f fi) f else put_info s f fi)"

lemma free_frames_iff: "in_table s f \<Longrightarrow> f \<in> free_frames s \<longleftrightarrow> owner_word (infos s f) = raw FREE"
  by (simp add: free_frames_def)

lemma canonical_info: "table_ok s \<Longrightarrow> in_table s f \<Longrightarrow> canonical (owner_word (infos s f))"
  by (simp add: table_ok_def)

lemma pmm_inv_same_owner:
  "pmm_inv s l g \<Longrightarrow> in_table s f \<Longrightarrow> owner_word fi = owner_word (infos s f) \<Longrightarrow> pmm_inv (put_info s f fi) l g"
  by (rule pmm_inv_put_info) (auto simp: free_frames_iff canonical_info pmm_inv_table)

lemma pmm_inv_drained:
  assumes "pmm_inv s l g" "in_table s f" "owner_word fi = owner_word (infos s f)"
  obtains l' where "pmm_inv (drained s f fi) l' g"
proof (cases "owner_word fi = raw PENDING \<and> pin_count fi = 0 \<and> mapping_count fi = 0")
  case True
  moreover have "f \<notin> free_frames (put_info s f fi)" using True by (auto simp: free_frames_def owner_consts)
  ultimately show thesis
    using that pmm_inv_released [OF pmm_inv_same_owner [OF assms], of f] assms(2)
    by (simp add: drained_def)
next
  case False
  then show thesis using that pmm_inv_same_owner [OF assms] by (auto simp: drained_def)
qed

lemma drain_put_info:
  assumes "pmm_inv s l g" "in_table s f" "owner_word fi = owner_word (infos s f)"
  shows "drain_if_ready (put_info s f fi) f = Some (drained s f fi)"
  using drain_if_ready_eq [OF pmm_inv_same_owner [OF assms]] assms(2) by (simp add: drained_def)

lemma unpin_frame_eq:
  assumes inv: "pmm_inv s l g"
  shows "unpin_frame s f =
    (if in_table s f \<and> 0 < pin_count (infos s f)
     then Some (pin_count (infos s f) - 1, drained s f (infos s f\<lparr>pin_count := pin_count (infos s f) - 1\<rparr>))
     else None)"
proof (cases "in_table s f")
  case True
  then show ?thesis
    using frame_info_SomeI [OF pmm_inv_table [OF inv] True]
      drain_put_info [OF inv True, of "infos s f\<lparr>pin_count := pin_count (infos s f) - 1\<rparr>"]
    by (simp add: unpin_frame_def unpin_def)
next
  case False
  then show ?thesis by (simp add: unpin_frame_def frame_info_def in_table_def)
qed

lemma remove_mapping_eq:
  assumes inv: "pmm_inv s l g"
  shows "remove_mapping s f =
    (if in_table s f \<and> 0 < mapping_count (infos s f)
     then Some (mapping_count (infos s f) - 1,
       drained s f (infos s f\<lparr>mapping_count := mapping_count (infos s f) - 1\<rparr>))
     else None)"
proof (cases "in_table s f")
  case True
  then show ?thesis
    using frame_info_SomeI [OF pmm_inv_table [OF inv] True]
      drain_put_info [OF inv True, of "infos s f\<lparr>mapping_count := mapping_count (infos s f) - 1\<rparr>"]
    by (simp add: remove_mapping_def fi_remove_mapping_def)
next
  case False
  then show ?thesis by (simp add: remove_mapping_def frame_info_def in_table_def)
qed

section \<open>Walking and counting the lists\<close>

lemma validate_from_path:
  assumes "table_ok s" "path s h fs LIST_END" "set fs \<subseteq> free_frames s" "unat w + length fs < 2 ^ 64"
  shows "validate_from s h w = Some (w + word_of_nat (length fs))"
  using assms(2-)
proof (induction fs arbitrary: h w)
  case Nil
  then show ?case by (simp add: validate_from.simps)
next
  case (Cons f fs)
  then have f: "in_table s f" "owner_word (infos s f) = raw FREE" "h = f" "f \<noteq> LIST_END"
    by (auto simp: free_frames_def)
  have w: "unat (w + 1) = unat w + 1" "unat w + 1 < 2 ^ 64"
    using Cons.prems(3) by (simp_all add: unat_add_no_wrap)
  have "validate_from s (next_of s f) (w + 1) = Some (w + 1 + word_of_nat (length fs))"
    using Cons.prems w by (intro Cons.IH) auto
  with f w assms(1) show ?case
    by (subst validate_from.simps) (simp add: frame_info_SomeI list_next_SomeI uadd_def)
qed

lemma validate_shards_ok:
  assumes "table_ok s" "list_all2 (shard_ok s) shs ls" "set (concat ls) \<subseteq> free_frames s"
    "unat w + length (concat ls) < 2 ^ 64"
  shows "validate_shards s shs w = Some (w + word_of_nat (length (concat ls)))"
  using assms(2-)
proof (induction shs ls arbitrary: w rule: list_all2_induct)
  case Nil
  then show ?case by simp
next
  case (Cons sh shs fs ls)
  have n: "unat (w + word_of_nat (length fs)) = unat w + length fs"
    using Cons.prems by (simp add: unat_add_no_wrap unsigned_of_nat take_bit_nat_eq_self)
  have "validate_from s (head sh) w = Some (w + word_of_nat (length fs))"
    using Cons.hyps Cons.prems by (intro validate_from_path [OF assms(1)]) (auto simp: shard_ok_def)
  moreover have "validate_shards s shs (w + word_of_nat (length fs)) =
      Some (w + word_of_nat (length fs) + word_of_nat (length (concat ls)))"
    using Cons.prems n by (intro Cons.IH) auto
  ultimately show ?case by (simp add: ac_simps)
qed

lemma sum_counts_ok:
  assumes "list_all2 (\<lambda>sh fs. unat (count sh) = length fs) shs ls" "unat w + length (concat ls) < 2 ^ 64"
  shows "sum_counts shs w = Some (w + word_of_nat (length (concat ls)))"
  using assms
proof (induction shs ls arbitrary: w rule: list_all2_induct)
  case Nil
  then show ?case by simp
next
  case (Cons sh shs fs ls)
  have c: "(ucast (count sh) :: u64) = word_of_nat (length fs)"
    using Cons.hyps(1) by (metis of_nat_unat)
  have n: "unat (w + word_of_nat (length fs)) = unat w + length fs"
    "unat (word_of_nat (length fs) :: u64) = length fs"
    using Cons.prems by (simp_all add: unat_add_no_wrap unsigned_of_nat take_bit_nat_eq_self)
  have "sum_counts shs (w + word_of_nat (length fs)) =
      Some (w + word_of_nat (length fs) + word_of_nat (length (concat ls)))"
    using Cons.prems n by (intro Cons.IH) auto
  moreover have "uadd w (ucast (count sh)) = Some (w + word_of_nat (length fs))"
    unfolding c using Cons.prems n(2) by (simp add: uadd_def)
  ultimately show ?case by (simp add: ac_simps)
qed


lemma alloc_inv_all2: "alloc_inv s ls g \<Longrightarrow> list_all2 (shard_ok s) (shards s) ls"
  by (auto simp: alloc_inv_def list_all2_conv_all_nth)

lemma alloc_counts:
  assumes inv: "alloc_inv s ls g"
  shows "free_frame_count s = Some (word_of_nat (card (free_frames s)))"
    and "debug_validate_free_lists s = Some (word_of_nat (card (free_frames s)))"
proof -
  let ?m = "length (concat ls)"
  note all2 = alloc_inv_all2 [OF inv] and glob = alloc_inv_global [OF inv]
    and card = length_free [OF inv] and bound = length_free_bound [OF inv]
    and mem = alloc_inv_mem [OF inv] and tab = alloc_inv_table [OF inv]
  have b: "?m < 2 ^ 64" "?m + length g < 2 ^ 64" using bound by auto
  have m: "unat (word_of_nat ?m :: u64) = ?m"
    by (simp only: unsigned_of_nat take_bit_nat_eq_self b len64 of_nat_id)
  have sum: "(word_of_nat ?m :: u64) + word_of_nat (length g) = word_of_nat (card (free_frames s))"
    by (simp flip: card)
  have "list_all2 (\<lambda>sh fs. unat (count sh) = length fs) (shards s) ls"
    using all2 by (rule list_all2_mono) (simp add: shard_ok_def)
  from sum_counts_ok [OF this, of 0] b have "sum_counts (shards s) 0 = Some (word_of_nat ?m)" by simp
  moreover have "uadd (word_of_nat ?m) (ucast (count (global s)) :: u64) = Some (word_of_nat ?m + word_of_nat (length g))"
    using m b glob by (simp add: uadd_def shard_ok_def unat_ucast_up) (metis of_nat_unat)
  ultimately show "free_frame_count s = Some (word_of_nat (card (free_frames s)))"
    unfolding free_frame_count_def sum by simp
  have "validate_shards s (shards s) 0 = Some (0 + word_of_nat ?m)"
    using b mem by (intro validate_shards_ok [OF tab all2]) auto
  moreover have "validate_from s (head (global s)) (word_of_nat ?m) = Some (word_of_nat ?m + word_of_nat (length g))"
    using b m mem glob by (intro validate_from_path [OF tab]) (auto simp: shard_ok_def)
  ultimately show "debug_validate_free_lists s = Some (word_of_nat (card (free_frames s)))"
    unfolding debug_validate_free_lists_def sum by simp
qed

section \<open>Building the global list at boot\<close>

definition fresh_lists :: "pmm \<Rightarrow> bool" where
  "fresh_lists s \<longleftrightarrow> shards s = replicate 64 empty_shard \<and> global s = empty_shard"

definition marked_free :: "'a frame_state_scheme \<Rightarrow> u32 \<Rightarrow> bool" where
  "marked_free s f \<longleftrightarrow> owner_word (infos s f) = raw FREE"

definition all_indices :: "'a frame_state_scheme \<Rightarrow> u32 list" where
  "all_indices s = map word_of_nat [0..<unat (ft_num s)]"

text \<open>The part of the list already linked: \<open>xs\<close> from \<open>first\<close>, the link of \<open>prev\<close> still open.\<close>

definition partial_list :: "pmm \<Rightarrow> u32 list \<Rightarrow> u32 \<Rightarrow> u32 \<Rightarrow> bool" where
  "partial_list s xs first prev \<longleftrightarrow>
     (if xs = [] then first = LIST_END \<and> prev = LIST_END
      else path s first (butlast xs) prev \<and> prev = last xs)"

text \<open>Only link words of frames in \<open>F\<close> differ.\<close>

definition relinked :: "pmm \<Rightarrow> pmm \<Rightarrow> u32 set \<Rightarrow> bool" where
  "relinked s s' F \<longleftrightarrow> links_only s s' F \<and> infos s' = infos s \<and> shards s' = shards s \<and> global s' = global s"

lemma relinked_refl [simp]: "relinked s s F"
  by (simp add: relinked_def links_only_def)

lemma relinked_write: "f \<in> F \<Longrightarrow> relinked s (write_u32 s (frame_va s f) x) F"
  by (auto simp: relinked_def links_only_def write_u32_def)

lemma relinked_trans: "relinked s s' F \<Longrightarrow> relinked s' s'' F \<Longrightarrow> relinked s s'' F"
  by (auto simp: relinked_def intro: links_only_trans)

lemma relinked_mono: "relinked s s' F \<Longrightarrow> F \<subseteq> G \<Longrightarrow> relinked s s' G"
  by (auto simp: relinked_def links_only_def)

lemma relinked_table:
  "relinked s s' F \<Longrightarrow> table_ok s' = table_ok s" "relinked s s' F \<Longrightarrow> in_table s' f = in_table s f"
  "relinked s s' F \<Longrightarrow> free_frames s' = free_frames s" "relinked s s' F \<Longrightarrow> marked_free s' = marked_free s"
  by (auto simp: relinked_def links_only_def table_ok_def in_table_def free_frames_def physmap_covers_def
      marked_free_def)

lemma distinct_last_notin: "distinct xs \<Longrightarrow> xs \<noteq> [] \<Longrightarrow> last xs \<notin> set (butlast xs)"
  by (cases xs rule: rev_cases) auto

lemma build_scan_correct:
  assumes "table_ok s" "\<forall>f\<in>set idxs. in_table s f" "distinct (xs @ idxs)"
    "\<forall>f\<in>set xs. in_table s f" "partial_list s xs first prev" "unat cnt = length xs"
    "length xs + length idxs < 2 ^ 64"
  shows "\<exists>s' first' prev' cnt'. build_scan s idxs first prev cnt = Some (s', first', prev', cnt') \<and>
    partial_list s' (xs @ filter (marked_free s) idxs) first' prev' \<and>
    unat cnt' = length (xs @ filter (marked_free s) idxs) \<and>
    relinked s s' (set xs \<union> set (filter (marked_free s) idxs))"
  using assms
proof (induction idxs arbitrary: s xs first prev cnt)
  case Nil
  then show ?case by simp
next
  case (Cons i idxs)
  have i: "in_table s i" "table_ok s" "i \<notin> set xs" "i \<noteq> LIST_END"
    using Cons.prems in_table_not_end by auto
  obtain t where t: "owner_tag (infos s i) = Some t" "t = Free \<longleftrightarrow> marked_free s i"
    using i canonical_tag canonical_tag_iff(1) canonical_info [OF i(2,1)]
    by (metis marked_free_def option.inject owner_def owner_tag_def)
  show ?case
  proof (cases "marked_free s i")
    case False
    with t Cons.prems i Cons.IH [of s xs first prev cnt] show ?thesis
      by (simp add: frame_info_SomeI is_free_def)
  next
    case True
    define s1 where "s1 = (if first = LIST_END then s else write_u32 s (frame_va s prev) i)"
    define first1 where "first1 = (if first = LIST_END then i else first)"
    have c: "unat (cnt + 1) = length (xs @ [i])" "unat cnt + 1 < 2 ^ 64"
      using Cons.prems by (simp_all add: unat_add_no_wrap)
    note pl0 = Cons.prems(5)
    have last: "xs \<noteq> [] \<Longrightarrow> xs = butlast xs @ [prev]" "xs \<noteq> [] \<Longrightarrow> in_table s prev" "xs \<noteq> [] \<Longrightarrow> prev \<in> set xs"
      using pl0 Cons.prems(4) by (auto simp: partial_list_def split: if_splits)
    have fe: "first = LIST_END \<longleftrightarrow> xs = []"
    proof (cases "xs = []")
      case False
      then have "path s first (butlast xs) prev" "prev \<noteq> LIST_END"
        using pl0 last(2) in_table_not_end [OF i(2)] by (auto simp: partial_list_def)
      then show ?thesis using False by (cases "butlast xs") auto
    qed (use pl0 in \<open>simp add: partial_list_def\<close>)
    have rel: "relinked s s1 (set xs)"
      using last(3) fe by (auto simp: s1_def intro: relinked_write)
    have "path s1 first1 xs i"
    proof (cases "xs = []")
      case False
      then have d: "prev \<notin> set (butlast xs)"
        using distinct_last_notin [of xs] pl0 Cons.prems(3) by (simp add: partial_list_def)
      have "path s1 first1 (butlast xs) prev"
        using False fe d pl0 by (auto simp: s1_def first1_def partial_list_def)
      moreover have "path s1 prev [prev] i"
        using False fe in_table_not_end [OF i(2) last(2)] by (simp add: s1_def)
      ultimately have "path s1 first1 (butlast xs @ [prev]) i" unfolding path_append by blast
      with last(1) False show ?thesis by simp
    qed (simp add: first1_def fe)
    then have pl: "partial_list s1 (xs @ [i]) first1 i" by (simp add: partial_list_def)
    have step: "build_scan s (i # idxs) first prev cnt = build_scan s1 idxs first1 i (cnt + 1)"
      using t True i c last(2) fe
      by (auto simp: s1_def first1_def frame_info_SomeI is_free_def set_list_next_SomeI uadd_def)
    note rt = relinked_table [OF rel]
    obtain s' first' prev' cnt' where r:
      "build_scan s1 idxs first1 i (cnt + 1) = Some (s', first', prev', cnt')"
      "partial_list s' ((xs @ [i]) @ filter (marked_free s) idxs) first' prev'"
      "unat cnt' = length ((xs @ [i]) @ filter (marked_free s) idxs)"
      "relinked s1 s' (set (xs @ [i]) \<union> set (filter (marked_free s) idxs))"
      using Cons.IH [of s1 "xs @ [i]" first1 i "cnt + 1"] Cons.prems pl c i by (auto simp: rt)
    have "relinked s s' (set xs \<union> set (filter (marked_free s) (i # idxs)))"
      using relinked_trans [OF relinked_mono [OF rel] r(4)] True by (auto simp: insert_commute)
    with r step True show ?thesis by simp
  qed
qed


lemma all_indices_facts:
  assumes "table_ok s"
  shows "distinct (all_indices s)" "set (all_indices s) = {f. in_table s f}" "length (all_indices s) < 2 ^ 32"
proof -
  have n: "unat (ft_num s) < 2 ^ 32" using assms by (simp add: table_ok_def)
  have u: "unat (word_of_nat i :: u32) = i" if "i < unat (ft_num s)" for i
    using that n by (intro unat_of_nat_u32) simp
  then have "inj_on (word_of_nat :: nat \<Rightarrow> u32) {0..<unat (ft_num s)}"
    by (metis atLeastLessThan_iff inj_onI)
  then show "distinct (all_indices s)" by (simp add: all_indices_def distinct_map)
  show "set (all_indices s) = {f. in_table s f}"
  proof (intro equalityI subsetI)
    fix f assume "f \<in> {f. in_table s f}"
    then have "f = word_of_nat (unat f)" "unat f \<in> {0..<unat (ft_num s)}" by (simp_all add: in_table_iff)
    then show "f \<in> set (all_indices s)" unfolding all_indices_def set_map set_upt by (rule image_eqI)
  qed (auto simp: all_indices_def in_table_iff u)
  show "length (all_indices s) < 2 ^ 32" using n by (simp add: all_indices_def)
qed

text \<open>The frames marked Free, in ascending order: what the scan of the table links together.\<close>

definition free_list :: "'a frame_state_scheme \<Rightarrow> u32 list" where
  "free_list s = filter (marked_free s) (all_indices s)"

lemma free_list_facts:
  assumes "table_ok s"
  shows "distinct (free_list s)" "set (free_list s) = free_frames s" "length (free_list s) = card (free_frames s)"
proof -
  show *: "distinct (free_list s)" "set (free_list s) = free_frames s"
    using all_indices_facts [OF assms] by (auto simp: free_list_def free_frames_def marked_free_def)
  show "length (free_list s) = card (free_frames s)" using * distinct_card by metis
qed

lemma build_global_freelist_correct:
  assumes tab: "table_ok s" and fresh: "fresh_lists s"
  obtains s' where "build_global_freelist s = Some (word_of_nat (card (free_frames s)), s')"
    "pmm_inv s' [] (free_list s)" "infos s' = infos s" "links_only s s' (free_frames s)"
proof -
  let ?xs = "free_list s"
  note ai = all_indices_facts [OF tab] and fl = free_list_facts [OF tab]
  obtain s1 first prev cnt where r: "build_scan s (all_indices s) LIST_END LIST_END 0 = Some (s1, first, prev, cnt)"
    "partial_list s1 ?xs first prev" "unat cnt = length ?xs" "relinked s s1 (free_frames s)"
    using build_scan_correct [of s "all_indices s" "[]" LIST_END LIST_END 0] tab ai fl(2)
    by (auto simp: partial_list_def free_list_def)
  note rt = relinked_table [OF r(4)]
  have tot: "unat (ucast (total_frames s) :: u32) = unat (ft_num s)"
    using tab by (simp add: total_frames_def table_ok_def unsigned_ucast_eq take_bit_nat_eq_self)
  define s2 where "s2 = (if prev \<noteq> LIST_END then write_u32 s1 (frame_va s1 prev) LIST_END else s1)"
  have prev: "prev \<noteq> LIST_END \<longleftrightarrow> ?xs \<noteq> []" "?xs \<noteq> [] \<Longrightarrow> in_table s prev \<and> prev \<in> free_frames s"
  proof -
    have "prev \<in> free_frames s" if "?xs \<noteq> []"
      using that r(2) fl(2) by (metis last_in_set partial_list_def)
    then show "?xs \<noteq> [] \<Longrightarrow> in_table s prev \<and> prev \<in> free_frames s" by (simp add: free_frames_def)
    then show "prev \<noteq> LIST_END \<longleftrightarrow> ?xs \<noteq> []"
      using r(2) in_table_not_end [OF tab, of prev] by (cases "?xs = []") (auto simp: partial_list_def)
  qed
  have rel: "relinked s s2 (free_frames s)"
    using prev r(4) relinked_trans [OF r(4) relinked_write] by (auto simp: s2_def)
  note rt2 = relinked_table [OF rel]
  have p2: "path s2 first ?xs LIST_END"
  proof (cases "?xs = []")
    case False
    then have x: "prev = last ?xs" "path s1 first (butlast ?xs) prev"
      using r(2) by (auto simp: partial_list_def)
    have "prev \<notin> set (butlast ?xs)" using distinct_last_notin [OF fl(1) False] x(1) by simp
    then have "path s2 first (butlast ?xs) prev" "path s2 prev [prev] LIST_END"
      using False prev x(2) by (auto simp: s2_def)
    then have "path s2 first (butlast ?xs @ [prev]) LIST_END" unfolding path_append by blast
    with x(1) False show ?thesis by simp
  qed (use prev r(2) in \<open>simp add: s2_def partial_list_def\<close>)
  define s3 where "s3 = s2\<lparr>global := \<lparr>head = first, count = ucast cnt\<rparr>\<rparr>"
  have "cnt = word_of_nat (card (free_frames s))"
    using r(3) fl(3) by (metis of_nat_unat ucast_id)
  moreover have "is_empty (global s2)"
    using rel fresh by (simp add: relinked_def fresh_lists_def is_empty_def empty_shard_def)
  moreover have "(if prev \<noteq> LIST_END then set_list_next s1 prev LIST_END else Some s1) = Some s2"
    using prev tab by (auto simp: s2_def set_list_next_SomeI rt)
  ultimately have run: "build_global_freelist s = Some (word_of_nat (card (free_frames s)), s3)"
    using r(1) by (simp add: build_global_freelist_def tot all_indices_def s3_def Let_def)
  have sh: "shard_ok s3 sh xs = shard_ok s2 sh xs" for sh xs
    by (rule shard_ok_cong) (simp add: s3_def)
  have "card (free_frames s) < 2 ^ 32" by (rule card_in_table [OF tab]) (auto simp: free_frames_def)
  then have sz: "unat (ucast cnt :: u32) = length ?xs"
    using r(3) fl(3) by (simp add: unsigned_ucast_eq take_bit_nat_eq_self)
  have sds: "shards s3 = replicate 64 empty_shard" using rel fresh by (simp add: s3_def relinked_def fresh_lists_def)
  have s3: "table_ok s3 = table_ok s" "free_frames s3 = free_frames s"
    using rt2(1,3) by (simp_all add: s3_def table_ok_def free_frames_def in_table_def physmap_covers_def)
  have "mset_set (free_frames s) = mset ?xs" using mset_set_set [OF fl(1)] by (simp only: fl(2))
  moreover have "shard_ok s3 (global s3) ?xs" unfolding sh using p2 sz by (simp add: s3_def shard_ok_def)
  moreover have "shard_ok s3 (shards s3 ! i) (([] # replicate 63 []) ! i)" if "i < 64" for i
  proof -
    have "([] # replicate 63 []) ! i = ([] :: u32 list)" using that by (cases i) auto
    with that show ?thesis by (simp add: sds shard_ok_def empty_shard_def)
  qed
  moreover have "mset (concat ([] # replicate 63 []) @ ?xs) = mset ?xs" by simp
  ultimately have "pmm_inv s3 [] ?xs"
    unfolding pmm_inv_def using tab by (intro alloc_invI) (simp_all only: s3 sds length_replicate list.size)
  moreover have "links_only s s3 (free_frames s)" "infos s3 = infos s"
    using rel by (simp_all add: relinked_def links_only_def s3_def)
  ultimately show thesis using that run by blast
qed

end
