(* ===== verification/Pool.thy ===== *)
theory Pool
  imports Allocator Interfaces
begin

text \<open>
  The kernel frame pool as its clients see it: \<^verbatim>\<open>alloc_frame\<close> and \<^verbatim>\<open>release_frame\<close> of
  \<^verbatim>\<open>kernel/src/allocator.rs\<close> behind the interface \<open>unit_pool\<close>, and the pool's main properties.
\<close>

section \<open>What the operations do\<close>

lemma pmm_invI:
  assumes "table_ok s" "shards s = sh # replicate 63 empty_shard" "shard_ok s sh l" "shard_ok s (global s) g"
    "distinct (l @ g)" "set (l @ g) = set (free_list s)"
  shows "pmm_inv s l g"
  unfolding pmm_inv_def
proof (rule alloc_invI)
  fix i :: nat assume i: "i < 64"
  show "shard_ok s (shards s ! i) ((l # replicate 63 []) ! i)"
    using i assms(2,3) by (cases i) (auto simp: shard_ok_def empty_shard_def)
next
  show "mset (concat (l # replicate 63 []) @ g) = mset_set (free_frames s)"
    using assms(5,6) free_list_facts(2) [OF assms(1)] by (metis append_Nil2 concat.simps(2) concat_replicate_trivial mset_set_set)
qed (use assms in simp_all)

lemma alloc_frame_post:
  assumes "pmm_inv s l g"
  shows "case alloc_frame s of
      None \<Rightarrow> False
    | Some (None, s') \<Rightarrow> s' = s \<and> free_frames s = {}
    | Some (Some f, s') \<Rightarrow> f \<in> free_frames s \<and> free_frames s' = free_frames s - {f} \<and>
        infos s' = (infos s)(f := (infos s f)\<lparr>owner_word := raw KERNEL\<rparr>) \<and>
        links_only s s' (free_frames s) \<and> (\<exists>l' g'. pmm_inv s' l' g' \<and> f # l' @ g' = l @ g)"
  using assms
proof (cases rule: alloc_frame_cases)
  case none
  then show ?thesis by simp
next
  case (some f s' l' g')
  have "distinct (f # l' @ g')" using some(6) pmm_inv_distinct [OF assms] by simp
  moreover have "set l' \<union> set g' = free_frames s'" "insert f (set l' \<union> set g') = free_frames s"
    using pmm_inv_mem [OF some(3)] pmm_inv_mem [OF assms] some(6) by (metis list.simps(15) set_append)+
  ultimately have "free_frames s' = free_frames s - {f}" by auto
  with some show ?thesis by auto
qed

lemma infos_released: "infos (released s f) =
  (infos s)(f := (infos s f)\<lparr>owner_word := raw FREE, generation := generation (infos s f) + 1\<rparr>)"
  by (simp add: released_def)

lemma links_only_released: "links_only s (released s f) {f}"
  by (auto simp: links_only_def released_def)

lemma links_only_put_info: "links_only s (put_info s f fi) F"
  by (simp add: links_only_def)

lemma release_frame_post:
  assumes inv: "pmm_inv s l g"
  shows "case release_frame s f of
      None \<Rightarrow> \<not> in_table s f \<or> owner (infos s f) \<in> {RESERVED, FREE}
    | Some s' \<Rightarrow> in_table s f \<and> owner (infos s f) \<notin> {RESERVED, FREE} \<and> links_only s s' {f} \<and>
        (if pin_count (infos s f) \<noteq> 0 \<or> mapping_count (infos s f) \<noteq> 0
         then pmm_inv s' l g \<and> infos s' = (infos s)(f := (infos s f)\<lparr>owner_word := raw PENDING\<rparr>)
         else pmm_inv s' (f # l) g \<and> infos s' = (infos s)(f :=
           (infos s f)\<lparr>owner_word := raw FREE, generation := generation (infos s f) + 1\<rparr>))"
proof -
  have o: "owner (infos s f) \<in> {RESERVED, FREE} \<longleftrightarrow> owner_word (infos s f) \<in> {raw RESERVED, raw FREE}"
    by (auto simp: owner_def owner_consts)
  have P: "pmm_inv (put_info s f (infos s f\<lparr>owner_word := raw PENDING\<rparr>)) l g"
    if "in_table s f" "owner_word (infos s f) \<noteq> raw FREE"
    using pmm_inv_put_info [OF inv that(1), of "infos s f\<lparr>owner_word := raw PENDING\<rparr>"] that
    by (simp add: free_frames_iff) (simp add: owner_consts)
  show ?thesis
    unfolding release_frame_eq [OF inv] o
    using P pmm_inv_released [OF inv, of f]
    by (auto simp: links_only_put_info links_only_released infos_released free_frames_iff)
qed

lemma drained_pending:
  assumes inv: "pmm_inv s l g" and f: "in_table s f" "owner_word (infos s f) = raw PENDING"
    and fi: "owner_word fi = raw PENDING" "generation fi = generation (infos s f)"
  shows "if pin_count fi = 0 \<and> mapping_count fi = 0
    then pmm_inv (drained s f fi) (f # l) g \<and> owner (infos (drained s f fi) f) = FREE \<and>
      generation (infos (drained s f fi) f) = generation (infos s f) + 1
    else pmm_inv (drained s f fi) l g \<and> owner (infos (drained s f fi) f) = PENDING"
proof -
  have i: "pmm_inv (put_info s f fi) l g" by (rule pmm_inv_same_owner [OF inv f(1)]) (simp add: f fi)
  have "f \<notin> free_frames (put_info s f fi)" using fi by (auto simp: free_frames_def owner_consts)
  from pmm_inv_released [OF i _ this] i f fi show ?thesis
    by (auto simp: drained_def infos_released owner_def)
qed

text \<open>A used, unreferenced frame, such as \<^verbatim>\<open>alloc_frame\<close> hands out.\<close>

definition releasable :: "pmm \<Rightarrow> u32 \<Rightarrow> bool" where
  "releasable s f \<longleftrightarrow> in_table s f \<and> owner (infos s f) \<notin> {RESERVED, FREE} \<and>
     pin_count (infos s f) = 0 \<and> mapping_count (infos s f) = 0"

section \<open>The pool as an interface\<close>

text \<open>The pool's invariant: the free lists are well formed, and no free frame is referenced.\<close>

definition pmm_ok :: "pmm \<Rightarrow> bool" where
  "pmm_ok s \<longleftrightarrow> (\<exists>l g. pmm_inv s l g) \<and>
     (\<forall>f\<in>free_frames s. pin_count (infos s f) = 0 \<and> mapping_count (infos s f) = 0)"

lemma alloc_pool:
  assumes "pmm_ok s" "free_frames s \<noteq> {}"
  shows "\<exists>f s'. alloc_frame s = Some (Some f, s') \<and> pmm_ok s' \<and> f \<in> free_frames s \<and>
      free_frames s' = free_frames s - {f} \<and> releasable s' = (releasable s)(f := True)"
proof -
  from assms(1) obtain l g where inv: "pmm_inv s l g"
    and clean: "\<forall>f\<in>free_frames s. pin_count (infos s f) = 0 \<and> mapping_count (infos s f) = 0" by (auto simp: pmm_ok_def)
  from alloc_frame_post [OF inv] assms(2) obtain f s' where a: "alloc_frame s = Some (Some f, s')" "f \<in> free_frames s"
    "free_frames s' = free_frames s - {f}" "infos s' = (infos s)(f := (infos s f)\<lparr>owner_word := raw KERNEL\<rparr>)"
    "links_only s s' (free_frames s)" and i: "\<exists>l' g'. pmm_inv s' l' g'"
    by (clarsimp split: option.splits prod.splits) blast
  then have "in_table s' = in_table s" by (auto simp: in_table_def links_only_def)
  then have "releasable s' = (releasable s)(f := True)"
    using a(2,4) clean by (intro ext) (auto simp: releasable_def owner_def owner_consts free_frames_def)
  moreover have "pmm_ok s'" using a i clean by (auto simp: pmm_ok_def)
  ultimately show ?thesis using a by blast
qed

lemma release_pool:
  assumes "pmm_ok s" "releasable s f"
  shows "\<exists>s'. release_frame s f = Some s' \<and> pmm_ok s' \<and> f \<notin> free_frames s \<and>
      free_frames s' = insert f (free_frames s) \<and> releasable s' = (releasable s)(f := False)"
proof -
  from assms(1) obtain l g where inv: "pmm_inv s l g"
    and clean: "\<forall>f\<in>free_frames s. pin_count (infos s f) = 0 \<and> mapping_count (infos s f) = 0" by (auto simp: pmm_ok_def)
  have w: "in_table s f" "f \<notin> free_frames s" "release_frame s f = Some (released s f)"
    using assms(2) by (auto simp: releasable_def release_frame_eq [OF inv] free_frames_def owner_def owner_consts)
  have tab: "in_table (released s f) = in_table s" by (auto simp: released_def)
  have ff: "free_frames (released s f) = insert f (free_frames s)"
    using w(1) by (auto simp: free_frames_def tab infos_released)
  moreover have "releasable (released s f) = (releasable s)(f := False)"
    by (rule ext) (auto simp: releasable_def infos_released owner_def tab)
  moreover have "pmm_ok (released s f)"
    using pmm_inv_released [OF inv w(1,2)] assms(2) clean unfolding pmm_ok_def ff
    by (auto simp: infos_released releasable_def)
  ultimately show ?thesis using w by blast
qed

interpretation kpool: unit_pool pmm_ok free_frames alloc_frame releasable release_frame
proof
  show "finite (free_frames s)" for s :: pmm by simp
  show "\<exists>s'. alloc_frame s = Some (None, s') \<and> pmm_ok s' \<and> free_frames s' = {}"
    if "pmm_ok s" "free_frames s = {}" for s
    using that alloc_frame_post [of s] by (fastforce simp: pmm_ok_def split: option.splits prod.splits)
  show "\<exists>f s'. alloc_frame s = Some (Some f, s') \<and> pmm_ok s' \<and> f \<in> free_frames s \<and> free_frames s' = free_frames s - {f}"
    if "pmm_ok s" "free_frames s \<noteq> {}" for s
    using alloc_pool [OF that] by blast
  show "releasable s' = (releasable s)(f := True)" if "pmm_ok s" "alloc_frame s = Some (Some f, s')" for s f s'
  proof -
    have "free_frames s \<noteq> {}"
      using that alloc_frame_post [of s] by (force simp: pmm_ok_def)
    from alloc_pool [OF that(1) this] that(2) show ?thesis by auto
  qed
qed (use release_pool in auto)

section \<open>A small pool\<close>

text \<open>
  Five frames: 0 Reserved, 1 Free on shard 0, 2 Free on the global list, 3 a kernel frame,
  4 released while pinned once.
\<close>

definition example_pmm :: pmm where
  "example_pmm = \<lparr>phys_map_base = 0xFFFF800000000000,
     mem = (\<lambda>_. 0)(0xFFFF800000001000 := 0xFFFFFFFF, 0xFFFF800000002000 := 0xFFFFFFFF),
     ft_base = 0xFFFF800000010000, ft_num = 5,
     infos = (\<lambda>_. zero_info)(1 := zero_info\<lparr>owner_word := raw FREE\<rparr>, 2 := zero_info\<lparr>owner_word := raw FREE\<rparr>,
       3 := zero_info\<lparr>owner_word := raw KERNEL\<rparr>, 4 := zero_info\<lparr>owner_word := raw PENDING, pin_count := 1\<rparr>),
     shards = \<lparr>head = 1, count = 1\<rparr> # replicate 63 empty_shard, global = \<lparr>head = 2, count = 1\<rparr>\<rparr>"

lemma zero_info_owner [simp]: "owner_word zero_info = raw RESERVED"
  by (simp add: zero_info_def RESERVED_def encode_def)

lemma example_table: "table_ok example_pmm"
proof -
  have "canonical (owner_word (infos example_pmm f))" for f
    by (cases "f = 1 \<or> f = 2 \<or> f = 3 \<or> f = 4") (auto simp: example_pmm_def)
  then show ?thesis by (simp add: table_ok_def physmap_covers_def) (simp add: example_pmm_def)
qed

lemma example_inv: "pmm_inv example_pmm [1] [2]"
proof (rule pmm_invI [OF example_table])
  show "shards example_pmm = \<lparr>head = 1, count = 1\<rparr> # replicate 63 empty_shard" by (simp add: example_pmm_def)
  show "shard_ok example_pmm \<lparr>head = 1, count = 1\<rparr> [1]" "shard_ok example_pmm (global example_pmm) [2]"
    by (simp_all add: example_pmm_def shard_ok_def next_of_def frame_va_def read_u32_def frame_phys_def kconsts)
  show "distinct ([1] @ [2 :: u32])" by simp
  show "set ([1] @ [2]) = set (free_list example_pmm)"
    by (auto simp: free_list_def all_indices_def example_pmm_def marked_free_def upt_rec zero_info_def owner_consts encode_def)
qed

lemma example_free: "free_frames example_pmm = {1, 2}"
  using pmm_inv_mem [OF example_inv, symmetric] by (simp add: insert_commute)

lemma example_simps:
  "in_table example_pmm f \<longleftrightarrow> f < 5" "infos example_pmm 3 = zero_info\<lparr>owner_word := raw KERNEL\<rparr>"
  "infos example_pmm 4 = zero_info\<lparr>owner_word := raw PENDING, pin_count := 1\<rparr>"
proof -
  have "(ucast f :: u64) < 5 \<longleftrightarrow> f < 5" by (simp add: word_less_nat_alt unat_ucast_up)
  then show "in_table example_pmm f \<longleftrightarrow> f < 5" by (simp add: in_table_def example_pmm_def)
qed (simp_all add: example_pmm_def)

lemma zero_info_counts [simp]: "pin_count zero_info = 0" "mapping_count zero_info = 0" "generation zero_info = 0"
  by (simp_all add: zero_info_def)

lemma owners_distinct [simp]:
  "KERNEL \<noteq> RESERVED" "KERNEL \<noteq> FREE" "KERNEL \<noteq> PENDING" "KERNEL \<noteq> untyped i" "KERNEL \<noteq> domain i"
  "RESERVED \<noteq> KERNEL" "RESERVED \<noteq> FREE" "RESERVED \<noteq> PENDING" "RESERVED \<noteq> untyped i" "RESERVED \<noteq> domain i"
  "FREE \<noteq> RESERVED" "FREE \<noteq> KERNEL" "FREE \<noteq> PENDING" "FREE \<noteq> untyped i" "FREE \<noteq> domain i"
  "PENDING \<noteq> RESERVED" "PENDING \<noteq> KERNEL" "PENDING \<noteq> FREE" "PENDING \<noteq> untyped i" "PENDING \<noteq> domain i"
  "untyped i \<noteq> RESERVED" "untyped i \<noteq> KERNEL" "untyped i \<noteq> FREE" "untyped i \<noteq> PENDING" "untyped i \<noteq> domain j"
  "domain i \<noteq> RESERVED" "domain i \<noteq> KERNEL" "domain i \<noteq> FREE" "domain i \<noteq> PENDING" "domain i \<noteq> untyped j"
  by (simp_all add: owner_consts)

lemma raw_inject [simp]: "raw a = raw b \<longleftrightarrow> a = b"
  by (cases a; cases b) simp

lemma owner_update [simp]: "owner (fi\<lparr>owner_word := raw ow\<rparr>) = ow"
  "owner (fi\<lparr>owner_word := raw ow, pin_count := n\<rparr>) = ow"
  by (simp_all add: owner_def)

lemma example_ok: "pmm_ok example_pmm"
  unfolding pmm_ok_def example_free using example_inv by (auto simp: example_pmm_def)

section \<open>Properties\<close>

text \<open>C19: \<^verbatim>\<open>alloc_frame\<close> never panics on a well-formed pool. It returns nothing exactly when no
  frame is Free, and then changes nothing; otherwise it takes the first frame of shard 0's list,
  refilling that from the global list when it is empty, moves exactly that frame from Free to
  Kernel, writes only link words of free frames, and the lists that remain are well formed.\<close>

theorem alloc_frame_correct:
  assumes "pmm_inv s l g"
  shows "case alloc_frame s of
      None \<Rightarrow> False
    | Some (None, s') \<Rightarrow> s' = s \<and> free_frames s = {}
    | Some (Some f, s') \<Rightarrow> f \<in> free_frames s \<and> free_frames s' = free_frames s - {f} \<and>
        infos s' = (infos s)(f := (infos s f)\<lparr>owner_word := raw KERNEL\<rparr>) \<and>
        links_only s s' (free_frames s) \<and> (\<exists>l' g'. pmm_inv s' l' g' \<and> f # l' @ g' = l @ g)"
  by (rule alloc_frame_post [OF assms])

theorem alloc_frame_correct_witness:
  "pmm_inv example_pmm [1] [2] \<and>
   (\<exists>s'. alloc_frame example_pmm = Some (Some 1, s') \<and> free_frames s' = {2})"
  using alloc_frame_correct [OF example_inv] example_inv
  by (auto simp: example_free split: option.splits prod.splits)

text \<open>C4: \<^verbatim>\<open>release_frame\<close> panics exactly for a frame outside the table or a Reserved or Free one (so
  a double release is always caught). A frame that is still pinned or mapped only becomes
  Pending; any other one becomes Free, gets a new generation and is the next one shard 0 hands
  out. Nothing but that frame's metadata and link word changes.\<close>

theorem release_frame_correct:
  assumes inv: "pmm_inv s l g"
  shows "case release_frame s f of
      None \<Rightarrow> \<not> in_table s f \<or> owner (infos s f) \<in> {RESERVED, FREE}
    | Some s' \<Rightarrow> in_table s f \<and> owner (infos s f) \<notin> {RESERVED, FREE} \<and> links_only s s' {f} \<and>
        (if pin_count (infos s f) \<noteq> 0 \<or> mapping_count (infos s f) \<noteq> 0
         then pmm_inv s' l g \<and> infos s' = (infos s)(f := (infos s f)\<lparr>owner_word := raw PENDING\<rparr>)
         else pmm_inv s' (f # l) g \<and> infos s' = (infos s)(f :=
           (infos s f)\<lparr>owner_word := raw FREE, generation := generation (infos s f) + 1\<rparr>))"
  by (rule release_frame_post [OF inv])

theorem release_frame_correct_witness:
  "pmm_inv example_pmm [1] [2] \<and> release_frame example_pmm 1 = None \<and>
   (\<exists>s'. release_frame example_pmm 3 = Some s' \<and> pmm_inv s' [3, 1] [2] \<and> generation (infos s' 3) = 1) \<and>
   (\<exists>s'. release_frame example_pmm 4 = Some s' \<and> pmm_inv s' [1] [2] \<and> owner (infos s' 4) = PENDING)"
proof -
  have "owner (infos example_pmm 1) = FREE" by (simp add: example_pmm_def)
  then show ?thesis
    using release_frame_correct [OF example_inv, of 1] release_frame_correct [OF example_inv, of 3]
      release_frame_correct [OF example_inv, of 4] example_inv
    by (auto simp: example_simps split: option.splits)
qed

text \<open>Releasing an unreferenced frame and allocating again returns the same frame, with its
  generation bumped, so a stale handle is detectable; the free lists are as before.\<close>

theorem release_alloc_lifo:
  assumes inv: "pmm_inv s l g" and f: "releasable s f"
  shows "\<exists>s1 s2. release_frame s f = Some s1 \<and> alloc_frame s1 = Some (Some f, s2) \<and> pmm_inv s2 l g \<and>
    infos s2 = (infos s)(f := (infos s f)\<lparr>owner_word := raw KERNEL, generation := generation (infos s f) + 1\<rparr>)"
proof -
  have w: "in_table s f" "f \<notin> free_frames s" "release_frame s f = Some (released s f)"
    using f by (auto simp: releasable_def release_frame_eq [OF inv] free_frames_def owner_def owner_consts)
  show ?thesis
    using w(3) alloc_frame_shard [OF pmm_inv_released [OF inv w(1,2)]]
    by (auto simp: infos_popped infos_released)
qed

theorem release_alloc_lifo_witness:
  "releasable example_pmm 3 \<and>
   (\<exists>s1 s2. release_frame example_pmm 3 = Some s1 \<and> alloc_frame s1 = Some (Some 3, s2) \<and> generation (infos s2 3) = 1)"
proof -
  have r: "releasable example_pmm 3" by (simp add: releasable_def example_simps)
  from release_alloc_lifo [OF example_inv r] r show ?thesis by (force simp: example_simps)
qed

text \<open>C30: A frame released while referenced is reclaimed by the operation that drops its last
  reference, be it a pin or a mapping: it is then Free with a new generation and first on shard
  0's list. While another reference remains it stays Pending and the free lists do not change.\<close>

theorem last_reference_drains:
  assumes inv: "pmm_inv s l g" and f: "in_table s f" "owner (infos s f) = PENDING"
  shows "(0 < pin_count (infos s f) \<longrightarrow> (\<exists>s'. unpin_frame s f = Some (pin_count (infos s f) - 1, s') \<and>
      (if pin_count (infos s f) = 1 \<and> mapping_count (infos s f) = 0
       then pmm_inv s' (f # l) g \<and> owner (infos s' f) = FREE \<and> generation (infos s' f) = generation (infos s f) + 1
       else pmm_inv s' l g \<and> owner (infos s' f) = PENDING))) \<and>
    (0 < mapping_count (infos s f) \<longrightarrow> (\<exists>s'. remove_mapping s f = Some (mapping_count (infos s f) - 1, s') \<and>
      (if mapping_count (infos s f) = 1 \<and> pin_count (infos s f) = 0
       then pmm_inv s' (f # l) g \<and> owner (infos s' f) = FREE \<and> generation (infos s' f) = generation (infos s f) + 1
       else pmm_inv s' l g \<and> owner (infos s' f) = PENDING)))"
proof (intro conjI impI exI)
  have w: "owner_word (infos s f) = raw PENDING" using f(2) by (metis owner_raw)
  note d = drained_pending [OF inv f(1) w]
  show "0 < pin_count (infos s f) \<Longrightarrow> unpin_frame s f =
    Some (pin_count (infos s f) - 1, drained s f (infos s f\<lparr>pin_count := pin_count (infos s f) - 1\<rparr>))"
    using f(1) by (simp add: unpin_frame_eq [OF inv])
  show "0 < mapping_count (infos s f) \<Longrightarrow> remove_mapping s f =
    Some (mapping_count (infos s f) - 1, drained s f (infos s f\<lparr>mapping_count := mapping_count (infos s f) - 1\<rparr>))"
    using f(1) by (simp add: remove_mapping_eq [OF inv])
qed (use drained_pending [OF inv f(1), of "infos s f\<lparr>pin_count := pin_count (infos s f) - 1\<rparr>"]
      drained_pending [OF inv f(1), of "infos s f\<lparr>mapping_count := mapping_count (infos s f) - 1\<rparr>"] f
      owner_raw [of "infos s f"] in \<open>auto split: if_splits\<close>)

theorem last_reference_drains_witness:
  "owner (infos example_pmm 4) = PENDING \<and> 0 < pin_count (infos example_pmm 4) \<and>
   (\<exists>s'. unpin_frame example_pmm 4 = Some (0, s') \<and> pmm_inv s' [4, 1] [2])"
  using last_reference_drains [OF example_inv, of 4] by (auto simp: example_simps)

text \<open>The pool can be drained completely: as many allocations as there are Free frames all
  succeed, return every Free frame exactly once, and the next allocation finds the pool empty.\<close>

theorem drain_whole_pool:
  assumes "pmm_ok s"
  shows "\<exists>fs s'. drain_pool alloc_frame (card (free_frames s)) s = Some (fs, s') \<and> distinct fs \<and>
    set fs = free_frames s \<and> (\<exists>s''. alloc_frame s' = Some (None, s''))"
  using kpool.drain_all [OF assms] by blast

theorem drain_whole_pool_witness:
  "pmm_ok example_pmm \<and> (\<exists>fs s'. drain_pool alloc_frame 2 example_pmm = Some (fs, s') \<and> set fs = {1, 2})"
proof -
  have "card (free_frames example_pmm) = 2" by (simp add: example_free)
  with drain_whole_pool [OF example_ok] example_ok show ?thesis by (metis example_free)
qed

text \<open>Allocating any number of frames the pool has and releasing them all again, in whatever
  order, loses none: the same frames are Free.\<close>

theorem alloc_release_conserves:
  assumes "pmm_ok s" "n \<le> card (free_frames s)"
  shows "\<exists>fs s1. drain_pool alloc_frame n s = Some (fs, s1) \<and> length fs = n \<and>
    (\<forall>gs. distinct gs \<and> set gs = set fs \<longrightarrow>
      (\<exists>s2. release_all release_frame gs s1 = Some s2 \<and> pmm_ok s2 \<and> free_frames s2 = free_frames s))"
  using kpool.drain_exact [OF assms] kpool.drain_release_roundtrip [OF assms] by blast

theorem alloc_release_conserves_witness:
  "pmm_ok example_pmm \<and> (\<exists>fs s1 s2. drain_pool alloc_frame 2 example_pmm = Some (fs, s1) \<and> length fs = 2 \<and>
     release_all release_frame (rev fs) s1 = Some s2 \<and> free_frames s2 = {1, 2})"
proof -
  have c: "card (free_frames example_pmm) = 2" by (simp add: example_free)
  then obtain fs s1 where fs: "drain_pool alloc_frame 2 example_pmm = Some (fs, s1)" "distinct fs"
    using kpool.drain_exact [OF example_ok, of 2] by auto
  with alloc_release_conserves [OF example_ok, of 2] c have fs2: "length fs = 2" "\<forall>gs. distinct gs \<and> set gs = set fs \<longrightarrow>
      (\<exists>s2. release_all release_frame gs s1 = Some s2 \<and> pmm_ok s2 \<and> free_frames s2 = {1, 2})"
    by (auto simp: example_free simp del: drain_pool.simps)
  from fs2(2) [THEN spec, of "rev fs"] fs fs2(1) example_ok show ?thesis by auto
qed

text \<open>\<^verbatim>\<open>build_global_freelist\<close> turns a table of owner words and empty shards into a well-formed
  pool: the global list holds exactly the Free frames in index order, their number is returned,
  no owner word changes, and only link words of Free frames are written.\<close>

theorem build_global_freelist_establishes:
  assumes "table_ok s" "fresh_lists s"
  shows "\<exists>s'. build_global_freelist s = Some (word_of_nat (card (free_frames s)), s') \<and>
    pmm_inv s' [] (free_list s) \<and> infos s' = infos s \<and> links_only s s' (free_frames s)"
  using build_global_freelist_correct [OF assms] by blast

theorem build_global_freelist_establishes_witness:
  "(let s = example_pmm\<lparr>shards := replicate 64 empty_shard, global := empty_shard\<rparr> in
    table_ok s \<and> fresh_lists s \<and> (\<exists>s'. build_global_freelist s = Some (2, s') \<and> pmm_inv s' [] [1, 2]))"
proof -
  let ?s = "example_pmm\<lparr>shards := replicate 64 empty_shard, global := empty_shard\<rparr>"
  have t: "table_ok ?s" using example_table by (simp add: table_ok_def in_table_def physmap_covers_def)
  have f: "fresh_lists ?s" by (simp add: fresh_lists_def)
  have "free_frames ?s = {1, 2}" using example_free by (simp add: free_frames_def in_table_def)
  moreover have "free_list ?s = [1, 2]"
    by (simp add: free_list_def all_indices_def example_pmm_def marked_free_def upt_rec zero_info_def owner_consts encode_def)
  ultimately show ?thesis using build_global_freelist_establishes [OF t f] t f unfolding Let_def by auto
qed

text \<open>On a well-formed state the debug walk over all lists returns (no list is cyclic and every
  entry is Free) and agrees with the counters: both are the number of Free frames.\<close>

theorem free_counts_agree:
  assumes "alloc_inv s ls g"
  shows "debug_validate_free_lists s = Some (word_of_nat (card (free_frames s))) \<and>
    free_frame_count s = Some (word_of_nat (card (free_frames s)))"
  using alloc_counts [OF assms] by simp

theorem free_counts_agree_witness:
  "alloc_inv example_pmm ([1] # replicate 63 []) [2] \<and> debug_validate_free_lists example_pmm = Some 2"
  using free_counts_agree [OF example_inv [unfolded pmm_inv_def]] example_inv [unfolded pmm_inv_def]
  by (simp add: example_free)

end
