(* ===== verification/Untyped.thy ===== *)
theory Untyped
  imports Pool
begin

text \<open>
  \<^verbatim>\<open>kernel/src/untyped.rs\<close> and \<^verbatim>\<open>owned.rs\<close>: capabilities to raw memory regions, splitting
  and retyping them, and the owned kernel frame.

  The lemmas show that \<^verbatim>\<open>retype_frame\<close> finds a frame whenever the region has one, whatever the
  cursor hint, and that a region is a unit source in the sense of \<open>Interfaces\<close>.
\<close>

section \<open>Capabilities\<close>

record untyped_cap =
  cap_id :: u32
  base_frame :: u32
  num_frames :: u32
  cursor :: u32

definition new_cap :: "u32 \<Rightarrow> u32 \<Rightarrow> u32 \<Rightarrow> untyped_cap" where
  "new_cap i base num = \<lparr>cap_id = i, base_frame = base, num_frames = num, cursor = base\<rparr>"

definition base_phys :: "untyped_cap \<Rightarrow> usize" where
  "base_phys cap = frame_phys (base_frame cap)"

definition end_phys :: "untyped_cap \<Rightarrow> usize option" where
  "end_phys cap = do {
     n \<leftarrow> umul (ucast (num_frames cap)) FRAME_SIZE;
     uadd (frame_phys (base_frame cap)) n
   }"

definition split_cap :: "untyped_cap \<Rightarrow> usize \<Rightarrow> (string + untyped_cap \<times> untyped_cap) option" where
  "split_cap cap split_len =
     (if split_len = 0 \<or> split_len mod FRAME_SIZE \<noteq> 0
      then Some (Inl ''split length must be a nonzero multiple of the frame size'')
      else do {
        let split_frames = split_len div FRAME_SIZE;
        if num_frames cap \<le> ucast split_frames
        then Some (Inl ''split length must leave a nonempty remainder'')
        else do {
          let a = new_cap (cap_id cap) (base_frame cap) (ucast split_frames);
          base \<leftarrow> uadd (base_frame cap) (ucast split_frames);
          num \<leftarrow> usub (num_frames cap) (ucast split_frames);
          Some (Inr (a, new_cap (cap_id cap) base num))
        }
      })"

datatype retype_error = Exhausted

text \<open>The loop of \<^verbatim>\<open>retype_frame\<close>; the counter is \<^verbatim>\<open>cap.num_frames - tried\<close>.\<close>

fun retype_loop :: "'a frame_state_scheme \<Rightarrow> untyped_cap \<Rightarrow> u32 \<Rightarrow> u32 \<Rightarrow> u32 \<Rightarrow> nat \<Rightarrow>
    ((retype_error + u32) \<times> untyped_cap \<times> 'a frame_state_scheme) option" where
  "retype_loop s cap d end_frame idx 0 = Some (Inl Exhausted, cap, s)"
| "retype_loop s cap d end_frame idx (Suc n) = do {
     let idx = (if end_frame \<le> idx then base_frame cap else idx);
     info \<leftarrow> frame_info s idx;
     t \<leftarrow> owner_tag info;
     (ok, s) \<leftarrow> (if t = Untyped then do {
         i \<leftarrow> id_of (owner info);
         if i = cap_id cap then try_set_owner s idx (untyped (cap_id cap)) (domain d) else Some (False, s)
       } else Some (False, s));
     if ok then Some (Inr idx, cap\<lparr>cursor := idx + 1\<rparr>, s)
     else retype_loop s cap d end_frame (idx + 1) n
   }"

definition retype_frame :: "'a frame_state_scheme \<Rightarrow> untyped_cap \<Rightarrow> u32 \<Rightarrow>
    ((retype_error + u32) \<times> untyped_cap \<times> 'a frame_state_scheme) option" where
  "retype_frame s cap d = do {
     end_frame \<leftarrow> uadd (base_frame cap) (num_frames cap);
     retype_loop s cap d end_frame (cursor cap) (unat (num_frames cap))
   }"

section \<open>Owned frames\<close>

datatype owned_frame = OwnedFrame (of_frame: u32)

definition of_alloc :: "pmm \<Rightarrow> (owned_frame option \<times> pmm) option" where
  "of_alloc s = do { (r, s) \<leftarrow> alloc_frame s; Some (map_option OwnedFrame r, s) }"

definition of_phys :: "owned_frame \<Rightarrow> usize" where
  "of_phys fr = frame_phys (of_frame fr)"

definition of_as_ptr :: "'a mem_state_scheme \<Rightarrow> owned_frame \<Rightarrow> usize option" where
  "of_as_ptr s fr = phys_to_virt s (frame_phys (of_frame fr))"

definition of_drop :: "pmm \<Rightarrow> owned_frame \<Rightarrow> pmm option" where
  "of_drop s fr = release_frame s (of_frame fr)"

section \<open>Retyping visits the whole region\<close>

definition cap_region :: "untyped_cap \<Rightarrow> u32 set" where
  "cap_region cap = {f. unat (base_frame cap) \<le> unat f \<and> unat f < unat (base_frame cap) + unat (num_frames cap)}"

definition untaken :: "'a frame_state_scheme \<Rightarrow> untyped_cap \<Rightarrow> u32 set" where
  "untaken s cap = {f \<in> cap_region cap. owner (infos s f) = untyped (cap_id cap)}"

definition cap_ok :: "'a frame_state_scheme \<Rightarrow> untyped_cap \<Rightarrow> bool" where
  "cap_ok s cap \<longleftrightarrow> unat (base_frame cap) + unat (num_frames cap) \<le> unat (ft_num s) \<and> base_frame cap \<le> cursor cap"

text \<open>The frames the loop looks at, in order: from the cursor to the end, then from the base.\<close>

fun visit :: "untyped_cap \<Rightarrow> u32 \<Rightarrow> nat \<Rightarrow> u32 list" where
  "visit cap idx 0 = []"
| "visit cap idx (Suc n) =
     (let i = (if base_frame cap + num_frames cap \<le> idx then base_frame cap else idx) in i # visit cap (i + 1) n)"

definition offset_of :: "untyped_cap \<Rightarrow> u32 \<Rightarrow> nat" where
  "offset_of cap idx =
     (if base_frame cap + num_frames cap \<le> idx then 0 else unat idx - unat (base_frame cap))"

lemma visit_nth:
  assumes "unat (base_frame cap) + unat (num_frames cap) < 2 ^ 32" "0 < num_frames cap"
    "base_frame cap \<le> idx" "j < n"
  shows "unat (visit cap idx n ! j) =
    unat (base_frame cap) + (offset_of cap idx + j) mod unat (num_frames cap)"
  using assms(3,4)
proof (induction n arbitrary: idx j)
  case (Suc n)
  let ?b = "unat (base_frame cap)" and ?N = "unat (num_frames cap)"
  define i where "i = (if base_frame cap + num_frames cap \<le> idx then base_frame cap else idx)"
  have N: "0 < ?N" "unat (base_frame cap + num_frames cap) = ?b + ?N"
    using assms(1,2) by (simp_all add: unat_add_no_wrap word_less_nat_alt)
  have i: "?b \<le> unat i" "unat i < ?b + ?N" "offset_of cap idx = unat i - ?b"
    using Suc.prems(1) N by (auto simp: i_def offset_of_def word_le_nat_alt)
  show ?case
  proof (cases j)
    case 0
    with i show ?thesis by (simp add: i_def [symmetric] Let_def)
  next
    case (Suc k)
    have i1: "unat (i + 1) = unat i + 1" using i(2) assms(1) by (simp add: unat_add_no_wrap)
    have "base_frame cap \<le> i + 1" using i(1) i1 by (simp add: word_le_nat_alt)
    with Suc Suc.prems(2) have "unat (visit cap (i + 1) n ! k) = ?b + (offset_of cap (i + 1) + k) mod ?N"
      by (intro Suc.IH) auto
    moreover have off: "offset_of cap (i + 1) = (if unat i + 1 = ?b + ?N then 0 else unat i + 1 - ?b)"
      using i i1 N by (auto simp: offset_of_def word_le_nat_alt)
    moreover have "(offset_of cap idx + Suc k) mod ?N = (offset_of cap (i + 1) + k) mod ?N"
    proof (cases "unat i + 1 = ?b + ?N")
      case True
      then have "offset_of cap idx + Suc k = ?N + k" using i(1,3) by simp
      moreover have "offset_of cap (i + 1) = 0" using True off by presburger
      ultimately show ?thesis by (simp only: mod_add_self1 add_0)
    next
      case False
      with off i show ?thesis by (simp add: Suc_diff_le)
    qed
    ultimately show ?thesis by (simp add: Suc i_def [symmetric] Let_def)
  qed
qed simp

lemma length_visit [simp]: "length (visit cap idx n) = n"
  by (induction n arbitrary: idx) (auto simp: Let_def)

lemma rotation_hits: "\<exists>j<N. (k + j) mod N = m" if "m < N" for k m N :: nat
proof -
  have "(k + (N - k mod N + m) mod N) mod N = (k mod N + (N - k mod N + m)) mod N"
    by (metis mod_add_left_eq mod_add_right_eq)
  also have "k mod N + (N - k mod N + m) = N + m" using that mod_less_divisor [of N k] by linarith
  also have "(N + m) mod N = m" using that by simp
  finally show ?thesis using that by (intro exI [of _ "(N - k mod N + m) mod N"]) auto
qed

lemma set_visit:
  assumes "unat (base_frame cap) + unat (num_frames cap) < 2 ^ 32" "base_frame cap \<le> idx"
  shows "set (visit cap idx (unat (num_frames cap))) = cap_region cap"
proof (cases "num_frames cap = 0")
  case False
  let ?b = "unat (base_frame cap)" and ?N = "unat (num_frames cap)"
  have N: "0 < num_frames cap" "0 < ?N" using False by (simp_all add: word_neq_0_conv unat_gt_0)
  note nth = visit_nth [OF assms(1) N(1) assms(2)]
  have "f \<in> cap_region cap" if "f \<in> set (visit cap idx ?N)" for f
    using that nth N(2) by (force simp: in_set_conv_nth cap_region_def)
  moreover have "f \<in> set (visit cap idx ?N)" if f: "f \<in> cap_region cap" for f
  proof -
    have "unat f - ?b < ?N" using f N(2) unfolding cap_region_def by simp linarith
    then obtain j where j: "j < ?N" "(offset_of cap idx + j) mod ?N = unat f - ?b"
      using rotation_hits [of "unat f - ?b" ?N "offset_of cap idx"] by auto
    then have "unat (visit cap idx ?N ! j) = unat f" using nth [OF j(1)] f by (auto simp: cap_region_def)
    then have "visit cap idx ?N ! j = f" by (simp add: word_unat_eq_iff)
    with j(1) show ?thesis by (metis length_visit nth_mem)
  qed
  ultimately show ?thesis by blast
qed (simp add: cap_region_def)

definition retyped :: "'a frame_state_scheme \<Rightarrow> u32 \<Rightarrow> u32 \<Rightarrow> 'a frame_state_scheme" where
  "retyped s f d = put_info s f ((infos s f)\<lparr>owner_word := raw (domain d)\<rparr>)"

lemma untyped_tag_id:
  assumes "canonical (owner_word fi)"
  shows "\<exists>t i. owner_tag fi = Some t \<and> id_of (owner fi) = Some i \<and>
    (t = Untyped \<and> i = k \<longleftrightarrow> owner fi = untyped k)"
  using assms by (auto simp: canonical_def owner_tag_def owner_def tag_of_def id_of_def owner_consts)

lemma retype_loop_eq:
  assumes "table_ok s" "set (visit cap idx n) \<subseteq> {f. in_table s f}"
  shows "retype_loop s cap d (base_frame cap + num_frames cap) idx n =
    Some (case find (\<lambda>f. owner (infos s f) = untyped (cap_id cap)) (visit cap idx n) of
        None \<Rightarrow> (Inl Exhausted, cap, s)
      | Some f \<Rightarrow> (Inr f, cap\<lparr>cursor := f + 1\<rparr>, retyped s f d))"
  using assms(2)
proof (induction n arbitrary: idx)
  case (Suc n)
  define i where "i = (if base_frame cap + num_frames cap \<le> idx then base_frame cap else idx)"
  have v: "visit cap idx (Suc n) = i # visit cap (i + 1) n" by (simp add: i_def Let_def)
  then have it: "in_table s i" "set (visit cap (i + 1) n) \<subseteq> {f. in_table s f}" using Suc.prems by simp_all
  obtain t j where t: "owner_tag (infos s i) = Some t" "id_of (owner (infos s i)) = Some j"
    "t = Untyped \<and> j = cap_id cap \<longleftrightarrow> owner (infos s i) = untyped (cap_id cap)"
    using untyped_tag_id [OF canonical_info [OF assms(1) it(1)]] by blast
  have set: "try_set_owner s i (untyped (cap_id cap)) (domain d) = Some (True, retyped s i d)"
    if "owner (infos s i) = untyped (cap_id cap)"
    using that frame_info_SomeI [OF assms(1) it(1)] owner_raw [of "infos s i"]
    by (simp add: try_set_owner_def transition_def retyped_def)
  show ?case
    unfolding v using t set Suc.IH [OF it(2)] frame_info_SomeI [OF assms(1) it(1)]
    by (auto simp: i_def [symmetric] Let_def)
qed simp

lemma region_in_table: "cap_ok s cap \<Longrightarrow> cap_region cap \<subseteq> {f. in_table s f}"
  by (auto simp: cap_ok_def cap_region_def in_table_iff)

lemma cap_no_wrap: "table_ok s \<Longrightarrow> cap_ok s cap \<Longrightarrow> unat (base_frame cap) + unat (num_frames cap) < 2 ^ 32"
  by (simp add: table_ok_def cap_ok_def)

lemma retype_frame_cases:
  assumes tab: "table_ok s" and cap: "cap_ok s cap"
  obtains (exhausted) "untaken s cap = {}" "retype_frame s cap d = Some (Inl Exhausted, cap, s)"
  | (taken) f where "f \<in> untaken s cap"
      "retype_frame s cap d = Some (Inr f, cap\<lparr>cursor := f + 1\<rparr>, retyped s f d)"
proof -
  let ?P = "\<lambda>f. owner (infos s f) = untyped (cap_id cap)" and ?v = "visit cap (cursor cap) (unat (num_frames cap))"
  have sv: "set ?v = cap_region cap" using set_visit [OF cap_no_wrap [OF tab cap]] cap by (simp add: cap_ok_def)
  have run: "retype_frame s cap d = Some (case find ?P ?v of None \<Rightarrow> (Inl Exhausted, cap, s)
      | Some f \<Rightarrow> (Inr f, cap\<lparr>cursor := f + 1\<rparr>, retyped s f d))"
    using retype_loop_eq [OF tab, of cap "cursor cap" "unat (num_frames cap)" d] sv region_in_table [OF cap]
      cap_no_wrap [OF tab cap] by (simp add: retype_frame_def uadd_def)
  show thesis
  proof (cases "find ?P ?v")
    case None
    with run sv show thesis by (intro exhausted) (auto simp: untaken_def find_None_iff)
  next
    case (Some f)
    with run sv show thesis by (intro taken [of f]) (auto simp: untaken_def find_Some_iff)
  qed
qed

lemma retyped_simps [simp]:
  "ft_num (retyped s f d) = ft_num s" "infos (retyped s f d) = (infos s)(f := (infos s f)\<lparr>owner_word := raw (domain d)\<rparr>)"
  "mem (retyped s f d) = mem s" "phys_map_base (retyped s f d) = phys_map_base s" "ft_base (retyped s f d) = ft_base s"
  by (simp_all add: retyped_def)

lemma table_ok_retyped: "table_ok s \<Longrightarrow> table_ok (retyped s f d)"
  by (simp add: retyped_def table_ok_put_info)

lemma cap_ok_retyped:
  assumes "table_ok s" "cap_ok s cap" "f \<in> cap_region cap"
  shows "cap_ok (retyped s f d) (cap\<lparr>cursor := f + 1\<rparr>)"
proof -
  have "unat (f + 1) = unat f + 1"
    using assms(3) cap_no_wrap [OF assms(1,2)] by (simp add: cap_region_def unat_add_no_wrap)
  with assms show ?thesis by (simp add: cap_ok_def cap_region_def word_le_nat_alt)
qed

lemma untaken_retyped:
  "untaken (retyped s f d) (cap\<lparr>cursor := c\<rparr>) = untaken s cap - {f}"
  by (auto simp: untaken_def cap_region_def owner_def owner_consts)

text \<open>A region as a source of frames: the state is the table together with the capability.\<close>

definition retype_op :: "u32 \<Rightarrow> 'a frame_state_scheme \<times> untyped_cap \<Rightarrow>
    (u32 option \<times> 'a frame_state_scheme \<times> untyped_cap) option" where
  "retype_op d x = do {
     (r, cap, s) \<leftarrow> retype_frame (fst x) (snd x) d;
     Some (case r of Inl e \<Rightarrow> None | Inr f \<Rightarrow> Some f, s, cap)
   }"

definition region_inv :: "'a frame_state_scheme \<times> untyped_cap \<Rightarrow> bool" where
  "region_inv x \<longleftrightarrow> table_ok (fst x) \<and> cap_ok (fst x) (snd x)"

interpretation region_source: unit_source region_inv "\<lambda>x. untaken (fst x) (snd x)" "retype_op d" for d
proof
  fix x :: "'a frame_state_scheme \<times> untyped_cap" assume i: "region_inv x"
  then have tc: "table_ok (fst x)" "cap_ok (fst x) (snd x)" by (simp_all add: region_inv_def)
  show "finite (untaken (fst x) (snd x))" by simp
  show "\<exists>s'. retype_op d x = Some (None, s') \<and> region_inv s' \<and> untaken (fst s') (snd s') = {}"
    if "untaken (fst x) (snd x) = {}"
    using that i by (cases rule: retype_frame_cases [OF tc, of d]) (auto simp: retype_op_def)
  show "\<exists>f s'. retype_op d x = Some (Some f, s') \<and> region_inv s' \<and> f \<in> untaken (fst x) (snd x) \<and>
      untaken (fst s') (snd s') = untaken (fst x) (snd x) - {f}" if "untaken (fst x) (snd x) \<noteq> {}"
  proof (cases rule: retype_frame_cases [OF tc, of d])
    case (2 f)
    then have "f \<in> cap_region (snd x)" by (simp add: untaken_def)
    with 2 show ?thesis
      using table_ok_retyped [OF tc(1)] cap_ok_retyped [OF tc]
      by (simp add: retype_op_def region_inv_def untaken_retyped)
  qed (use that in blast)
qed

section \<open>Splitting\<close>

lemma split_cap_ok:
  assumes n: "unat (base_frame cap) + unat (num_frames cap) < 2 ^ 32" and len: "unat len = k * 4096" "0 < k"
    "k < unat (num_frames cap)"
  shows "split_cap cap len = Some (Inr (new_cap (cap_id cap) (base_frame cap) (word_of_nat k),
    new_cap (cap_id cap) (base_frame cap + word_of_nat k) (num_frames cap - word_of_nat k)))"
proof -
  have k: "unat (len div 4096) = k" "len mod 4096 = 0" "len \<noteq> 0"
    using len(1,2) by (simp_all add: unat_div word_unat_eq_iff unat_mod)
  have k32: "k < 2 ^ 32" using len(3) unat_u32_bound [of "num_frames cap"] by simp
  then have u: "unat (ucast (len div 4096) :: u32) = k" using k(1) by (simp add: unat_ucast_down)
  then have w: "(ucast (len div 4096) :: u32) = word_of_nat k" by (metis of_nat_unat ucast_id)
  have "uadd (base_frame cap) (word_of_nat k) = Some (base_frame cap + word_of_nat k)"
    using n len(3) u unfolding w by (intro uadd_SomeI) simp
  moreover have "usub (num_frames cap) (word_of_nat k) = Some (num_frames cap - word_of_nat k)"
    "\<not> num_frames cap \<le> word_of_nat k"
    using u len(3) unfolding w by (simp_all add: usub_def word_le_nat_alt)
  ultimately show ?thesis using k by (simp add: split_cap_def kconsts w Let_def)
qed

section \<open>A small region\<close>

definition example_region :: pmm where
  "example_region = example_pmm\<lparr>infos := (infos example_pmm)
     (3 := zero_info\<lparr>owner_word := raw (untyped 9)\<rparr>, 4 := zero_info\<lparr>owner_word := raw (untyped 9)\<rparr>)\<rparr>"

definition example_cap :: untyped_cap where
  "example_cap = \<lparr>cap_id = 9, base_frame = 3, num_frames = 2, cursor = 5\<rparr>"

lemma example_region_ok: "table_ok example_region" "cap_ok example_region example_cap"
  "cap_region example_cap = {3, 4}" "untaken example_region example_cap = {3, 4}"
proof -
  show "table_ok example_region"
    using example_table by (simp add: table_ok_def example_region_def in_table_def physmap_covers_def)
  show "cap_ok example_region example_cap"
    by (simp add: cap_ok_def example_cap_def example_region_def example_pmm_def)
  have "f = 3 \<or> f = 4" if "3 \<le> unat f" "unat f < 5" for f :: u32
  proof -
    from that have "unat f = 3 \<or> unat f = 4" by linarith
    then show ?thesis by (simp add: word_unat_eq_iff)
  qed
  then show r: "cap_region example_cap = {3, 4}" by (auto simp: cap_region_def example_cap_def)
  then show "untaken example_region example_cap = {3, 4}"
    by (auto simp: untaken_def example_region_def example_cap_def)
qed

section \<open>Properties\<close>

text \<open>C20: \<^verbatim>\<open>retype_frame\<close> grants a frame whenever the region has one left, wherever the cursor hint
  points: it never panics, reports exhaustion exactly when no frame of the region still carries
  the region's id, and otherwise moves one such frame to the domain and nothing else, leaving
  the capability well formed.\<close>

theorem retype_frame_correct:
  assumes tab: "table_ok s" and cap: "cap_ok s cap"
  shows "case retype_frame s cap d of
      None \<Rightarrow> False
    | Some (Inl Exhausted, cap', s') \<Rightarrow> untaken s cap = {} \<and> cap' = cap \<and> s' = s
    | Some (Inr f, cap', s') \<Rightarrow> f \<in> untaken s cap \<and> s' = put_info s f ((infos s f)\<lparr>owner_word := raw (domain d)\<rparr>) \<and>
        cap_ok s' cap' \<and> untaken s' cap' = untaken s cap - {f}"
proof (cases rule: retype_frame_cases [OF tab cap, of d])
  case (2 f)
  then have "f \<in> cap_region cap" by (simp add: untaken_def)
  with 2 cap_ok_retyped [OF tab cap] show ?thesis
    by (simp add: untaken_retyped) (simp add: retyped_def)
qed simp

theorem retype_frame_correct_witness:
  "table_ok example_region \<and> cap_ok example_region example_cap \<and>
   (\<exists>f cap' s'. retype_frame example_region example_cap 7 = Some (Inr f, cap', s') \<and> f \<in> {3, 4})"
proof -
  obtain r cap' s' where r: "retype_frame example_region example_cap 7 = Some (r, cap', s')"
    using retype_frame_correct [OF example_region_ok(1,2), of 7] by (auto split: option.splits)
  with retype_frame_correct [OF example_region_ok(1,2), of 7] example_region_ok show ?thesis
    by (cases r) (auto split: retype_error.splits)
qed

text \<open>Retyping as often as the region has untaken frames grants each of them exactly once, and
  then the region is exhausted.\<close>

theorem retype_drains_region:
  assumes "table_ok s" "cap_ok s cap"
  shows "\<exists>fs s' cap'. drain_pool (retype_op d) (card (untaken s cap)) (s, cap) = Some (fs, s', cap') \<and>
    distinct fs \<and> set fs = untaken s cap \<and> (\<exists>s'' cap''. retype_frame s' cap' d = Some (Inl Exhausted, cap'', s''))"
proof -
  obtain fs s' cap' where d: "drain_pool (retype_op d) (card (untaken s cap)) (s, cap) = Some (fs, s', cap')"
    "distinct fs" "set fs = untaken s cap" "region_inv (s', cap')" "\<exists>y. retype_op d (s', cap') = Some (None, y)"
    using region_source.drain_all [of "(s, cap)" d] assms by (auto simp: region_inv_def)
  from d(4) have tc: "table_ok s'" "cap_ok s' cap'" by (simp_all add: region_inv_def)
  from d(5) have "retype_frame s' cap' d = Some (Inl Exhausted, cap', s')"
    by (cases rule: retype_frame_cases [OF tc, of d]) (auto simp: retype_op_def)
  with d(1-3) show ?thesis by blast
qed

theorem retype_drains_region_witness:
  "cap_ok example_region example_cap \<and> (\<exists>fs s' cap'. drain_pool (retype_op 7) 2 (example_region, example_cap) =
     Some (fs, s', cap') \<and> set fs = {3, 4})"
proof -
  have "card (untaken example_region example_cap) = 2" by (simp add: example_region_ok)
  with retype_drains_region [OF example_region_ok(1,2), of 7] example_region_ok show ?thesis by metis
qed

text \<open>Splitting a capability at a length that is a multiple of the frame size, nonzero and
  shorter than the region gives two capabilities of the same region id whose regions are
  nonempty, disjoint and together the original one.\<close>

theorem split_cap_partitions:
  assumes n: "unat (base_frame cap) + unat (num_frames cap) < 2 ^ 32"
    and len: "unat len = k * 4096" "0 < k" "k < unat (num_frames cap)"
  shows "\<exists>a b. split_cap cap len = Some (Inr (a, b)) \<and> cap_id a = cap_id cap \<and> cap_id b = cap_id cap \<and>
    cap_region a \<union> cap_region b = cap_region cap \<and> cap_region a \<inter> cap_region b = {} \<and> unat (num_frames a) = k \<and>
    unat (num_frames b) = unat (num_frames cap) - k \<and> end_phys a = Some (base_phys b)"
proof -
  have k: "unat (word_of_nat k :: u32) = k"
    using len(3) unat_u32_bound [of "num_frames cap"] by (intro unat_of_nat_u32) simp
  have s: "unat (base_frame cap + word_of_nat k) = unat (base_frame cap) + k"
    using n len(3) k by (simp add: unat_add_no_wrap)
  have m: "unat (num_frames cap - word_of_nat k) = unat (num_frames cap) - k"
    using len(3) k by (simp add: unat_sub word_le_nat_alt)
  have ku: "unat (ucast (word_of_nat k :: u32) :: u64) = k" by (simp add: unat_ucast_up k)
  have e: "end_phys (new_cap (cap_id cap) (base_frame cap) (word_of_nat k)) =
    Some (frame_phys (base_frame cap + word_of_nat k))"
    using n len(3) k s ku unat_frame_phys [of "base_frame cap"] unat_frame_phys [of "base_frame cap + word_of_nat k"]
    by (simp add: end_phys_def new_cap_def umul_def uadd_def kconsts word_unat_eq_iff unat_add_no_wrap unat_mult_no_wrap)
  show ?thesis
    using split_cap_ok [OF assms] e len(3)
    by (auto simp: new_cap_def cap_region_def k s m base_phys_def)
qed

theorem split_cap_partitions_witness:
  "\<exists>a b. split_cap example_cap 4096 = Some (Inr (a, b)) \<and> cap_region a \<union> cap_region b = {3, 4} \<and> cap_region a \<inter> cap_region b = {}"
  using split_cap_partitions [of example_cap 4096 1] example_region_ok(3) by (auto simp: example_cap_def)

text \<open>C31: \<^verbatim>\<open>split\<close> truncates the frame count to 32 bits before comparing it with the region, so a
  length that exceeds every region by \<open>2 ^ 44\<close> bytes is not rejected but splits as if the excess
  were not there.\<close>

theorem split_cap_truncates:
  assumes "len \<noteq> 0" "unat len < 2 ^ 44"
  shows "split_cap cap (len + 2 ^ 44) = split_cap cap len"
proof -
  have p: "(2 ^ 44 :: nat) = 2 ^ 32 * 4096" by simp
  have s: "unat (len + 2 ^ 44) = unat len + 2 ^ 32 * 4096"
    using assms(2) unfolding p [symmetric] by (subst unat_add_no_wrap) (simp_all add: unat_power_two)
  then have nz: "len + 2 ^ 44 \<noteq> 0" by auto
  have c: "unat (4096 :: u64) = 4096" by simp
  have "unat ((len + 2 ^ 44) mod 4096) = unat (len mod 4096)"
    by (simp only: unat_mod s c mod_mult_self1)
  then have m: "(len + 2 ^ 44) mod 4096 = len mod 4096" by (simp only: word_unat_eq_iff)
  have "unat ((len + 2 ^ 44) div 4096) = unat (len div 4096) + 2 ^ 32"
    by (simp only: unat_div s c div_mult_self1)
  then have "(ucast ((len + 2 ^ 44) div 4096) :: u32) = ucast (len div 4096)"
    by (simp only: word_unat_eq_iff unsigned_ucast_eq take_bit_nat_def len32 unsigned_take_bit_eq mod_add_self2)
  with m nz assms(1) show ?thesis by (simp only: split_cap_def kconsts Let_def if_False simp_thms)
qed

theorem split_cap_truncates_witness:
  "unat (4096 :: u64) < 2 ^ 44 \<and> (\<exists>ab. split_cap example_cap 0x100000001000 = Some (Inr ab))"
proof -
  have "(4096 + 2 ^ 44 :: u64) = 0x100000001000" by simp
  moreover have "\<exists>ab. split_cap example_cap 4096 = Some (Inr ab)"
    using split_cap_ok [of example_cap 4096 1] by (simp add: example_cap_def)
  ultimately show ?thesis using split_cap_truncates [of 4096 example_cap] by auto
qed

text \<open>Dropping an \<^verbatim>\<open>OwnedFrame\<close> gives back exactly the frame its \<^verbatim>\<open>alloc\<close> took: the pool has
  the same Free frames as before.\<close>

theorem owned_frame_roundtrip:
  assumes "pmm_ok s" "free_frames s \<noteq> {}"
  shows "\<exists>fr s1 s2. of_alloc s = Some (Some fr, s1) \<and> of_frame fr \<notin> free_frames s1 \<and> of_drop s1 fr = Some s2 \<and>
    pmm_ok s2 \<and> free_frames s2 = free_frames s"
proof -
  from alloc_pool [OF assms] obtain f s1 where a: "alloc_frame s = Some (Some f, s1)" "pmm_ok s1"
    "f \<in> free_frames s" "free_frames s1 = free_frames s - {f}" "releasable s1 = (releasable s)(f := True)" by blast
  from release_pool [OF a(2), of f] a(5) obtain s2 where r: "release_frame s1 f = Some s2" "pmm_ok s2"
    "f \<notin> free_frames s1" "free_frames s2 = insert f (free_frames s1)" by auto
  have "of_alloc s = Some (Some (OwnedFrame f), s1)" "of_drop s1 (OwnedFrame f) = Some s2"
    using a(1) r(1) by (simp_all add: of_alloc_def of_drop_def)
  then show ?thesis using a(3,4) r(2-4) by (metis insert_Diff owned_frame.sel)
qed

theorem owned_frame_roundtrip_witness:
  "pmm_ok example_pmm \<and> (\<exists>fr s1 s2. of_alloc example_pmm = Some (Some fr, s1) \<and> of_drop s1 fr = Some s2 \<and>
     free_frames s2 = {1, 2})"
  using owned_frame_roundtrip [OF example_ok] example_ok by (auto simp: example_free)

end
