(* ===== verification/Pmm_System.thy ===== *)
theory Pmm_System
  imports Untyped
begin

text \<open>
  The physical memory manager as a system: any interleaving of the public operations of
  \<^verbatim>\<open>allocator.rs\<close>, \<^verbatim>\<open>frame.rs\<close> and \<^verbatim>\<open>untyped.rs\<close>, each of which runs under the shard lock with
  interrupts off. Operations that panic halt the machine, so they have no step.
\<close>

section \<open>Steps\<close>

text \<open>
  Reference counts are \<^verbatim>\<open>AtomicU32\<close> and \<^verbatim>\<open>fetch_add\<close> wraps around, as it does here.
\<close>

inductive pmm_step :: "pmm \<Rightarrow> pmm \<Rightarrow> bool" where
  alloc: "alloc_frame s = Some (r, s') \<Longrightarrow> pmm_step s s'"
| release: "release_frame s f = Some s' \<Longrightarrow> pmm_step s s'"
| pin: "pin_frame s f = Some (n, s') \<Longrightarrow> pmm_step s s'"
| unpin: "unpin_frame s f = Some (n, s') \<Longrightarrow> pmm_step s s'"
| map: "add_mapping s f = Some (n, s') \<Longrightarrow> pmm_step s s'"
| unmap: "remove_mapping s f = Some (n, s') \<Longrightarrow> pmm_step s s'"
| retype: "cap_ok s cap \<Longrightarrow> retype_frame s cap d = Some (r, cap', s') \<Longrightarrow> pmm_step s s'"

section \<open>Invariant\<close>

definition system_inv :: "pmm \<Rightarrow> bool" where
  "system_inv s \<longleftrightarrow> (\<exists>l g. pmm_inv s l g)"

text \<open>A Pending frame still has a reference, whose removal will reclaim it: none is leaked.\<close>

definition referenced :: "frameinfo \<Rightarrow> bool" where
  "referenced fi \<longleftrightarrow> pin_count fi \<noteq> 0 \<or> mapping_count fi \<noteq> 0"

definition pending_referenced :: "pmm \<Rightarrow> bool" where
  "pending_referenced s \<longleftrightarrow> (\<forall>f. in_table s f \<and> owner (infos s f) = PENDING \<longrightarrow> referenced (infos s f))"

text \<open>No frame has more than \<open>n\<close> pins or more than \<open>n\<close> mappings.\<close>

definition counts_to :: "nat \<Rightarrow> pmm \<Rightarrow> bool" where
  "counts_to n s \<longleftrightarrow> (\<forall>f. in_table s f \<longrightarrow> unat (pin_count (infos s f)) \<le> n \<and> unat (mapping_count (infos s f)) \<le> n)"

text \<open>What no step undoes: Reserved frames stay so, and no frame becomes Reserved or Untyped.\<close>

definition grants_only :: "pmm \<Rightarrow> pmm \<Rightarrow> bool" where
  "grants_only s t \<longleftrightarrow> ft_num t = ft_num s \<and>
     (\<forall>f. owner (infos t f) = RESERVED \<longleftrightarrow> owner (infos s f) = RESERVED) \<and>
     (\<forall>f k. owner (infos t f) = untyped k \<longrightarrow> owner (infos s f) = untyped k)"

text \<open>
  Every step changes the metadata of one frame at most, in one of few ways: a count grows by at most one, Reserved and
  Untyped are not entered, and a frame is Pending afterwards only if it is referenced or a count has wrapped around.
\<close>

definition frame_step :: "frameinfo \<Rightarrow> frameinfo \<Rightarrow> bool" where
  "frame_step a b \<longleftrightarrow> unat (pin_count b) \<le> unat (pin_count a) + 1 \<and> unat (mapping_count b) \<le> unat (mapping_count a) + 1 \<and>
     (owner b = PENDING \<longrightarrow> referenced b \<or> owner a = PENDING \<and> (pin_count a = - 1 \<or> mapping_count a = - 1)) \<and>
     (owner b = RESERVED \<longleftrightarrow> owner a = RESERVED) \<and> (\<forall>k. owner b = untyped k \<longrightarrow> owner a = untyped k)"

definition step_ok :: "pmm \<Rightarrow> pmm \<Rightarrow> bool" where
  "step_ok s t \<longleftrightarrow> system_inv t \<and> ft_num t = ft_num s \<and>
     (infos t = infos s \<or> (\<exists>f fi. in_table s f \<and> frame_step (infos s f) fi \<and> infos t = (infos s)(f := fi)))"

lemma owner_eq_iff: "owner fi = ow \<longleftrightarrow> owner_word fi = raw ow"
  by (cases ow) (simp add: owner_def)

lemma step_ok_refl: "system_inv s \<Longrightarrow> step_ok s s"
  by (simp add: step_ok_def)

lemma step_okI: "pmm_inv t l g \<Longrightarrow> ft_num t = ft_num s \<Longrightarrow> in_table s f \<Longrightarrow> frame_step (infos s f) fi \<Longrightarrow> infos t = (infos s)(f := fi) \<Longrightarrow> step_ok s t"
  by (auto simp: step_ok_def system_inv_def)

lemma step_cases: "step_ok s t \<Longrightarrow> infos t f = infos s f \<or> frame_step (infos s f) (infos t f)"
  by (auto simp: step_ok_def)

lemma step_grants:
  assumes "step_ok s t"
  shows "grants_only s t"
proof -
  have "(owner (infos t f) = RESERVED \<longleftrightarrow> owner (infos s f) = RESERVED) \<and> (owner (infos t f) = untyped k \<longrightarrow> owner (infos s f) = untyped k)" for f k
    using step_cases [OF assms, of f] by (auto simp: frame_step_def)
  then show ?thesis using assms by (auto simp: grants_only_def step_ok_def)
qed

lemma grants_only_refl: "grants_only s s"
  by (simp add: grants_only_def)

lemma grants_only_trans: "grants_only s t \<Longrightarrow> grants_only t u \<Longrightarrow> grants_only s u"
  by (auto simp: grants_only_def)

text \<open>With no count at the maximum, a step keeps every Pending frame referenced.\<close>

lemma step_references:
  assumes "step_ok s t" "pending_referenced s" "counts_to n s" "n < 2 ^ 32 - 1"
  shows "pending_referenced t" "counts_to (Suc n) t"
proof -
  have m: "unat (- 1 :: u32) = 2 ^ 32 - 1" by (simp add: unsigned_minus_1_eq_mask mask_eq_exp_minus_1)
  have ne: "pin_count (infos s f) \<noteq> - 1" "mapping_count (infos s f) \<noteq> - 1" if "in_table s f" for f
    using that assms(3,4) m unfolding counts_to_def by (metis leD)+
  have it: "in_table t = in_table s" using assms(1) by (auto simp: step_ok_def in_table_def)
  have "referenced (infos t f)" if f: "in_table s f" "owner (infos t f) = PENDING" for f
    using step_cases [OF assms(1), of f] ne [OF f(1)] assms(2) f by (auto simp: frame_step_def pending_referenced_def)
  then show "pending_referenced t" by (simp add: pending_referenced_def it)
  show "counts_to (Suc n) t"
    unfolding counts_to_def it
  proof (intro allI impI)
    fix f assume f: "in_table s f"
    then have c: "unat (pin_count (infos s f)) \<le> n" "unat (mapping_count (infos s f)) \<le> n" using assms(3) by (simp_all add: counts_to_def)
    show "unat (pin_count (infos t f)) \<le> Suc n \<and> unat (mapping_count (infos t f)) \<le> Suc n"
      using c step_cases [OF assms(1), of f] by (auto simp: frame_step_def)
  qed
qed

section \<open>The operations\<close>

lemma alloc_step:
  assumes inv: "system_inv s" and "alloc_frame s = Some (r, s')"
  shows "step_ok s s'"
proof -
  obtain l g where "pmm_inv s l g" using inv by (auto simp: system_inv_def)
  then show ?thesis
  proof (cases rule: alloc_frame_cases)
    case none
    with assms show ?thesis by (simp add: step_ok_refl)
  next
    case (some f t l' g')
    then have t: "s' = t" "owner (infos s f) = FREE" "ft_num s' = ft_num s" "in_table s f"
      using assms(2) by (simp_all add: owner_eq_iff free_frames_def links_only_def)
    then show ?thesis
      using step_okI [of s' l' g' s f "(infos s f)\<lparr>owner_word := raw KERNEL\<rparr>"] some(3,4)
      by (auto simp: owner_eq_iff frame_step_def)
  qed
qed

lemma release_step:
  assumes inv: "system_inv s" and r: "release_frame s f = Some s'"
  shows "step_ok s s'"
proof -
  obtain l g where i: "pmm_inv s l g" using inv by (auto simp: system_inv_def)
  from release_frame_post [OF i, of f] r have p: "in_table s f" "owner (infos s f) \<notin> {RESERVED, FREE}" "ft_num s' = ft_num s"
    by (auto simp: links_only_def)
  show ?thesis
  proof (cases "pin_count (infos s f) \<noteq> 0 \<or> mapping_count (infos s f) \<noteq> 0")
    case True
    then show ?thesis
      using step_okI [of s' _ _ s f "(infos s f)\<lparr>owner_word := raw PENDING\<rparr>"] release_frame_post [OF i, of f] r p
      by (auto simp: owner_eq_iff frame_step_def referenced_def)
  next
    case False
    then show ?thesis
      using step_okI [of s' _ _ s f
          "(infos s f)\<lparr>owner_word := raw FREE, generation := generation (infos s f) + 1\<rparr>"]
        release_frame_post [OF i, of f] r p
      by (auto simp: owner_eq_iff frame_step_def)
  qed
qed

lemma put_info_step:
  assumes inv: "system_inv s" and f: "in_table s f" "owner_word fi = owner_word (infos s f)" and fs: "frame_step (infos s f) fi"
  shows "step_ok s (put_info s f fi)"
proof -
  obtain l g where i: "pmm_inv s l g" using inv by (auto simp: system_inv_def)
  show ?thesis by (rule step_okI [OF pmm_inv_same_owner [OF i f] _ f(1) fs]) simp_all
qed

text \<open>Dropping a reference may drain the frame, which is then released.\<close>

lemma drained_step:
  assumes inv: "system_inv s" and f: "in_table s f" "owner_word fi = owner_word (infos s f)"
    and c: "unat (pin_count fi) \<le> unat (pin_count (infos s f)) + 1" "unat (mapping_count fi) \<le> unat (mapping_count (infos s f)) + 1"
  shows "step_ok s (drained s f fi)"
proof (cases "owner_word fi = raw PENDING \<and> pin_count fi = 0 \<and> mapping_count fi = 0")
  case False
  then have "frame_step (infos s f) fi" using f(2) c by (auto simp: frame_step_def owner_eq_iff referenced_def)
  with put_info_step [OF inv f] False show ?thesis by (auto simp: drained_def)
next
  case True
  obtain l g where i: "pmm_inv s l g" using inv by (auto simp: system_inv_def)
  obtain l' where "pmm_inv (drained s f fi) l' g" using pmm_inv_drained [OF i f] by blast
  moreover have "infos (drained s f fi) = (infos s)(f := fi\<lparr>owner_word := raw FREE, generation := generation fi + 1\<rparr>)"
    "ft_num (drained s f fi) = ft_num s"
    using True by (simp_all add: drained_def infos_released) (simp add: released_def)
  moreover have "owner_word (infos s f) = raw PENDING" using True f by simp
  ultimately show ?thesis
    using step_okI [of "drained s f fi" l' g s f "fi\<lparr>owner_word := raw FREE, generation := generation fi + 1\<rparr>"] f(1) c
    by (auto simp: owner_eq_iff frame_step_def)
qed

lemma retype_step:
  assumes inv: "system_inv s" and cap: "cap_ok s cap" and r: "retype_frame s cap d = Some (r, cap', s')"
  shows "step_ok s s'"
proof -
  obtain l g where i: "pmm_inv s l g" using inv by (auto simp: system_inv_def)
  show ?thesis
  proof (cases rule: retype_frame_cases [OF pmm_inv_table [OF i] cap, of d])
    case 1
    with assms show ?thesis by (simp add: step_ok_refl)
  next
    case (2 f)
    then have f: "in_table s f" "owner (infos s f) = untyped (cap_id cap)" "s' = retyped s f d"
      using region_in_table [OF cap] r by (auto simp: untaken_def)
    then have "pmm_inv s' l g"
      unfolding f(3) retyped_def by (intro pmm_inv_put_info [OF i]) (auto simp: free_frames_def owner_eq_iff)
    with f show ?thesis
      using step_okI [of s' l g s f "(infos s f)\<lparr>owner_word := raw (domain d)\<rparr>"] by (auto simp: owner_eq_iff frame_step_def)
  qed
qed

text \<open>Counting up grows the count by one or wraps it to zero; counting down, from a count that is not zero, lowers it.\<close>

lemma count_up: "unat (n + 1) \<le> unat n + 1" "n + 1 = 0 \<longleftrightarrow> n = - 1" for n :: u32
  by (simp_all add: unat_word_ariths eq_neg_iff_add_eq_0)

lemma count_down: "0 < n \<Longrightarrow> unat (n - 1) \<le> unat n + 1" for n :: u32
  by (simp add: unat_minus_one)

lemma pin_step:
  assumes inv: "system_inv s" and "pin_frame s f = Some (n, s')"
  shows "step_ok s s'"
proof -
  have f: "in_table s f" "s' = put_info s f (snd (pin (infos s f)))"
    using assms(2) by (auto simp: pin_frame_def pin_def frame_info_eq_Some bind_eq_Some_conv)
  have "frame_step (infos s f) (snd (pin (infos s f)))"
    using count_up by (auto simp: frame_step_def pin_def owner_eq_iff referenced_def)
  then show ?thesis unfolding f(2) by (intro put_info_step [OF inv f(1)]) (simp_all add: pin_def)
qed

lemma map_step:
  assumes inv: "system_inv s" and "add_mapping s f = Some (n, s')"
  shows "step_ok s s'"
proof -
  have f: "in_table s f" "s' = put_info s f (snd (fi_add_mapping (infos s f)))"
    using assms(2) by (auto simp: add_mapping_def fi_add_mapping_def frame_info_eq_Some bind_eq_Some_conv)
  have "frame_step (infos s f) (snd (fi_add_mapping (infos s f)))"
    using count_up by (auto simp: frame_step_def fi_add_mapping_def owner_eq_iff referenced_def)
  then show ?thesis unfolding f(2) by (intro put_info_step [OF inv f(1)]) (simp_all add: fi_add_mapping_def)
qed

lemma unpin_step:
  assumes inv: "system_inv s" and "unpin_frame s f = Some (n, s')"
  shows "step_ok s s'"
proof -
  obtain l g where i: "pmm_inv s l g" using inv by (auto simp: system_inv_def)
  with assms(2) drained_step [OF inv] count_down show ?thesis by (auto simp: unpin_frame_eq [OF i] split: if_splits)
qed

lemma unmap_step:
  assumes inv: "system_inv s" and "remove_mapping s f = Some (n, s')"
  shows "step_ok s s'"
proof -
  obtain l g where i: "pmm_inv s l g" using inv by (auto simp: system_inv_def)
  with assms(2) drained_step [OF inv] count_down show ?thesis by (auto simp: remove_mapping_eq [OF i] split: if_splits)
qed

lemmas step_intros = alloc_step release_step pin_step unpin_step map_step unmap_step retype_step

lemma pmm_step_ok: "system_inv s \<Longrightarrow> pmm_step s t \<Longrightarrow> step_ok s t"
  by (erule pmm_step.cases) (blast intro: step_intros)+

lemma pmm_step_inv: "system_inv s \<Longrightarrow> pmm_step s t \<Longrightarrow> system_inv t \<and> grants_only s t"
  using pmm_step_ok step_grants by (auto simp: step_ok_def)

text \<open>The state \<^verbatim>\<open>pmm_init\<close> hands over: the lists are built, and no frame is released or referenced yet.\<close>

definition pmm_boot :: "pmm \<Rightarrow> bool" where
  "pmm_boot s \<longleftrightarrow> (\<exists>s0 n. table_ok s0 \<and> fresh_lists s0 \<and>
     (\<forall>f. in_table s0 f \<longrightarrow> owner (infos s0 f) \<noteq> PENDING \<and> pin_count (infos s0 f) = 0 \<and> mapping_count (infos s0 f) = 0) \<and>
     build_global_freelist s0 = Some (n, s))"

lemma pmm_boot_start:
  assumes "pmm_boot s"
  shows "system_inv s" "pending_referenced s" "counts_to 0 s"
proof -
  obtain s0 n where s0: "table_ok s0" "fresh_lists s0"
    "\<forall>f. in_table s0 f \<longrightarrow> owner (infos s0 f) \<noteq> PENDING \<and> pin_count (infos s0 f) = 0 \<and> mapping_count (infos s0 f) = 0"
    "build_global_freelist s0 = Some (n, s)" using assms by (auto simp: pmm_boot_def)
  from build_global_freelist_correct [OF s0(1,2)] s0(4) have "\<exists>l g. pmm_inv s l g" "infos s = infos s0" "ft_num s = ft_num s0"
    by (auto simp: links_only_def)
  with s0(3) show "system_inv s" "pending_referenced s" "counts_to 0 s"
    by (auto simp: system_inv_def pending_referenced_def counts_to_def in_table_def)
qed

interpretation pmm_sys: safe_system pmm_boot pmm_step system_inv
  by unfold_locales (use pmm_boot_start pmm_step_inv in blast)+

text \<open>After \<open>n\<close> steps no count exceeds \<open>n\<close>.\<close>

lemma run_references:
  "(pmm_step ^^ n) s t \<Longrightarrow> pmm_boot s \<Longrightarrow> n < 2 ^ 32 \<Longrightarrow> pending_referenced t \<and> counts_to n t"
proof (induction n arbitrary: t)
  case 0
  then show ?case using pmm_boot_start by auto
next
  case (Suc n)
  then obtain u where u: "(pmm_step ^^ n) s u" "pmm_step u t" by auto
  have "system_inv u" by (rule pmm_sys.reachable_inv [OF Suc.prems(2) relpowp_imp_rtranclp [OF u(1)]])
  then have "step_ok u t" using pmm_step_ok u(2) by blast
  moreover have "pending_referenced u \<and> counts_to n u" using Suc.IH [OF u(1)] Suc.prems by simp
  ultimately show ?case using step_references [of u t n] Suc.prems(3) by simp
qed

section \<open>Properties\<close>

text \<open>C9: In every state reachable from the one boot hands over, by any interleaving of
  allocation, release, pinning, mapping and retyping, the free lists are well formed and hold
  exactly the Free frames, the debug walk agrees with the counters, and allocation does not panic. In a run of fewer
  than \<open>2 ^ 32\<close> steps every Pending frame still has a reference, so none is leaked; a longer run could pin one
  frame so often that its 32-bit count wraps around to zero.\<close>

theorem reachable_pool_sound:
  assumes "pmm_boot s" "(pmm_step ^^ n) s t"
  shows "(\<exists>l g. pmm_inv t l g) \<and> debug_validate_free_lists t = free_frame_count t \<and>
    free_frame_count t = Some (word_of_nat (card (free_frames t))) \<and> alloc_frame t \<noteq> None \<and> (n < 2 ^ 32 \<longrightarrow> pending_referenced t)"
proof -
  have "system_inv t" by (rule pmm_sys.reachable_inv [OF assms(1) relpowp_imp_rtranclp [OF assms(2)]])
  then obtain l g where i: "pmm_inv t l g" by (auto simp: system_inv_def)
  from alloc_counts [OF i [unfolded pmm_inv_def]] alloc_frame_post [OF i] i run_references [OF assms(2,1)] show ?thesis
    by (cases "alloc_frame t") auto
qed

lemma example_boot: "\<exists>s. pmm_boot s \<and> free_frames s = {1, 2}"
proof -
  let ?s = "example_pmm\<lparr>infos := (infos example_pmm)(4 := zero_info),
    shards := replicate 64 empty_shard, global := empty_shard\<rparr>"
  have t: "table_ok ?s" using example_table by (auto simp: table_ok_def in_table_def physmap_covers_def)
  have f: "fresh_lists ?s" by (simp add: fresh_lists_def)
  have "owner (infos ?s f) \<noteq> PENDING" for f by (simp add: example_pmm_def owner_eq_iff)
  moreover have "pin_count (infos ?s f) = 0 \<and> mapping_count (infos ?s f) = 0" for f by (simp add: example_pmm_def zero_info_def)
  ultimately have p: "owner (infos ?s f) \<noteq> PENDING \<and> pin_count (infos ?s f) = 0 \<and> mapping_count (infos ?s f) = 0" for f by blast
  obtain s' where s': "build_global_freelist ?s = Some (word_of_nat (card (free_frames ?s)), s')"
    "infos s' = infos ?s" "links_only ?s s' (free_frames ?s)"
    using build_global_freelist_correct [OF t f] by blast
  then have "free_frames s' = free_frames ?s" by (auto simp: free_frames_def links_only_def in_table_def)
  also have "\<dots> = {1, 2}"
    using example_free by (auto simp: free_frames_def in_table_def example_pmm_def)
  finally show ?thesis using t f p s'(1) unfolding pmm_boot_def by blast
qed

lemma example_alloc_step:
  obtains s t where "pmm_boot s" "free_frames s = {1, 2}" "pmm_step s t" "card (free_frames t) = 1"
proof -
  obtain s where s: "pmm_boot s" "free_frames s = {1, 2}" using example_boot by blast
  obtain l g where i: "pmm_inv s l g" using pmm_boot_start(1) [OF s(1)] by (auto simp: system_inv_def)
  from i show thesis
  proof (cases rule: alloc_frame_cases)
    case none
    then show thesis using s(2) by simp
  next
    case (some f t l' g')
    then have "free_frames t = {1, 2} - {f}" using alloc_frame_post [OF i] s(2) by simp
    moreover have "f \<in> {1, 2}" using some(1) s(2) by simp
    ultimately have "card (free_frames t) = 1" by auto
    then show thesis using that s pmm_step.alloc [OF some(2)] by blast
  qed
qed

theorem reachable_pool_sound_witness:
  "\<exists>s t. pmm_boot s \<and> pmm_step s t \<and> free_frame_count t = Some 1 \<and> pending_referenced t"
proof -
  obtain s t where s: "pmm_boot s" "free_frames s = {1, 2}" "pmm_step s t" "card (free_frames t) = 1" by (rule example_alloc_step)
  then have "(pmm_step ^^ 1) s t" by (simp only: relpowp_1)
  from reachable_pool_sound [OF s(1) this] s show ?thesis by auto
qed

text \<open>C21: Grants are once-only: along every run Reserved frames stay Reserved, no other frame
  becomes Reserved, and no frame ever returns to an untyped region, so a region that is
  exhausted stays exhausted.\<close>

theorem grants_are_once_only:
  assumes "pmm_boot s" "pmm_step\<^sup>*\<^sup>* s t" "pmm_step\<^sup>*\<^sup>* t u"
  shows "(owner (infos u f) = RESERVED \<longleftrightarrow> owner (infos t f) = RESERVED) \<and> untaken u cap \<subseteq> untaken t cap"
proof -
  have "grants_only t u"
    by (rule pmm_sys.steps_stable [OF _ grants_only_refl grants_only_trans assms(3) pmm_sys.reachable_inv [OF assms(1,2)]])
      (use pmm_step_inv in blast)+
  then show ?thesis by (auto simp: grants_only_def untaken_def)
qed

theorem grants_are_once_only_witness:
  "\<exists>s t. pmm_boot s \<and> pmm_step s t \<and> untaken t example_cap \<subseteq> untaken s example_cap"
proof -
  obtain s t where s: "pmm_boot s" and t: "pmm_step s t" by (rule example_alloc_step)
  from grants_are_once_only [OF s _ r_into_rtranclp [of pmm_step, OF t], of 0 example_cap] s t show ?thesis by blast
qed

end
