(* ===== verification/Boot.thy ===== *)
theory Boot
  imports Pmm_System
begin

text \<open>
  \<^verbatim>\<open>kernel/src/boot.rs\<close>: the boot memory map, the bump allocator used before the frame table
  exists, and \<^verbatim>\<open>pmm_init\<close>, which builds the frame table, reserves the kernel image, the frame
  table, the heap and the low megabyte, carves the untyped regions and fills the free list.

  Errors are the strings of the source. \<^verbatim>\<open>rust_entry\<close>, the only caller, halts on an error, so
  the state an error leaves behind is not part of the result.
\<close>

section \<open>Memory map\<close>

datatype region_kind = Usable | ReservedRegion

record memory_region =
  mr_start :: u64
  mr_len :: u64
  mr_kind :: region_kind

definition region_end :: "memory_region \<Rightarrow> u64 option" where
  "region_end r = uadd (mr_start r) (mr_len r)"

record boot_info =
  bi_physmap_base :: usize
  bi_regions :: "memory_region list"
  bi_kernel_image :: "u64 \<times> u64"

section \<open>The bump allocator\<close>

record boot_allocator =
  ba_regions :: "memory_region list"
  next_region :: nat
  ba_cursor :: u64

definition new_boot_allocator :: "memory_region list \<Rightarrow> boot_allocator" where
  "new_boot_allocator regions = \<lparr>ba_regions = regions, next_region = 0, ba_cursor = 0\<rparr>"

definition skip_region :: "boot_allocator \<Rightarrow> boot_allocator" where
  "skip_region ba = ba\<lparr>next_region := next_region ba + 1, ba_cursor := 0\<rparr>"

text \<open>The \<^verbatim>\<open>while\<close> loop of \<^verbatim>\<open>BootAllocator::alloc\<close>; it ends because every round that does not
  return moves to the next region.\<close>

function boot_alloc_loop :: "boot_allocator \<Rightarrow> usize \<Rightarrow> usize \<Rightarrow> (u64 option \<times> boot_allocator) option" where
  "boot_alloc_loop ba sz align =
     (if next_region ba < length (ba_regions ba) then
        let region = ba_regions ba ! next_region ba in
        if mr_kind region \<noteq> Usable then boot_alloc_loop (skip_region ba) sz align
        else case align_up (max (ba_cursor ba) (mr_start region)) align of
            None \<Rightarrow> None
          | Some start \<Rightarrow>
              (case uadd start sz of
                 Some e \<Rightarrow>
                   (case region_end region of
                      None \<Rightarrow> None
                    | Some re \<Rightarrow>
                        if e \<le> re
                        then Some (Some start, if e = re then skip_region ba else ba\<lparr>ba_cursor := e\<rparr>)
                        else boot_alloc_loop (skip_region ba) sz align)
               | None \<Rightarrow> boot_alloc_loop (skip_region ba) sz align)
      else Some (None, ba))"
  by pat_completeness auto
termination
  by (relation "measure (\<lambda>(ba, _, _). length (ba_regions ba) - next_region ba)") (auto simp: skip_region_def)

declare boot_alloc_loop.simps [simp del]

definition boot_alloc :: "boot_allocator \<Rightarrow> usize \<Rightarrow> usize \<Rightarrow> (u64 option \<times> boot_allocator) option" where
  "boot_alloc ba sz align = do {
     rassert (sz \<noteq> 0);
     rassert (is_power_of_two align);
     boot_alloc_loop ba sz align
   }"

definition alloc_frames :: "boot_allocator \<Rightarrow> u32 \<Rightarrow> (u32 option \<times> boot_allocator) option" where
  "alloc_frames ba n = do {
     (r, ba) \<leftarrow> boot_alloc ba (ucast n * FRAME_SIZE) FRAME_SIZE;
     Some (map_option (\<lambda>phys. ucast (phys div FRAME_SIZE)) r, ba)
   }"

definition round_down :: "u64 \<Rightarrow> u64 \<Rightarrow> u64 option" where
  "round_down value align = do { m \<leftarrow> usub align 1; Some (value AND NOT m) }"

definition round_up :: "u64 \<Rightarrow> u64 \<Rightarrow> u64 option" where
  "round_up value align = align_up value align"

definition ceil_div :: "u64 \<Rightarrow> u64 \<Rightarrow> u64 option" where
  "ceil_div a b = do { t \<leftarrow> uadd a b; t \<leftarrow> usub t 1; rassert (b \<noteq> 0); Some (t div b) }"

section \<open>Effective regions\<close>

definition MAX_EFFECTIVE_REGIONS :: nat where [kconsts]: "MAX_EFFECTIVE_REGIONS = 128"
definition LEGACY_END :: u64 where [kconsts]: "LEGACY_END = 1024 * 1024"

text \<open>\<^verbatim>\<open>out[n] = r; n += 1\<close> on the fixed array: out of bounds panics.\<close>

definition push_region :: "memory_region list \<Rightarrow> memory_region \<Rightarrow> memory_region list option" where
  "push_region out r = (if length out < MAX_EFFECTIVE_REGIONS then Some (out @ [r]) else None)"

definition split_image :: "u64 \<Rightarrow> u64 \<Rightarrow> memory_region \<Rightarrow> memory_region list \<Rightarrow> memory_region list option" where
  "split_image ki_ks ki_ke region out = do {
     let start = mr_start region;
     e \<leftarrow> region_end region;
     out \<leftarrow> (if start < ki_ks then do {
         n \<leftarrow> usub ki_ks start;
         push_region out \<lparr>mr_start = start, mr_len = n, mr_kind = Usable\<rparr>
       } else Some out);
     if ki_ke < e then do {
       n \<leftarrow> usub e ki_ke;
       push_region out \<lparr>mr_start = ki_ke, mr_len = n, mr_kind = Usable\<rparr>
     } else Some out
   }"

fun effective_loop :: "u64 \<Rightarrow> u64 \<Rightarrow> u64 \<Rightarrow> memory_region list \<Rightarrow> memory_region list \<Rightarrow>
    (string + memory_region list) option" where
  "effective_loop ki_len ki_ks ki_ke [] out = Some (Inr out)"
| "effective_loop ki_len ki_ks ki_ke (region # regions) out = do {
     out \<leftarrow> (if mr_kind region \<noteq> Usable then push_region out region
       else do {
         e \<leftarrow> region_end region;
         if ki_len \<noteq> 0 \<and> ki_ks < e \<and> mr_start region < ki_ke then split_image ki_ks ki_ke region out
         else push_region out region
       });
     if MAX_EFFECTIVE_REGIONS \<le> length out then Some (Inl ''too many memory regions'')
     else effective_loop ki_len ki_ks ki_ke regions out
   }"

definition build_effective :: "boot_info \<Rightarrow> (string + memory_region list) option" where
  "build_effective boot = do {
     let (ki_start, ki_len) = bi_kernel_image boot;
     ki_ks \<leftarrow> (if ki_len \<noteq> 0 then round_down ki_start FRAME_SIZE else Some 0);
     ki_ke \<leftarrow> (if ki_len \<noteq> 0 then do { e \<leftarrow> uadd ki_start ki_len; round_up e FRAME_SIZE } else Some 0);
     effective_loop ki_len ki_ks ki_ke (bi_regions boot) []
   }"

section \<open>Initialisation\<close>

record untyped_spec =
  us_base_phys :: u64
  us_len :: u64

record pm_init_out =
  out_total_frames :: usize
  out_free_frames :: u64
  frame_table_frames :: usize
  untyped_created :: nat
  heap_phys :: u64
  heap_len :: u64
  ram_end :: u64

fun max_region_end :: "memory_region list \<Rightarrow> u64 \<Rightarrow> u64 option" where
  "max_region_end [] acc = Some acc"
| "max_region_end (r # rs) acc =
     (if mr_kind r = Usable then do { e \<leftarrow> region_end r; max_region_end rs (max acc e) }
      else max_region_end rs acc)"

fun mark_frames :: "pmm \<Rightarrow> u64 list \<Rightarrow> u64 \<Rightarrow> u64 \<Rightarrow> (string + pmm) option" where
  "mark_frames s [] ft_phys heap_end = Some (Inr s)"
| "mark_frames s (idx # idxs) ft_phys heap_end = do {
     phys \<leftarrow> umul idx FRAME_SIZE;
     if phys < LEGACY_END then mark_frames s idxs ft_phys heap_end
     else if ft_phys \<le> phys \<and> phys < heap_end then mark_frames s idxs ft_phys heap_end
     else do {
       (ok, s) \<leftarrow> try_set_owner s (ucast idx) RESERVED FREE;
       if ok then mark_frames s idxs ft_phys heap_end
       else Some (Inl ''overlapping memory map entries'')
     }
   }"

fun mark_regions :: "pmm \<Rightarrow> memory_region list \<Rightarrow> u64 \<Rightarrow> u64 \<Rightarrow> (string + pmm) option" where
  "mark_regions s [] ft_phys heap_end = Some (Inr s)"
| "mark_regions s (region # regions) ft_phys heap_end =
     (if mr_kind region \<noteq> Usable then mark_regions s regions ft_phys heap_end
      else do {
        first \<leftarrow> ceil_div (mr_start region) FRAME_SIZE;
        e \<leftarrow> region_end region;
        last \<leftarrow> ceil_div e FRAME_SIZE;
        try_bind (mark_frames s (map word_of_nat [unat first..<unat last]) ft_phys heap_end)
          (\<lambda>s. mark_regions s regions ft_phys heap_end)
      })"

fun carve_frames :: "pmm \<Rightarrow> u64 list \<Rightarrow> u32 \<Rightarrow> (string + pmm) option" where
  "carve_frames s [] i = Some (Inr s)"
| "carve_frames s (frame # frames) i = do {
     (ok, s) \<leftarrow> try_set_owner s (ucast frame) FREE (untyped i);
     if ok then carve_frames s frames i
     else Some (Inl ''untyped spec overlaps a reserved range or another region'')
   }"

definition carve_untyped_region :: "pmm \<Rightarrow> untyped_spec \<Rightarrow> u32 \<Rightarrow> (string + pmm \<times> untyped_cap) option" where
  "carve_untyped_region s spec i =
     (if us_base_phys spec mod FRAME_SIZE \<noteq> 0 \<or> us_len spec mod FRAME_SIZE \<noteq> 0
      then Some (Inl ''untyped spec not frame-aligned'')
      else do {
        let base_frame = us_base_phys spec div FRAME_SIZE;
        let num = us_len spec div FRAME_SIZE;
        top \<leftarrow> uadd base_frame num;
        if num = 0 \<or> 0xFFFFFFFF \<le> top then Some (Inl ''untyped spec has invalid range'')
        else try_bind (carve_frames s (map word_of_nat [unat base_frame..<unat base_frame + unat num]) i)
          (\<lambda>s. Some (Inr (s, new_cap i (ucast base_frame) (ucast num))))
      })"

fun carve_specs :: "pmm \<Rightarrow> untyped_spec list \<Rightarrow> nat \<Rightarrow> untyped_cap list \<Rightarrow> (string + pmm \<times> untyped_cap list) option" where
  "carve_specs s [] i out = Some (Inr (s, out))"
| "carve_specs s (spec # specs) i out =
     try_bind (carve_untyped_region s spec (word_of_nat i))
       (\<lambda>(s, cap). carve_specs s specs (i + 1) (out[i := cap]))"

definition place_heap :: "pmm \<Rightarrow> boot_allocator \<Rightarrow> usize \<Rightarrow> u64 \<Rightarrow> (string + pmm \<times> u64) option" where
  "place_heap s ba hlen ft_end =
     (if hlen \<noteq> 0 then do {
        (r, ba) \<leftarrow> boot_alloc ba hlen FRAME_SIZE;
        case r of
          None \<Rightarrow> Some (Inl ''cannot allocate kernel heap'')
        | Some hp \<Rightarrow> do {
            hv \<leftarrow> phys_to_virt s hp;
            let s = zero_range s hv hlen;
            e \<leftarrow> uadd hp hlen;
            Some (Inr (s, e))
          }
      } else Some (Inr (s, ft_end)))"

text \<open>The part of \<^verbatim>\<open>pmm_init\<close> from the frame table on.\<close>

definition pmm_fill :: "pmm \<Rightarrow> memory_region list \<Rightarrow> untyped_spec list \<Rightarrow> untyped_cap list \<Rightarrow> usize \<Rightarrow> u64 \<Rightarrow>
    usize \<Rightarrow> usize \<Rightarrow> u64 \<Rightarrow> u64 \<Rightarrow> (string + pm_init_out \<times> pmm \<times> untyped_cap list) option" where
  "pmm_fill s regions specs out_untyped hlen max_end tot ft_bytes ft_phys heap_end =
     try_bind (mark_regions s regions ft_phys heap_end) (\<lambda>s.
     try_bind (carve_specs s specs 0 out_untyped) (\<lambda>(s, out_untyped). do {
       (free, s) \<leftarrow> build_global_freelist s;
       hp \<leftarrow> (if hlen \<noteq> 0 then usub heap_end hlen else Some 0);
       Some (Inr (\<lparr>out_total_frames = tot, out_free_frames = free, frame_table_frames = ft_bytes div FRAME_SIZE,
         untyped_created = length specs, heap_phys = hp, heap_len = hlen, ram_end = max_end\<rparr>, s, out_untyped))
     }))"

definition pmm_init :: "pmm \<Rightarrow> boot_info \<Rightarrow> untyped_spec list \<Rightarrow> untyped_cap list \<Rightarrow> usize \<Rightarrow>
    (string + pm_init_out \<times> pmm \<times> untyped_cap list) option" where
  "pmm_init s boot specs out_untyped hlen =
     (if length out_untyped < length specs then Some (Inl ''untyped output buffer too small'')
      else do {
        rassert (hlen mod FRAME_SIZE = 0);
        s \<leftarrow> set_physmap_base s (bi_physmap_base boot);
        if list_ex (\<lambda>r. mr_kind r = Usable \<and> (mr_start r mod FRAME_SIZE \<noteq> 0 \<or> mr_len r mod FRAME_SIZE \<noteq> 0))
            (bi_regions boot)
        then Some (Inl ''usable region not frame-aligned'')
        else try_bind (build_effective boot) (\<lambda>regions. do {
          max_end \<leftarrow> max_region_end regions 0;
          if max_end = 0 then Some (Inl ''no usable memory'')
          else do {
            tot \<leftarrow> ceil_div max_end FRAME_SIZE;
            ft_bytes \<leftarrow> umul tot SIZE_OF_FRAME_INFO;
            (r, ba) \<leftarrow> boot_alloc (new_boot_allocator regions) ft_bytes FRAME_SIZE;
            case r of
              None \<Rightarrow> Some (Inl ''cannot allocate frame table'')
            | Some ft_phys \<Rightarrow> do {
                ft_va \<leftarrow> phys_to_virt s ft_phys;
                try_bind (init_table_zeroed s ft_va tot ft_bytes) (\<lambda>s. do {
                  ft_end \<leftarrow> uadd ft_phys ft_bytes;
                  try_bind (place_heap s ba hlen ft_end) (\<lambda>(s, heap_end).
                    pmm_fill s regions specs out_untyped hlen max_end tot ft_bytes ft_phys heap_end)
                })
              }
          }
        })
      })"

end
