(* ===== verification/Boot_Alloc.thy ===== *)
theory Boot_Alloc
  imports Boot
begin

text \<open>
  The bump allocator of \<^verbatim>\<open>kernel/src/boot.rs\<close> (\<^verbatim>\<open>BootAllocator::alloc\<close>): on a memory map in
  address order its results are aligned, inside usable regions, and in address order, so no two
  of them overlap; and it finds room whenever some region has it.
\<close>

section \<open>The bump allocator\<close>

definition r_end :: "memory_region \<Rightarrow> nat" where
  "r_end r = unat (mr_start r) + unat (mr_len r)"

definition no_wrap :: "memory_region list \<Rightarrow> bool" where
  "no_wrap rs \<longleftrightarrow> (\<forall>r\<in>set rs. r_end r < 2 ^ 64)"

text \<open>Usable regions in address order, without overlap.\<close>

definition address_order :: "memory_region list \<Rightarrow> bool" where
  "address_order rs \<longleftrightarrow> sorted_wrt (\<lambda>a b. mr_kind a = Usable \<and> mr_kind b = Usable \<longrightarrow> r_end a \<le> unat (mr_start b)) rs"

lemma region_end_eq: "region_end r = Some e \<longleftrightarrow> r_end r < 2 ^ 64 \<and> e = mr_start r + mr_len r"
  by (auto simp: region_end_def uadd_eq_Some r_end_def)

lemma unat_region_end: "region_end r = Some e \<Longrightarrow> unat e = r_end r"
  by (simp add: region_end_eq r_end_def unat_add_no_wrap)

text \<open>What a successful allocation returns: a block in a usable region at or after the current
  one, and an allocator that continues behind the block.\<close>

definition fits_in :: "memory_region \<Rightarrow> nat \<Rightarrow> nat \<Rightarrow> bool" where
  "fits_in r st n \<longleftrightarrow> mr_kind r = Usable \<and> unat (mr_start r) \<le> st \<and> st + n \<le> r_end r"

definition continues :: "boot_allocator \<Rightarrow> boot_allocator \<Rightarrow> nat \<Rightarrow> nat \<Rightarrow> nat \<Rightarrow> bool" where
  "continues ba ba' i st n \<longleftrightarrow> ba_regions ba' = ba_regions ba \<and> next_region ba \<le> i \<and> i < length (ba_regions ba) \<and>
     fits_in (ba_regions ba ! i) st n \<and> (i = next_region ba \<longrightarrow> unat (ba_cursor ba) \<le> st) \<and>
     (next_region ba' = i + 1 \<and> ba_cursor ba' = 0 \<and> st + n = r_end (ba_regions ba ! i) \<or>
      next_region ba' = i \<and> unat (ba_cursor ba') = st + n)"

lemma skip_region_simps [simp]:
  "ba_regions (skip_region ba) = ba_regions ba" "next_region (skip_region ba) = next_region ba + 1"
  "ba_cursor (skip_region ba) = 0"
  by (simp_all add: skip_region_def)

lemma continues_skip: "continues (skip_region ba) ba' i st n \<Longrightarrow> continues ba ba' i st n"
  by (auto simp: continues_def)

lemma unat_max: "unat (max a b) = max (unat a) (unat b)" for a b :: "'a::len word"
  by (simp add: max_def word_le_nat_alt)

lemma boot_alloc_loop_sound:
  assumes "boot_alloc_loop ba sz al = Some (Some st, ba')"
  shows "\<exists>i. continues ba ba' i (unat st) (unat sz) \<and> unat al dvd unat st"
  using assms
proof (induction "length (ba_regions ba) - next_region ba" arbitrary: ba rule: less_induct)
  case less
  note run = less.prems [unfolded boot_alloc_loop.simps [of ba]]
  let ?r = "ba_regions ba ! next_region ba"
  have here: "next_region ba < length (ba_regions ba)" using run by (auto split: if_splits)
  have skip: ?case if "boot_alloc_loop (skip_region ba) sz al = Some (Some st, ba')"
    using less.hyps [OF _ that] here continues_skip by fastforce
  show ?case
  proof (cases "mr_kind ?r = Usable")
    case False
    with run here skip show ?thesis by (simp add: Let_def)
  next
    case True
    then obtain a where a: "align_up (max (ba_cursor ba) (mr_start ?r)) al = Some a"
      using run here by (auto simp: Let_def split: option.splits)
    show ?thesis
    proof (cases "\<exists>e re. uadd a sz = Some e \<and> region_end ?r = Some re \<and> e \<le> re")
      case False
      with run here True a skip show ?thesis by (auto simp: Let_def split: option.splits if_splits)
    next
      case fit: True
      then obtain e re where e: "uadd a sz = Some e" "region_end ?r = Some re" "e \<le> re" by blast
      then have r: "st = a" "ba' = (if e = re then skip_region ba else ba\<lparr>ba_cursor := e\<rparr>)"
        using run here True a by (simp_all add: Let_def)
      have "unat e = unat a + unat sz" using e(1) by (simp add: uadd_eq_Some unat_add_no_wrap)
      then have "continues ba ba' (next_region ba) (unat st) (unat sz)"
        using here True align_up_bounds(1) [OF a] e unat_region_end [OF e(2)] r
        by (auto simp: continues_def fits_in_def unat_max word_le_nat_alt)
      with align_up_bounds(3) [OF a] r(1) show ?thesis by blast
    qed
  qed
qed


lemma boot_alloc_sound:
  "boot_alloc ba sz al = Some (Some st, ba') \<Longrightarrow> \<exists>i. continues ba ba' i (unat st) (unat sz) \<and> unat al dvd unat st"
  using boot_alloc_loop_sound [of ba sz al st ba'] by (simp add: boot_alloc_def split: if_splits)

text \<open>Everything allocated later lies behind everything allocated before.\<close>

definition behind :: "boot_allocator \<Rightarrow> nat \<Rightarrow> bool" where
  "behind ba x \<longleftrightarrow> (\<forall>j<length (ba_regions ba). next_region ba \<le> j \<and> mr_kind (ba_regions ba ! j) = Usable \<longrightarrow>
     x \<le> (if j = next_region ba then max (unat (ba_cursor ba)) (unat (mr_start (ba_regions ba ! j)))
          else unat (mr_start (ba_regions ba ! j))))"

lemma address_order_nth:
  "address_order rs \<Longrightarrow> i < j \<Longrightarrow> j < length rs \<Longrightarrow> mr_kind (rs ! i) = Usable \<Longrightarrow> mr_kind (rs ! j) = Usable \<Longrightarrow>
   r_end (rs ! i) \<le> unat (mr_start (rs ! j))"
  by (simp add: address_order_def sorted_wrt_iff_nth_less)

lemma behind_alloc:
  assumes "address_order (ba_regions ba)" "continues ba ba' i st n"
  shows "behind ba' (st + n)"
  unfolding behind_def
proof (intro allI impI)
  let ?rs = "ba_regions ba"
  have c: "ba_regions ba' = ?rs" "i < length ?rs" "mr_kind (?rs ! i) = Usable" "st + n \<le> r_end (?rs ! i)"
    "next_region ba' = i + 1 \<and> ba_cursor ba' = 0 \<or> next_region ba' = i \<and> unat (ba_cursor ba') = st + n"
    using assms(2) by (auto simp: continues_def fits_in_def)
  fix j assume j: "j < length (ba_regions ba')" "next_region ba' \<le> j \<and> mr_kind (ba_regions ba' ! j) = Usable"
  show "st + n \<le> (if j = next_region ba' then max (unat (ba_cursor ba')) (unat (mr_start (ba_regions ba' ! j)))
      else unat (mr_start (ba_regions ba' ! j)))"
  proof (cases "i < j")
    case True
    then have "st + n \<le> unat (mr_start (?rs ! j))"
      using address_order_nth [OF assms(1) True] j c(1,3,4) by simp
    then show ?thesis using c(1) by auto
  next
    case False
    then have "j = next_region ba'" "unat (ba_cursor ba') = st + n" using c(5) j(2) by auto
    then show ?thesis by simp
  qed
qed

lemma behind_start: "behind ba x \<Longrightarrow> continues ba ba' i st n \<Longrightarrow> x \<le> st"
  unfolding behind_def continues_def fits_in_def
  by (elim conjE allE [of _ i]) (auto split: if_splits)

lemma behind_mono: "behind ba y \<Longrightarrow> x \<le> y \<Longrightarrow> behind ba x"
  by (auto simp: behind_def intro: le_trans)

fun boot_allocs :: "boot_allocator \<Rightarrow> (usize \<times> usize) list \<Rightarrow> ((u64 \<times> usize) list \<times> boot_allocator) option" where
  "boot_allocs ba [] = Some ([], ba)"
| "boot_allocs ba ((sz, al) # rs) = do {
     (r, ba) \<leftarrow> boot_alloc ba sz al;
     case r of None \<Rightarrow> Some ([], ba)
     | Some st \<Rightarrow> do { (xs, ba) \<leftarrow> boot_allocs ba rs; Some ((st, sz) # xs, ba) }
   }"

lemma boot_allocs_ordered:
  assumes "address_order (ba_regions ba)" "behind ba x" "boot_allocs ba rs = Some (xs, ba')"
  shows "sorted_wrt (\<lambda>(a, n) (b, m). unat a + unat n \<le> unat b) xs \<and> (\<forall>(a, n)\<in>set xs. x \<le> unat a) \<and>
    (\<forall>(a, n)\<in>set xs. \<exists>r\<in>set (ba_regions ba). fits_in r (unat a) (unat n))"
  using assms
proof (induction ba rs arbitrary: x xs rule: boot_allocs.induct)
  case (2 ba sz al rs)
  obtain r ba1 where r: "boot_alloc ba sz al = Some (r, ba1)" using 2(4) by (auto simp: bind_eq_Some_conv)
  show ?case
  proof (cases r)
    case None
    with r 2(4) show ?thesis by simp
  next
    case (Some st)
    then obtain ys where ys: "boot_allocs ba1 rs = Some (ys, ba')" "xs = (st, sz) # ys"
      using r 2(4) by (auto simp: bind_eq_Some_conv)
    from boot_alloc_sound r Some obtain i where c: "continues ba ba1 i (unat st) (unat sz)" by blast
    then have reg: "ba_regions ba1 = ba_regions ba" "ba_regions ba ! i \<in> set (ba_regions ba)"
      "fits_in (ba_regions ba ! i) (unat st) (unat sz)" by (simp_all add: continues_def)
    note b = behind_alloc [OF 2(2) c] and xs = behind_start [OF 2(3) c]
    have "address_order (ba_regions ba1)" using 2(2) reg(1) by simp
    from 2(1) [OF r refl Some this b ys(1)] r Some reg xs ys(2) show ?thesis by fastforce
  qed
qed simp

text \<open>The allocator does not panic while rounding up cannot overflow, and finds room if the
  current region, or a later one, has it.\<close>

definition has_room :: "memory_region \<Rightarrow> nat \<Rightarrow> nat \<Rightarrow> nat \<Rightarrow> bool" where
  "has_room r c n al \<longleftrightarrow> mr_kind r = Usable \<and> (max c (unat (mr_start r)) + al - 1) div al * al + n \<le> r_end r"

definition round_to :: "nat \<Rightarrow> nat \<Rightarrow> nat" where
  "round_to al x = (x + al - 1) div al * al"

lemma has_room_alt: "has_room r c n al \<longleftrightarrow> mr_kind r = Usable \<and> round_to al (max c (unat (mr_start r))) + n \<le> r_end r"
  by (simp add: has_room_def round_to_def)

text \<open>One round of the loop: return a block from this region if it has room, else go on.\<close>

lemma boot_alloc_loop_step:
  assumes al: "is_power_of_two al" and here: "next_region ba < length (ba_regions ba)"
    and rb: "mr_kind (ba_regions ba ! next_region ba) = Usable \<Longrightarrow> r_end (ba_regions ba ! next_region ba) + unat al < 2 ^ 64"
    and cur: "unat (ba_cursor ba) + unat al < 2 ^ 64"
  shows "if has_room (ba_regions ba ! next_region ba) (unat (ba_cursor ba)) (unat sz) (unat al)
    then \<exists>st ba'. boot_alloc_loop ba sz al = Some (Some st, ba') \<and>
      unat st = round_to (unat al) (max (unat (ba_cursor ba)) (unat (mr_start (ba_regions ba ! next_region ba))))
    else boot_alloc_loop ba sz al = boot_alloc_loop (skip_region ba) sz al"
proof (cases "mr_kind (ba_regions ba ! next_region ba) = Usable")
  case False
  with here show ?thesis by (simp add: boot_alloc_loop.simps [of ba] has_room_def Let_def)
next
  case True
  let ?r = "ba_regions ba ! next_region ba"
  have "unat (max (ba_cursor ba) (mr_start ?r)) + unat al < 2 ^ 64"
    using rb [OF True] cur by (simp add: unat_max r_end_def max_def)
  from align_up_eq [OF al this] obtain a where a: "align_up (max (ba_cursor ba) (mr_start ?r)) al = Some a"
    "unat a = round_to (unat al) (max (unat (ba_cursor ba)) (unat (mr_start ?r)))"
    unfolding unat_max round_to_def by blast
  obtain re where re: "region_end ?r = Some re" "unat re = r_end ?r"
    using rb [OF True] unat_region_end [of ?r] by (auto simp: region_end_eq)
  show ?thesis
  proof (cases "has_room ?r (unat (ba_cursor ba)) (unat sz) (unat al)")
    case fit: True
    then have "unat a + unat sz \<le> unat re" using a(2) re(2) by (simp add: has_room_alt)
    moreover from this have "unat a + unat sz < 2 ^ 64" using unat_u64_bound [of re] by simp
    ultimately have "uadd a sz = Some (a + sz)" "a + sz \<le> re"
      by (simp_all add: uadd_def word_le_nat_alt unat_add_no_wrap)
    with here True a re(1) fit show ?thesis by (simp add: boot_alloc_loop.simps [of ba] Let_def)
  next
    case nofit: False
    then have "unat re < unat a + unat sz" using a(2) re(2) True by (simp add: has_room_alt)
    then have "\<not> e \<le> re" if "uadd a sz = Some e" for e
      using that by (auto simp: uadd_eq_Some word_le_nat_alt unat_add_no_wrap)
    with here True a(1) re(1) nofit show ?thesis
      by (auto simp: boot_alloc_loop.simps [of ba] Let_def split: option.splits)
  qed
qed

text \<open>If the region \<open>j\<close> has room, so that no rounding overflows, the allocation succeeds, at or
  before where it would lie in \<open>j\<close>.\<close>

definition cursor_in :: "boot_allocator \<Rightarrow> nat \<Rightarrow> nat" where
  "cursor_in ba j = (if j = next_region ba then unat (ba_cursor ba) else 0)"

lemma boot_alloc_loop_finds:
  assumes al: "is_power_of_two al" and ord: "address_order (ba_regions ba)"
    and bounds: "\<And>r. r \<in> set (ba_regions ba) \<Longrightarrow> mr_kind r = Usable \<Longrightarrow> r_end r + unat al < 2 ^ 64"
    and cur: "unat (ba_cursor ba) + unat al < 2 ^ 64"
    and j: "next_region ba \<le> j" "j < length (ba_regions ba)"
    and room: "has_room (ba_regions ba ! j) (cursor_in ba j) (unat sz) (unat al)"
  shows "\<exists>st ba'. boot_alloc_loop ba sz al = Some (Some st, ba') \<and>
    unat st \<le> round_to (unat al) (max (cursor_in ba j) (unat (mr_start (ba_regions ba ! j))))"
  using ord bounds cur j room
proof (induction "length (ba_regions ba) - next_region ba" arbitrary: ba rule: less_induct)
  case less
  let ?r = "ba_regions ba ! next_region ba" and ?j = "ba_regions ba ! j"
  have here: "next_region ba < length (ba_regions ba)" using less.prems by simp
  have rb: "mr_kind ?r = Usable \<Longrightarrow> r_end ?r + unat al < 2 ^ 64" using less.prems(2) here by simp
  note step = boot_alloc_loop_step [OF al here rb less.prems(3), of sz]
  show ?case
  proof (cases "has_room ?r (unat (ba_cursor ba)) (unat sz) (unat al)")
    case True
    with step obtain st ba' where st: "boot_alloc_loop ba sz al = Some (Some st, ba')"
      "unat st = round_to (unat al) (max (unat (ba_cursor ba)) (unat (mr_start ?r)))" by auto
    have "unat st \<le> round_to (unat al) (max (cursor_in ba j) (unat (mr_start ?j)))"
    proof (cases "j = next_region ba")
      case False
      then have "unat st \<le> r_end ?r" "r_end ?r \<le> unat (mr_start ?j)"
        using True st(2) less.prems(5,6) address_order_nth [OF less.prems(1), of "next_region ba" j] less.prems(4)
        by (auto simp: has_room_alt)
      moreover have "unat (mr_start ?j) \<le> round_to (unat al) (max (cursor_in ba j) (unat (mr_start ?j)))"
        using round_up_bounds(1) [OF is_power_of_two_pos [OF al], of "max (cursor_in ba j) (unat (mr_start ?j))"]
        by (simp add: round_to_def)
      ultimately show ?thesis by linarith
    qed (use st in \<open>simp add: cursor_in_def\<close>)
    with st show ?thesis by blast
  next
    case False
    then have ne: "j \<noteq> next_region ba" using less.prems(6) by (auto simp: cursor_in_def)
    then have c: "cursor_in (skip_region ba) j = cursor_in ba j" by (simp add: cursor_in_def)
    have "unat al < 2 ^ 64" by (rule unat_u64_bound)
    with False step less.hyps [of "skip_region ba"] less.prems here ne c show ?thesis by simp
  qed
qed

end
