(* ===== verification/Boot_Regions.thy ===== *)
theory Boot_Regions
  imports Boot_Alloc
begin

text \<open>
  The effective memory map of \<^verbatim>\<open>kernel/src/boot.rs\<close> (\<^verbatim>\<open>build_effective\<close>): the addresses it
  calls usable are exactly those of the boot map minus the frames of the kernel image.
\<close>

section \<open>Cutting the kernel image out\<close>

definition r_range :: "memory_region \<Rightarrow> nat set" where
  "r_range r = {unat (mr_start r)..<r_end r}"

definition usable_addrs :: "memory_region list \<Rightarrow> nat set" where
  "usable_addrs rs = (\<Union>r\<in>{r \<in> set rs. mr_kind r = Usable}. r_range r)"

definition r_aligned :: "memory_region \<Rightarrow> bool" where
  "r_aligned r \<longleftrightarrow> mr_kind r = Usable \<longrightarrow> 4096 dvd unat (mr_start r) \<and> 4096 dvd r_end r"

text \<open>What becomes of one region.\<close>

definition cut :: "u64 \<Rightarrow> u64 \<Rightarrow> u64 \<Rightarrow> memory_region \<Rightarrow> memory_region list" where
  "cut kl ks ke r =
     (if mr_kind r = Usable \<and> kl \<noteq> 0 \<and> unat ks < r_end r \<and> mr_start r < ke
      then (if mr_start r < ks then [\<lparr>mr_start = mr_start r, mr_len = ks - mr_start r, mr_kind = Usable\<rparr>] else []) @
        (if unat ke < r_end r
         then [\<lparr>mr_start = ke, mr_len = mr_start r + mr_len r - ke, mr_kind = Usable\<rparr>] else [])
      else [r])"

lemma usable_addrs_simps [simp]:
  "usable_addrs [] = {}" "usable_addrs (r # rs) = (if mr_kind r = Usable then r_range r else {}) \<union> usable_addrs rs"
  "usable_addrs (rs @ rs') = usable_addrs rs \<union> usable_addrs rs'"
  by (auto simp: usable_addrs_def)

lemma cut_first:
  assumes "mr_start r < ks" "unat ks < r_end r"
  shows "r_end \<lparr>mr_start = mr_start r, mr_len = ks - mr_start r, mr_kind = k\<rparr> = unat ks"
  using assms by (simp add: r_end_def word_less_nat_alt unat_sub word_le_nat_alt)

lemma cut_second:
  assumes "mr_start r < ke" "unat ke < r_end r" "r_end r < 2 ^ 64"
  shows "r_end \<lparr>mr_start = ke, mr_len = mr_start r + mr_len r - ke, mr_kind = k\<rparr> = r_end r"
proof -
  have "unat (mr_start r + mr_len r) = r_end r" using assms(3) by (simp add: r_end_def unat_add_no_wrap)
  then show ?thesis using assms(2) by (simp add: r_end_def unat_sub word_le_nat_alt)
qed

lemma cut_addrs:
  assumes "mr_kind r = Usable \<Longrightarrow> r_end r < 2 ^ 64" "kl \<noteq> 0 \<Longrightarrow> ks < ke"
  shows "usable_addrs (cut kl ks ke r) = usable_addrs [r] - (if kl \<noteq> 0 then {unat ks..<unat ke} else {})"
  using assms by (auto simp: cut_def r_range_def cut_first cut_second word_less_nat_alt)

lemma cut_pieces:
  assumes "mr_kind r = Usable \<Longrightarrow> r_end r < 2 ^ 64" "p \<in> set (cut kl ks ke r)"
  shows "mr_kind p = mr_kind r" "unat (mr_start r) \<le> unat (mr_start p)" "r_end p \<le> r_end r"
  using assms by (auto simp: cut_def cut_first cut_second word_less_nat_alt split: if_splits)

lemma cut_aligned:
  assumes "mr_kind r = Usable \<Longrightarrow> r_end r < 2 ^ 64" "r_aligned r" "4096 dvd unat ks" "4096 dvd unat ke"
    "p \<in> set (cut kl ks ke r)"
  shows "r_aligned p"
  using assms by (auto simp: cut_def r_aligned_def cut_first cut_second split: if_splits)

lemma cut_order:
  assumes "mr_kind r = Usable \<Longrightarrow> r_end r < 2 ^ 64" "kl \<noteq> 0 \<Longrightarrow> ks < ke"
  shows "address_order (cut kl ks ke r)"
  using assms by (auto simp: cut_def address_order_def cut_first cut_second word_less_nat_alt)

lemma address_order_append:
  "address_order (rs @ rs') \<longleftrightarrow> address_order rs \<and> address_order rs' \<and>
     (\<forall>a\<in>set rs. \<forall>b\<in>set rs'. mr_kind a = Usable \<and> mr_kind b = Usable \<longrightarrow> r_end a \<le> unat (mr_start b))"
  by (simp add: address_order_def sorted_wrt_append)

definition usable_no_wrap :: "memory_region list \<Rightarrow> bool" where
  "usable_no_wrap rs \<longleftrightarrow> (\<forall>r\<in>set rs. mr_kind r = Usable \<longrightarrow> r_end r < 2 ^ 64)"

definition cut_all :: "u64 \<Rightarrow> u64 \<Rightarrow> u64 \<Rightarrow> memory_region list \<Rightarrow> memory_region list" where
  "cut_all kl ks ke rs = concat (map (cut kl ks ke) rs)"

lemma cut_all_simps [simp]: "cut_all kl ks ke [] = []"
  "cut_all kl ks ke (r # rs) = cut kl ks ke r @ cut_all kl ks ke rs"
  by (simp_all add: cut_all_def)

lemma cut_all_props:
  assumes "usable_no_wrap rs" "kl \<noteq> 0 \<Longrightarrow> ks < ke"
  shows "usable_addrs (cut_all kl ks ke rs) = usable_addrs rs - (if kl \<noteq> 0 then {unat ks..<unat ke} else {})"
    "usable_no_wrap (cut_all kl ks ke rs)"
    "\<lbrakk>4096 dvd unat ks; 4096 dvd unat ke; \<forall>r\<in>set rs. r_aligned r\<rbrakk> \<Longrightarrow> \<forall>r\<in>set (cut_all kl ks ke rs). r_aligned r"
proof -
  show "usable_addrs (cut_all kl ks ke rs) = usable_addrs rs - (if kl \<noteq> 0 then {unat ks..<unat ke} else {})"
    using assms by (induction rs) (auto simp: usable_no_wrap_def cut_addrs)
  have piece: "\<exists>r\<in>set rs. p \<in> set (cut kl ks ke r) \<and> (mr_kind r = Usable \<longrightarrow> r_end r < 2 ^ 64)"
    if "p \<in> set (cut_all kl ks ke rs)" for p
    using that assms(1) by (auto simp: cut_all_def usable_no_wrap_def)
  show "usable_no_wrap (cut_all kl ks ke rs)"
    unfolding usable_no_wrap_def using piece cut_pieces by (metis le_less_trans)
  show "\<lbrakk>4096 dvd unat ks; 4096 dvd unat ke; \<forall>r\<in>set rs. r_aligned r\<rbrakk> \<Longrightarrow> \<forall>r\<in>set (cut_all kl ks ke rs). r_aligned r"
    using piece cut_aligned by metis
qed

lemma cut_all_order:
  assumes "usable_no_wrap rs" "kl \<noteq> 0 \<Longrightarrow> ks < ke" "address_order rs"
  shows "address_order (cut_all kl ks ke rs)"
  using assms
proof (induction rs)
  case (Cons r rs)
  have r: "mr_kind r = Usable \<Longrightarrow> r_end r < 2 ^ 64" and rs: "usable_no_wrap rs" "address_order rs"
    using Cons.prems by (auto simp: usable_no_wrap_def address_order_def)
  have "r_end a \<le> unat (mr_start b)"
    if ab: "a \<in> set (cut kl ks ke r)" "b \<in> set (cut_all kl ks ke rs)" "mr_kind a = Usable" "mr_kind b = Usable" for a b
  proof -
    obtain r' where r': "r' \<in> set rs" "b \<in> set (cut kl ks ke r')" using ab(2) by (auto simp: cut_all_def)
    then have w: "mr_kind r' = Usable \<Longrightarrow> r_end r' < 2 ^ 64" using rs by (auto simp: usable_no_wrap_def)
    note a = cut_pieces [OF r ab(1)] and b = cut_pieces [OF w r'(2)]
    have "r_end r \<le> unat (mr_start r')" using Cons.prems(3) r'(1) a b ab by (auto simp: address_order_def)
    with a b show ?thesis by linarith
  qed
  then show ?case
    using Cons.IH [OF rs(1) _ rs(2)] cut_order [OF r] Cons.prems(2) by (auto simp: address_order_append)
qed (simp add: address_order_def)

lemma push_region_eq: "push_region out r = Some out' \<longleftrightarrow> length out < 128 \<and> out' = out @ [r]"
  by (auto simp: push_region_def kconsts)

text \<open>One round of the loop appends what \<open>cut\<close> says, unless that overflows the array.\<close>

lemma split_image_eq:
  assumes "region_end r = Some e" "mr_kind r = Usable" "kl \<noteq> 0" "ks < e" "mr_start r < ke"
    "length out + length (cut kl ks ke r) \<le> 128"
  shows "split_image ks ke r out = Some (out @ cut kl ks ke r)"
proof -
  have e: "unat e = r_end r" "e = mr_start r + mr_len r" using assms(1) unat_region_end by (auto simp: region_end_eq)
  have c: "ks < e \<longleftrightarrow> unat ks < r_end r" "ke < e \<longleftrightarrow> unat ke < r_end r" using e(1) by (simp_all add: word_less_nat_alt)
  have u: "mr_start r < ks \<Longrightarrow> usub ks (mr_start r) = Some (ks - mr_start r)" "ke < e \<Longrightarrow> usub e ke = Some (e - ke)"
    by (simp_all add: usub_def less_imp_le)
  show ?thesis
    using assms c u unfolding e(2)
    by (cases "mr_start r < ks"; cases "ke < e") (simp_all add: split_image_def cut_def push_region_def kconsts e(2) Let_def)
qed

lemma effective_loop_eq:
  assumes "usable_no_wrap rs" "length out + length (cut_all kl ks ke rs) < 128"
  shows "effective_loop kl ks ke rs out = Some (Inr (out @ cut_all kl ks ke rs))"
  using assms
proof (induction rs arbitrary: out)
  case (Cons r rs)
  let ?c = "cut kl ks ke r"
  have w: "usable_no_wrap rs" and r: "mr_kind r = Usable \<Longrightarrow> r_end r < 2 ^ 64"
    using Cons.prems by (auto simp: usable_no_wrap_def)
  have l: "length out + length ?c < 128" using Cons.prems(2) by simp
  have rest: "effective_loop kl ks ke rs (out @ ?c) = Some (Inr (out @ ?c @ cut_all kl ks ke rs))"
    using Cons.IH [OF w, of "out @ ?c"] Cons.prems(2) by simp
  show ?case
  proof (cases "mr_kind r = Usable")
    case False
    then have "?c = [r]" by (simp add: cut_def)
    then show ?thesis using False rest l by (simp add: push_region_def kconsts)
  next
    case True
    then obtain e where e: "region_end r = Some e" "unat e = r_end r"
      using r unat_region_end [of r] by (auto simp: region_end_eq)
    then have c: "ks < e \<longleftrightarrow> unat ks < r_end r" by (simp add: word_less_nat_alt)
    show ?thesis
    proof (cases "kl \<noteq> 0 \<and> ks < e \<and> mr_start r < ke")
      case t: True
      then have "split_image ks ke r out = Some (out @ ?c)" using split_image_eq [OF e(1) True, of kl] l by simp
      then show ?thesis using True e(1) t rest l by (simp add: kconsts)
    next
      case f: False
      then have "?c = [r]" using c True by (auto simp: cut_def)
      then show ?thesis using True e(1) f rest l by (auto simp: push_region_def kconsts)
    qed
  qed
qed simp


lemma push_regionD: "push_region out r = Some out' \<Longrightarrow> out' = out @ [r]"
  by (simp add: push_region_eq)

lemma split_imageD:
  assumes "split_image ks ke r out = Some out'" "mr_kind r = Usable" "kl \<noteq> 0" "unat ks < r_end r" "mr_start r < ke"
  shows "out' = out @ cut kl ks ke r"
proof -
  obtain e where e: "region_end r = Some e" using assms(1) by (auto simp: split_image_def bind_eq_Some_conv Let_def)
  then have "e = mr_start r + mr_len r" "ke < e \<longleftrightarrow> unat ke < r_end r"
    using unat_region_end [OF e] by (auto simp: region_end_eq word_less_nat_alt)
  with assms e show ?thesis
    by (auto simp: split_image_def cut_def bind_eq_Some_conv usub_eq_Some Let_def split: if_splits dest!: push_regionD)
qed

lemma effective_loopD:
  assumes "effective_loop kl ks ke rs out = Some (Inr res)"
  shows "usable_no_wrap rs \<and> res = out @ cut_all kl ks ke rs"
  using assms
proof (induction rs arbitrary: out)
  case (Cons r rs)
  have step: "usable_no_wrap (r # rs) \<and> res = out @ cut_all kl ks ke (r # rs)"
    if "effective_loop kl ks ke rs (out @ cut kl ks ke r) = Some (Inr res)" "mr_kind r = Usable \<longrightarrow> r_end r < 2 ^ 64"
    using Cons.IH [OF that(1)] that(2) by (simp add: usable_no_wrap_def)
  show ?case
  proof (cases "mr_kind r = Usable")
    case False
    then have "cut kl ks ke r = [r]" by (simp add: cut_def)
    with False Cons.prems step show ?thesis
      by (auto simp: bind_eq_Some_conv split: if_splits dest!: push_regionD)
  next
    case True
    then obtain e where e: "region_end r = Some e" using Cons.prems by (auto simp: bind_eq_Some_conv)
    then have ew: "r_end r < 2 ^ 64" "ks < e \<longleftrightarrow> unat ks < r_end r"
      using unat_region_end [OF e] by (auto simp: region_end_eq word_less_nat_alt)
    show ?thesis
    proof (cases "kl \<noteq> 0 \<and> ks < e \<and> mr_start r < ke")
      case t: True
      then obtain out' where "split_image ks ke r out = Some out'" "effective_loop kl ks ke rs out' = Some (Inr res)"
        using Cons.prems True e by (auto simp: bind_eq_Some_conv split: if_splits)
      with split_imageD [OF _ True, of ks ke out out' kl] t ew step show ?thesis by auto
    next
      case f: False
      then have "cut kl ks ke r = [r]" using ew True by (auto simp: cut_def)
      with f True e ew Cons.prems step show ?thesis
        by (auto simp: bind_eq_Some_conv split: if_splits dest!: push_regionD)
    qed
  qed
qed (simp add: usable_no_wrap_def)

text \<open>The frames the kernel image touches.\<close>

definition image_range :: "boot_info \<Rightarrow> nat set" where
  "image_range boot = (let (start, len) = bi_kernel_image boot in
     if len = 0 then {} else
       {unat start div 4096 * 4096..<(unat start + unat len + 4095) div 4096 * 4096})"

lemma FRAME_SIZE_pow: "is_power_of_two FRAME_SIZE" "unat FRAME_SIZE = 4096"
  by (auto simp: is_power_of_two_iff kconsts intro!: exI [of _ 12])

lemma round_down_eq: "\<exists>r. round_down v FRAME_SIZE = Some r \<and> unat r = unat v div 4096 * 4096"
  using and_not_low_bits [of 12 v] by (simp add: round_down_def usub_def kconsts)

lemma build_effectiveD:
  assumes "build_effective boot = Some (Inr rs)"
  shows "usable_no_wrap (bi_regions boot) \<and>
    (\<exists>kl ks ke. rs = cut_all kl ks ke (bi_regions boot) \<and> (kl \<noteq> 0 \<longrightarrow> ks < ke) \<and> 4096 dvd unat ks \<and> 4096 dvd unat ke \<and>
      (if kl \<noteq> 0 then {unat ks..<unat ke} else {}) = image_range boot)"
proof -
  obtain st kl where b: "bi_kernel_image boot = (st, kl)" by fastforce
  show ?thesis
  proof (cases "kl = 0")
    case True
    then show ?thesis
      using assms b effective_loopD [of 0 0 0 "bi_regions boot" "[]" rs]
      by (auto simp: build_effective_def image_range_def intro!: exI [of _ 0])
  next
    case False
    obtain ks where ks: "round_down st FRAME_SIZE = Some ks" "unat ks = unat st div 4096 * 4096"
      using round_down_eq by blast
    obtain e ke where e: "uadd st kl = Some e" "align_up e FRAME_SIZE = Some ke"
      and run: "effective_loop kl ks ke (bi_regions boot) [] = Some (Inr rs)"
      using assms b False ks(1) by (auto simp: build_effective_def round_up_def bind_eq_Some_conv)
    have ke: "unat ke = (unat st + unat kl + 4095) div 4096 * 4096"
      using align_up_SomeD [OF e(2)] e(1) by (simp add: FRAME_SIZE_pow uadd_eq_Some unat_add_no_wrap)
    have "0 < unat kl" using False by (simp add: unat_gt_0)
    then have "unat st < unat ke" using round_up_bounds(1) [of 4096 "unat st + unat kl"] ke by simp
    moreover have "unat ks \<le> unat st" using ks(2) by simp
    ultimately have "ks < ke" by (simp add: word_less_nat_alt)
    moreover have "(if kl \<noteq> 0 then {unat ks..<unat ke} else {}) = image_range boot"
      using False by (simp add: image_range_def b ks(2) ke)
    moreover have "4096 dvd unat ks" "4096 dvd unat ke" by (simp_all add: ks(2) ke)
    ultimately show ?thesis using effective_loopD [OF run] by (metis append_Nil)
  qed
qed

end
