(* ===== verification/Boot_Frames.thy ===== *)
theory Boot_Frames
  imports Boot_Regions
begin

text \<open>
  What the marking and carving loops of \<^verbatim>\<open>pmm_init\<close> do to the frame table: exactly the frames
  of the effective usable regions outside the kept-out range become Free, and exactly the frames
  of the untyped specifications become Untyped.
\<close>

section \<open>Marking frames\<close>

definition set_owners :: "pmm \<Rightarrow> u32 set \<Rightarrow> frame_owner \<Rightarrow> pmm" where
  "set_owners s F ow = s\<lparr>infos := (\<lambda>f. if f \<in> F then (infos s f)\<lparr>owner_word := raw ow\<rparr> else infos s f)\<rparr>"

lemma set_owners_simps [simp]:
  "infos (set_owners s F ow) f = (if f \<in> F then (infos s f)\<lparr>owner_word := raw ow\<rparr> else infos s f)"
  "ft_num (set_owners s F ow) = ft_num s" "ft_base (set_owners s F ow) = ft_base s"
  "phys_map_base (set_owners s F ow) = phys_map_base s" "mem (set_owners s F ow) = mem s"
  "shards (set_owners s F ow) = shards s" "global (set_owners s F ow) = global s"
  "in_table (set_owners s F ow) f = in_table s f"
  by (simp_all add: set_owners_def in_table_def)

lemma set_owners_empty [simp]: "set_owners s {} ow = s"
  by (simp add: set_owners_def)

lemma set_owners_union: "set_owners (set_owners s F ow) G ow = set_owners s (F \<union> G) ow"
  by (auto simp: set_owners_def fun_eq_iff)

lemma try_set_owner_eq:
  "ft_base s \<noteq> 0 \<Longrightarrow> try_set_owner s f a b = (if in_table s f
     then Some (owner (infos s f) = a, if owner (infos s f) = a then set_owners s {f} b else s) else None)"
  by (cases a) (auto simp: try_set_owner_def frame_info_def transition_def in_table_def owner_def
      put_info_def set_owners_def fun_eq_iff intro!: frame_state.fold_congs)

definition idx_frames :: "u64 list \<Rightarrow> u32 set" where
  "idx_frames idxs = {f. ucast f \<in> set idxs}"

lemma idx_frames_Cons: "unat i < 2 ^ 32 \<Longrightarrow> idx_frames (i # is) = insert (ucast i) (idx_frames is)"
proof -
  assume i: "unat i < 2 ^ 32"
  have "ucast f = i \<longleftrightarrow> f = ucast i" for f :: u32
  proof
    show "f = ucast i" if "ucast f = i" using that ucast_down_up [where 'a = 32 and 'b = 64, of f] by simp
    show "ucast f = i" if "f = ucast i"
      using that i by (simp add: word_unat_eq_iff unat_ucast_down unat_ucast_up)
  qed
  then show ?thesis by (auto simp: idx_frames_def)
qed

text \<open>The frames the boot path leaves alone: the low megabyte, the frame table and the heap.\<close>

definition kept_out :: "nat \<Rightarrow> nat \<Rightarrow> nat \<Rightarrow> bool" where
  "kept_out lo hi x \<longleftrightarrow> x < 2 ^ 20 \<or> (lo \<le> x \<and> x < hi)"

definition mark_set :: "u64 list \<Rightarrow> nat \<Rightarrow> nat \<Rightarrow> u32 set" where
  "mark_set idxs lo hi = {f \<in> idx_frames idxs. \<not> kept_out lo hi (unat f * 4096)}"

lemma mark_set_Cons:
  "unat i < 2 ^ 32 \<Longrightarrow> mark_set (i # is) lo hi =
     (if kept_out lo hi (unat i * 4096) then {} else {ucast i}) \<union> mark_set is lo hi"
  by (auto simp: mark_set_def idx_frames_Cons unat_ucast_down)

lemma mark_set_Nil [simp]: "mark_set [] lo hi = {}"
  by (simp add: mark_set_def idx_frames_def)

lemma mark_guard:
  assumes "unat i < 2 ^ 32"
  shows "umul i FRAME_SIZE = Some (i * 4096)"
    "(i * 4096 < LEGACY_END \<or> lo \<le> i * 4096 \<and> i * 4096 < hi) \<longleftrightarrow> kept_out (unat lo) (unat hi) (unat i * 4096)"
proof -
  have m: "unat (i * 4096) = unat i * 4096" using assms by (simp add: unat_mult_no_wrap)
  show "umul i FRAME_SIZE = Some (i * 4096)" using assms by (simp add: umul_def kconsts)
  show "(i * 4096 < LEGACY_END \<or> lo \<le> i * 4096 \<and> i * 4096 < hi) \<longleftrightarrow> kept_out (unat lo) (unat hi) (unat i * 4096)"
    by (simp add: kept_out_def word_less_nat_alt word_le_nat_alt m kconsts)
qed

lemma mark_frames_Cons:
  assumes "unat i < 2 ^ 32" "ft_base s \<noteq> 0"
  shows "mark_frames s (i # idxs) lo hi =
    (if kept_out (unat lo) (unat hi) (unat i * 4096) then mark_frames s idxs lo hi
     else if \<not> in_table s (ucast i) then None
     else if owner (infos s (ucast i)) = RESERVED then mark_frames (set_owners s {ucast i} FREE) idxs lo hi
     else Some (Inl ''overlapping memory map entries''))"
  unfolding mark_guard(2) [OF assms(1), symmetric]
  using mark_guard(1) [OF assms(1)] assms(2) by (auto simp: try_set_owner_eq mark_frames.simps(2))

declare mark_frames.simps(2) [simp del]

lemma mark_framesD:
  assumes "mark_frames s idxs lo hi = Some (Inr s')" "\<forall>i\<in>set idxs. unat i < 2 ^ 32" "ft_base s \<noteq> 0"
  shows "s' = set_owners s (mark_set idxs (unat lo) (unat hi)) FREE \<and>
    (\<forall>f\<in>mark_set idxs (unat lo) (unat hi). in_table s f \<and> owner (infos s f) = RESERVED)"
  using assms
proof (induction idxs arbitrary: s)
  case (Cons i idxs)
  then have i: "unat i < 2 ^ 32" by simp
  show ?case
  proof (cases "kept_out (unat lo) (unat hi) (unat i * 4096)")
    case True
    with Cons i show ?thesis by (simp add: mark_frames_Cons mark_set_Cons)
  next
    case False
    let ?s = "set_owners s {ucast i} FREE"
    have t: "in_table s (ucast i)" "owner (infos s (ucast i)) = RESERVED" "mark_frames ?s idxs lo hi = Some (Inr s')"
      using Cons.prems False i by (auto simp: mark_frames_Cons split: if_splits)
    with False Cons.IH [OF t(3)] Cons.prems(2,3) i show ?thesis
      by (auto simp: mark_set_Cons set_owners_union split: if_splits)
  qed
qed simp

lemma ucast_ucast_idx: "unat i < 2 ^ 32 \<Longrightarrow> ucast (ucast i :: u32) = i" for i :: u64
  by (simp add: word_unat_eq_iff unat_ucast_down unat_ucast_up)

lemma mark_framesI:
  assumes "\<forall>i\<in>set idxs. unat i < 2 ^ 32" "ft_base s \<noteq> 0" "distinct idxs"
    "\<forall>f\<in>mark_set idxs (unat lo) (unat hi). in_table s f \<and> owner (infos s f) = RESERVED"
  shows "mark_frames s idxs lo hi = Some (Inr (set_owners s (mark_set idxs (unat lo) (unat hi)) FREE))"
  using assms
proof (induction idxs arbitrary: s)
  case (Cons i idxs)
  then have i: "unat i < 2 ^ 32" by simp
  then have "ucast i \<notin> mark_set idxs (unat lo) (unat hi)"
    using Cons.prems(3) by (simp add: mark_set_def idx_frames_def ucast_ucast_idx)
  then have "\<forall>f\<in>mark_set idxs (unat lo) (unat hi). in_table s f \<and> owner (infos (set_owners s {ucast i} FREE) f) = RESERVED"
    using Cons.prems(4) i by (auto simp: mark_set_Cons)
  with i Cons.prems Cons.IH [of s] Cons.IH [of "set_owners s {ucast i} FREE"] show ?case
    by (auto simp: mark_frames_Cons mark_set_Cons set_owners_union simp del: set_owners_simps(1))
qed simp

text \<open>The frames of a list of regions.\<close>

definition region_frames :: "memory_region list \<Rightarrow> nat \<Rightarrow> nat \<Rightarrow> u32 set" where
  "region_frames rs lo hi = {f. unat f * 4096 \<in> usable_addrs rs \<and> \<not> kept_out lo hi (unat f * 4096)}"

lemma ceil_div_aligned:
  assumes "4096 dvd unat a" "unat a + 4096 < 2 ^ 64"
  shows "ceil_div a FRAME_SIZE = Some (a div 4096)" "unat (a div 4096) = unat a div 4096"
proof -
  show d: "unat (a div 4096) = unat a div 4096" by (simp add: unat_div)
  have t: "unat (a + 4096) = unat a + 4096" using assms(2) by (simp add: unat_add_no_wrap)
  then have "1 \<le> a + 4096" by (simp add: word_le_nat_alt)
  have "unat (a + 4095) = unat a + 4095" using assms(2) by (simp add: unat_add_no_wrap)
  moreover have "(unat a + 4095) div 4096 = unat a div 4096" using assms(1) by (auto elim: dvdE)
  ultimately have "(a + 4095) div 4096 = a div 4096" by (simp add: word_unat_eq_iff unat_div)
  then have "(4095 + a) div 4096 = a div 4096" by (simp only: add.commute)
  then show "ceil_div a FRAME_SIZE = Some (a div 4096)"
    using assms(2) \<open>1 \<le> a + 4096\<close> by (simp add: ceil_div_def uadd_def usub_def kconsts)
qed

lemma region_idx:
  assumes r: "mr_kind r = Usable" "r_aligned r" "r_end r \<le> 2 ^ 44"
  obtains e where "region_end r = Some e" "ceil_div (mr_start r) FRAME_SIZE = Some (mr_start r div 4096)"
    "ceil_div e FRAME_SIZE = Some (e div 4096)"
    "\<forall>i\<in>set (map word_of_nat [unat (mr_start r div 4096)..<unat (e div 4096)] :: u64 list). unat i < 2 ^ 32"
    "distinct (map word_of_nat [unat (mr_start r div 4096)..<unat (e div 4096)] :: u64 list)"
    "mark_set (map word_of_nat [unat (mr_start r div 4096)..<unat (e div 4096)]) lo hi = region_frames [r] lo hi"
proof -
  have d: "4096 dvd unat (mr_start r)" "4096 dvd r_end r" using r by (simp_all add: r_aligned_def)
  obtain e where e: "region_end r = Some e" "unat e = r_end r"
    using r(3) unat_region_end [of r] by (auto simp: region_end_eq)
  have le: "unat (mr_start r) \<le> r_end r" by (simp add: r_end_def)
  note a = ceil_div_aligned [of "mr_start r"] ceil_div_aligned [of e]
  have n: "unat (e div 4096) = r_end r div 4096" "unat (mr_start r div 4096) = unat (mr_start r) div 4096"
    using d e r(3) le a by auto
  have small: "k < 2 ^ 32" if "k < r_end r div 4096" for k
    using that r(3) by (auto simp: less_mult_imp_div_less)
  have u: "unat (word_of_nat k :: u64) = k" if "k < r_end r div 4096" for k
    using small [OF that] by (simp add: unsigned_of_nat take_bit_nat_eq_self)
  let ?is = "map word_of_nat [unat (mr_start r div 4096)..<unat (e div 4096)] :: u64 list"
  have s1: "\<forall>i\<in>set ?is. unat i < 2 ^ 32" using small u by (auto simp: n)
  have s2: "distinct ?is"
    unfolding distinct_map using u by (auto simp: n inj_on_def) (metis u)
  have "ucast f \<in> set ?is \<longleftrightarrow> unat f * 4096 \<in> r_range r" for f :: u32
  proof -
    have "ucast f \<in> set ?is \<longleftrightarrow> (\<exists>k. unat (mr_start r) div 4096 \<le> k \<and> k < r_end r div 4096 \<and> unat f = k)"
      using u by (auto simp: n image_iff word_unat_eq_iff unat_ucast_up)
    also have "\<dots> \<longleftrightarrow> unat f * 4096 \<in> r_range r"
      using d by (auto simp: r_range_def elim!: dvdE)
    finally show ?thesis .
  qed
  then have "mark_set ?is lo hi = region_frames [r] lo hi"
    using r(1) by (auto simp: mark_set_def region_frames_def idx_frames_def)
  with s1 s2 e a d r(3) le show thesis by (intro that [of e]) auto
qed

lemma region_frames_simps [simp]:
  "region_frames [] lo hi = {}" "mr_kind r \<noteq> Usable \<Longrightarrow> region_frames (r # rs) lo hi = region_frames rs lo hi"
  by (auto simp: region_frames_def)

lemma region_frames_Cons:
  "mr_kind r = Usable \<Longrightarrow> region_frames (r # rs) lo hi = region_frames [r] lo hi \<union> region_frames rs lo hi"
  by (auto simp: region_frames_def)

definition ram_ok :: "memory_region list \<Rightarrow> bool" where
  "ram_ok rs \<longleftrightarrow> (\<forall>r\<in>set rs. r_aligned r \<and> (mr_kind r = Usable \<longrightarrow> r_end r \<le> 2 ^ 44))"

lemma mark_regionsD:
  assumes "mark_regions s rs lo hi = Some (Inr s')" "ram_ok rs" "ft_base s \<noteq> 0"
  shows "s' = set_owners s (region_frames rs (unat lo) (unat hi)) FREE \<and>
    (\<forall>f\<in>region_frames rs (unat lo) (unat hi). in_table s f \<and> owner (infos s f) = RESERVED)"
  using assms
proof (induction rs arbitrary: s)
  case (Cons r rs)
  then have ram: "ram_ok rs" by (simp add: ram_ok_def)
  show ?case
  proof (cases "mr_kind r = Usable")
    case False
    with Cons ram show ?thesis by simp
  next
    case True
    have ok: "r_aligned r" "r_end r \<le> 2 ^ 44" using Cons.prems(2) True by (simp_all add: ram_ok_def)
    obtain e where e: "region_end r = Some e" "ceil_div (mr_start r) FRAME_SIZE = Some (mr_start r div 4096)"
      "ceil_div e FRAME_SIZE = Some (e div 4096)"
      "\<forall>i\<in>set (map word_of_nat [unat (mr_start r div 4096)..<unat (e div 4096)] :: u64 list). unat i < 2 ^ 32"
      "mark_set (map word_of_nat [unat (mr_start r div 4096)..<unat (e div 4096)]) (unat lo) (unat hi) =
        region_frames [r] (unat lo) (unat hi)"
      by (rule region_idx [OF True ok, of "unat lo" "unat hi"]) blast
    obtain s1 where s1: "mark_frames s (map word_of_nat [unat (mr_start r div 4096)..<unat (e div 4096)]) lo hi = Some (Inr s1)"
      "mark_regions s1 rs lo hi = Some (Inr s')"
      using Cons.prems(1) True e(1-3) by (auto simp: try_bind_Inr)
    note m = mark_framesD [OF s1(1) e(4) Cons.prems(3), unfolded e(5)]
    have "ft_base s1 \<noteq> 0" using m Cons.prems(3) by simp
    from Cons.IH [OF s1(2) ram this] m True show ?thesis
      unfolding region_frames_Cons [OF True, of rs] by (auto simp: set_owners_union split: if_splits)
  qed
qed simp

section \<open>Carving the untyped regions\<close>

definition spec_frames :: "untyped_spec \<Rightarrow> u32 set" where
  "spec_frames sp = {f. unat (us_base_phys sp) \<le> unat f * 4096 \<and> unat f * 4096 < unat (us_base_phys sp) + unat (us_len sp)}"

lemma carve_framesD:
  assumes "carve_frames s fs i = Some (Inr s')" "\<forall>f\<in>set fs. unat f < 2 ^ 32" "ft_base s \<noteq> 0"
  shows "s' = set_owners s (idx_frames fs) (untyped i) \<and> (\<forall>f\<in>idx_frames fs. in_table s f \<and> owner (infos s f) = FREE)"
  using assms
proof (induction fs arbitrary: s)
  case Nil
  then show ?case by (simp add: idx_frames_def)
next
  case (Cons f fs)
  let ?s = "set_owners s {ucast f} (untyped i)"
  have t: "in_table s (ucast f)" "owner (infos s (ucast f)) = FREE" "carve_frames ?s fs i = Some (Inr s')"
    using Cons.prems by (auto simp: try_set_owner_eq split: if_splits)
  with Cons.IH [OF t(3)] Cons.prems(2,3) show ?case
    by (auto simp: idx_frames_Cons set_owners_union split: if_splits)
qed

text \<open>Requests for untyped regions that can be granted.\<close>

definition spec_ok :: "untyped_spec \<Rightarrow> bool" where
  "spec_ok sp \<longleftrightarrow> us_base_phys sp mod 4096 = 0 \<and> us_len sp mod 4096 = 0 \<and> us_len sp \<noteq> 0 \<and>
     unat (us_base_phys sp) + unat (us_len sp) \<le> 2 ^ 44 - 4096 * 2"

text \<open>A granted request in frames: the list of indices the loop runs over.\<close>

definition spec_idxs :: "untyped_spec \<Rightarrow> u64 list" where
  "spec_idxs sp = map word_of_nat [unat (us_base_phys sp div 4096)..<
     unat (us_base_phys sp div 4096) + unat (us_len sp div 4096)]"

lemma aligned_unat: "unat a = unat (a div 4096) * 4096" if "a mod 4096 = 0" for a :: u64
proof -
  have "unat a mod 4096 = 0" using arg_cong [OF that, of unat] by (simp add: unat_mod)
  then show ?thesis by (auto simp: unat_div)
qed

lemma spec_okD:
  assumes "spec_ok sp"
  shows "unat (us_base_phys sp) = unat (us_base_phys sp div 4096) * 4096"
    "unat (us_len sp) = unat (us_len sp div 4096) * 4096" "0 < unat (us_len sp div 4096)"
    "unat (us_base_phys sp div 4096) + unat (us_len sp div 4096) < 0xFFFFFFFF"
proof -
  have al: "us_base_phys sp mod 4096 = 0" "us_len sp mod 4096 = 0" "us_len sp \<noteq> 0"
    "unat (us_base_phys sp) + unat (us_len sp) \<le> 2 ^ 44 - 4096 * 2" using assms by (simp_all add: spec_ok_def)
  show d: "unat (us_base_phys sp) = unat (us_base_phys sp div 4096) * 4096"
    "unat (us_len sp) = unat (us_len sp div 4096) * 4096"
    by (rule aligned_unat [OF al(1)] aligned_unat [OF al(2)])+
  show "unat (us_base_phys sp div 4096) + unat (us_len sp div 4096) < 0xFFFFFFFF" using al(4) d by simp
  show "0 < unat (us_len sp div 4096)" using al(3) d(2) by (metis gr0I mult_zero_left unat_eq_zero)
qed

lemma spec_idx:
  assumes "spec_ok sp"
  shows "\<forall>f\<in>set (spec_idxs sp). unat f < 2 ^ 32" "distinct (spec_idxs sp)" "idx_frames (spec_idxs sp) = spec_frames sp"
proof -
  define b n where bn: "b = unat (us_base_phys sp div 4096)" "n = unat (us_len sp div 4096)"
  note d = spec_okD [OF assms, folded bn] and si = spec_idxs_def [of sp, folded bn]
  have w: "unat (word_of_nat k :: u64) = k" if "k < b + n" for k
    using that d(4) by (simp add: unsigned_of_nat take_bit_nat_eq_self)
  show "\<forall>f\<in>set (spec_idxs sp). unat f < 2 ^ 32" using w d(4) by (auto simp: si)
  have "inj_on (word_of_nat :: nat \<Rightarrow> u64) {b..<b + n}"
    by (rule inj_on_inverseI [of _ unat]) (simp add: w)
  then show "distinct (spec_idxs sp)" by (simp add: distinct_map si)
  have "ucast f \<in> set (spec_idxs sp) \<longleftrightarrow> b \<le> unat f \<and> unat f < b + n" for f :: u32
  proof
    assume "ucast f \<in> set (spec_idxs sp)"
    then obtain k where k: "b \<le> k" "k < b + n" "ucast f = (word_of_nat k :: u64)" by (auto simp: si)
    have "unat (ucast f :: u64) = unat f" by (simp add: unat_ucast_up)
    with k w show "b \<le> unat f \<and> unat f < b + n" by simp
  next
    assume "b \<le> unat f \<and> unat f < b + n"
    then show "ucast f \<in> set (spec_idxs sp)"
      unfolding si set_map set_upt by (intro image_eqI [of _ _ "unat f"]) (simp_all only: of_nat_unat atLeastLessThan_iff)
  qed
  moreover have "f \<in> spec_frames sp \<longleftrightarrow> b \<le> unat f \<and> unat f < b + n" for f
    unfolding spec_frames_def d(1,2) mem_Collect_eq by linarith
  ultimately show "idx_frames (spec_idxs sp) = spec_frames sp" unfolding idx_frames_def by blast
qed

lemma carve_untyped_region_eq:
  "carve_untyped_region s sp i =
     (if us_base_phys sp mod 4096 \<noteq> 0 \<or> us_len sp mod 4096 \<noteq> 0 then Some (Inl ''untyped spec not frame-aligned'')
      else if \<not> spec_ok sp then Some (Inl ''untyped spec has invalid range'')
      else try_bind (carve_frames s (spec_idxs sp) i)
        (\<lambda>s. Some (Inr (s, new_cap i (ucast (us_base_phys sp div 4096)) (ucast (us_len sp div 4096))))))"
proof (cases "us_base_phys sp mod 4096 = 0 \<and> us_len sp mod 4096 = 0")
  case True
  let ?b = "us_base_phys sp div 4096" and ?n = "us_len sp div 4096"
  have d: "unat (us_base_phys sp) = unat ?b * 4096" "unat (us_len sp) = unat ?n * 4096"
    using aligned_unat [of "us_base_phys sp"] aligned_unat [of "us_len sp"] True by auto
  have s: "unat ?b + unat ?n < 2 ^ 64" using d unat_u64_bound [of "us_base_phys sp"] unat_u64_bound [of "us_len sp"] by simp
  then have "0xFFFFFFFF \<le> ?b + ?n \<longleftrightarrow> 0xFFFFFFFF \<le> unat ?b + unat ?n" by (simp add: word_le_nat_alt unat_add_no_wrap)
  moreover have "?n = 0 \<longleftrightarrow> us_len sp = 0" using d(2) by (metis div_0 mult_zero_left unat_0 unat_eq_zero)
  ultimately have "?n = 0 \<or> 0xFFFFFFFF \<le> ?b + ?n \<longleftrightarrow> \<not> spec_ok sp" using True d by (auto simp: spec_ok_def)
  with True s show ?thesis by (simp add: carve_untyped_region_def kconsts Let_def uadd_def spec_idxs_def)
qed (auto simp: carve_untyped_region_def kconsts)

text \<open>Only owner words of frames in the given set change.\<close>

definition only_infos :: "pmm \<Rightarrow> pmm \<Rightarrow> bool" where
  "only_infos s s' \<longleftrightarrow> s' = s\<lparr>infos := infos s'\<rparr>"

lemma only_infos_simps:
  assumes "only_infos s s'"
  shows "ft_num s' = ft_num s" "ft_base s' = ft_base s" "phys_map_base s' = phys_map_base s" "mem s' = mem s"
    "shards s' = shards s" "global s' = global s" "in_table s' f = in_table s f"
proof -
  have e: "s' = s\<lparr>infos := infos s'\<rparr>" using assms by (simp add: only_infos_def)
  show "ft_num s' = ft_num s" "ft_base s' = ft_base s" "phys_map_base s' = phys_map_base s" "mem s' = mem s"
    "shards s' = shards s" "global s' = global s" by (subst e, simp)+
  then show "in_table s' f = in_table s f" by (simp add: in_table_def)
qed

lemma only_infos_set_owners [simp]: "only_infos s (set_owners s F ow)"
  by (simp add: only_infos_def set_owners_def)

lemma only_infos_trans: "only_infos s t \<Longrightarrow> only_infos t u \<Longrightarrow> only_infos s u"
  unfolding only_infos_def by (metis pmm.ext_inject pmm.surjective pmm.update_convs(1) frame_state.update_convs(3) frame_state.select_convs(3))

lemma carve_untyped_regionD:
  assumes "carve_untyped_region s sp i = Some (Inr (s', cap))" "ft_base s \<noteq> 0"
  shows "s' = set_owners s (spec_frames sp) (untyped i) \<and> (\<forall>f\<in>spec_frames sp. in_table s f \<and> owner (infos s f) = FREE) \<and>
    cap_id cap = i \<and> cursor cap = base_frame cap \<and> cap_region cap = spec_frames sp \<and>
    unat (base_frame cap) + unat (num_frames cap) \<le> unat (ft_num s)"
proof -
  define b n where bn: "b = unat (us_base_phys sp div 4096)" "n = unat (us_len sp div 4096)"
  have ok: "spec_ok sp" and run: "carve_frames s (spec_idxs sp) i = Some (Inr s')"
    and cap: "cap = new_cap i (ucast (us_base_phys sp div 4096)) (ucast (us_len sp div 4096))"
    using assms(1) by (auto simp: carve_untyped_region_eq try_bind_Inr split: if_splits)
  note d = spec_okD [OF ok, folded bn]
    and owned = carve_framesD [OF run spec_idx(1) [OF ok] assms(2), unfolded spec_idx(3) [OF ok]]
  have c: "unat (base_frame cap) = b" "unat (num_frames cap) = n"
    using d(4) by (simp_all add: cap new_cap_def unat_ucast_down bn)
  then have "cap_region cap = spec_frames sp"
    unfolding cap_region_def spec_frames_def d(1,2) by (intro Collect_cong) (simp only:, linarith)
  moreover have "b + n \<le> unat (ft_num s)"
  proof -
    obtain m where m: "n = Suc m" using d(3) by (metis gr0_implies_Suc)
    then have f: "unat (word_of_nat (b + m) :: u32) = b + m" using d(4) by (intro unat_of_nat_u32) simp
    then have "word_of_nat (b + m) \<in> spec_frames sp" by (simp add: spec_frames_def d(1,2) m del: of_nat_add)
    with owned have "in_table s (word_of_nat (b + m))" by blast
    with f m show ?thesis by (simp add: in_table_iff del: of_nat_add)
  qed
  ultimately show ?thesis using owned c by (simp add: cap new_cap_def)
qed

lemma carve_specsD:
  assumes "carve_specs s sps k out = Some (Inr (s', out'))" "ft_base s \<noteq> 0" "k + length sps \<le> length out"
  shows "only_infos s s' \<and> length out' = length out \<and> (\<forall>j<k. out' ! j = out ! j) \<and>
    (\<forall>f. f \<notin> (\<Union>sp\<in>set sps. spec_frames sp) \<longrightarrow> infos s' f = infos s f) \<and>
    (\<forall>f\<in>(\<Union>sp\<in>set sps. spec_frames sp). in_table s f \<and> owner (infos s f) = FREE \<and>
       (\<exists>i. infos s' f = (infos s f)\<lparr>owner_word := raw (untyped i)\<rparr>)) \<and>
    (\<forall>i<length sps. cap_region (out' ! (k + i)) = spec_frames (sps ! i) \<and> cap_id (out' ! (k + i)) = word_of_nat (k + i) \<and>
       cursor (out' ! (k + i)) = base_frame (out' ! (k + i)) \<and>
       unat (base_frame (out' ! (k + i))) + unat (num_frames (out' ! (k + i))) \<le> unat (ft_num s) \<and>
       (\<forall>f\<in>spec_frames (sps ! i). owner (infos s' f) = untyped (word_of_nat (k + i))))"
  using assms
proof (induction sps arbitrary: s k out)
  case Nil
  then show ?case by (simp add: only_infos_def)
next
  case (Cons sp sps)
  obtain s1 cap where s1: "carve_untyped_region s sp (word_of_nat k) = Some (Inr (s1, cap))"
    "carve_specs s1 sps (k + 1) (out[k := cap]) = Some (Inr (s', out'))"
    using Cons.prems(1) by (auto simp: try_bind_Inr)
  note c = carve_untyped_regionD [OF s1(1) Cons.prems(2)]
  have b: "ft_base s1 \<noteq> 0" "only_infos s s1" using c Cons.prems(2) by simp_all
  from Cons.IH [OF s1(2) b(1)] Cons.prems(3) have ih: "only_infos s1 s'" "length out' = length out"
    "\<forall>j<k + 1. out' ! j = out[k := cap] ! j"
    "\<And>f. f \<notin> (\<Union>sp\<in>set sps. spec_frames sp) \<Longrightarrow> infos s' f = infos s1 f"
    "\<And>f. f \<in> (\<Union>sp\<in>set sps. spec_frames sp) \<Longrightarrow> in_table s1 f \<and> owner (infos s1 f) = FREE \<and>
       (\<exists>i. infos s' f = (infos s1 f)\<lparr>owner_word := raw (untyped i)\<rparr>)"
    "\<And>i. i < length sps \<Longrightarrow> cap_region (out' ! (k + 1 + i)) = spec_frames (sps ! i) \<and>
       cap_id (out' ! (k + 1 + i)) = word_of_nat (k + 1 + i) \<and> cursor (out' ! (k + 1 + i)) = base_frame (out' ! (k + 1 + i)) \<and>
       unat (base_frame (out' ! (k + 1 + i))) + unat (num_frames (out' ! (k + 1 + i))) \<le> unat (ft_num s1) \<and>
       (\<forall>f\<in>spec_frames (sps ! i). owner (infos s' f) = untyped (word_of_nat (k + 1 + i)))"
    by (auto simp del: of_nat_add)
  have disj: "f \<notin> spec_frames sp" if "f \<in> (\<Union>sp\<in>set sps. spec_frames sp)" for f
    using ih(5) [OF that] c by auto
  show ?case
  proof (intro conjI allI impI ballI)
    show "only_infos s s'" using only_infos_trans b(2) ih(1) by blast
    show "length out' = length out" by (rule ih(2))
    show "out' ! j = out ! j" if "j < k" for j using that ih(3) by simp
    show "infos s' f = infos s f" if "f \<notin> (\<Union>sp\<in>set (sp # sps). spec_frames sp)" for f
      using that ih(4) c by simp
    fix f assume f: "f \<in> (\<Union>sp\<in>set (sp # sps). spec_frames sp)"
    have "in_table s f \<and> owner (infos s f) = FREE \<and> (\<exists>i. infos s' f = infos s f\<lparr>owner_word := raw (untyped i)\<rparr>)"
    proof (cases "f \<in> (\<Union>sp\<in>set sps. spec_frames sp)")
      case True
      from ih(5) [OF this] disj [OF this] c show ?thesis by auto
    next
      case False
      with f have "f \<in> spec_frames sp" by auto
      with ih(4) [OF False] c show ?thesis by auto
    qed
    then show "in_table s f" "owner (infos s f) = FREE" "\<exists>i. infos s' f = infos s f\<lparr>owner_word := raw (untyped i)\<rparr>"
      by blast+
  next
    fix i assume i: "i < length (sp # sps)"
    have "cap_region (out' ! (k + i)) = spec_frames ((sp # sps) ! i) \<and> cap_id (out' ! (k + i)) = word_of_nat (k + i) \<and>
       cursor (out' ! (k + i)) = base_frame (out' ! (k + i)) \<and>
       unat (base_frame (out' ! (k + i))) + unat (num_frames (out' ! (k + i))) \<le> unat (ft_num s) \<and>
       (\<forall>f\<in>spec_frames ((sp # sps) ! i). owner (infos s' f) = untyped (word_of_nat (k + i)))"
    proof (cases i)
      case 0
      then have "out' ! k = cap" using ih(3) Cons.prems(3) by simp
      moreover have "owner (infos s' f) = untyped (word_of_nat k)" if "f \<in> spec_frames sp" for f
      proof -
        have "f \<notin> (\<Union>sp\<in>set sps. spec_frames sp)" using that disj by blast
        from ih(4) [OF this] c that show ?thesis by auto
      qed
      ultimately show ?thesis using 0 c by simp
    next
      case (Suc j)
      then show ?thesis using ih(6) [of j] i c by simp
    qed
    then show "cap_region (out' ! (k + i)) = spec_frames ((sp # sps) ! i)" "cap_id (out' ! (k + i)) = word_of_nat (k + i)"
      "cursor (out' ! (k + i)) = base_frame (out' ! (k + i))"
      "unat (base_frame (out' ! (k + i))) + unat (num_frames (out' ! (k + i))) \<le> unat (ft_num s)"
      "\<And>f. f \<in> spec_frames ((sp # sps) ! i) \<Longrightarrow> owner (infos s' f) = untyped (word_of_nat (k + i))" by blast+
  qed
qed

end
