(* ===== verification/Boot_Init.thy ===== *)
theory Boot_Init
  imports Boot_Frames
begin

text \<open>
  \<^verbatim>\<open>pmm_init\<close> of \<^verbatim>\<open>kernel/src/boot.rs\<close> as a whole: the state a successful initialisation
  leaves, when it succeeds, and the properties of the boot memory manager.
\<close>

section \<open>The initialised memory manager\<close>

lemma max_region_endD:
  assumes "max_region_end rs acc = Some m"
  shows "acc \<le> m \<and> (\<forall>r\<in>set rs. mr_kind r = Usable \<longrightarrow> r_end r \<le> unat m)"
  using assms
proof (induction rs arbitrary: acc)
  case (Cons r rs)
  then show ?case
    by (fastforce simp: bind_eq_Some_conv word_le_nat_alt unat_max dest: unat_region_end split: if_splits)
qed simp

lemma is_aligned_regions:
  assumes "usable_no_wrap rs" "\<not> list_ex (\<lambda>r. mr_kind r = Usable \<and>
    (mr_start r mod FRAME_SIZE \<noteq> 0 \<or> mr_len r mod FRAME_SIZE \<noteq> 0)) rs"
  shows "\<forall>r\<in>set rs. r_aligned r"
proof
  fix r assume r: "r \<in> set rs"
  have "4096 dvd unat a" if "a mod 4096 = 0" for a :: u64
    using arg_cong [OF that, of unat] by (auto simp: unat_mod)
  with r assms(2) show "r_aligned r" by (auto simp: r_aligned_def r_end_def list_ex_iff kconsts)
qed

text \<open>The frames that end up in the kernel pool, given where the frame table starts (\<open>lo\<close>) and
  where the frame table and heap end (\<open>hi\<close>).\<close>

definition boot_pool :: "boot_info \<Rightarrow> untyped_spec list \<Rightarrow> nat \<Rightarrow> nat \<Rightarrow> u32 set" where
  "boot_pool boot specs lo hi = {f. unat f * 4096 \<in> usable_addrs (bi_regions boot) - image_range boot \<and>
     \<not> kept_out lo hi (unat f * 4096) \<and> f \<notin> (\<Union>sp\<in>set specs. spec_frames sp)}"

text \<open>A machine before \<^verbatim>\<open>pmm_init\<close>.\<close>

definition unbooted :: "pmm \<Rightarrow> bool" where
  "unbooted s \<longleftrightarrow> ft_base s = 0 \<and> phys_map_base s = 0 \<and> fresh_lists s"

lemma zero_infos:
  assumes "init_table_zeroed s va n bytes = Some (Inr s')" "umul n SIZE_OF_FRAME_INFO = Some bytes"
  shows "ft_base s' = va" "va \<noteq> 0" "ft_num s' = n" "unat (ucast f :: u64) < unat n \<Longrightarrow> infos s' f = zero_info"
    "phys_map_base s' = phys_map_base s" "fresh_lists s' = fresh_lists s"
proof -
  have b: "unat bytes = unat n * 24" using assms(2) by (auto simp: umul_eq_Some kconsts unat_mult_no_wrap)
  have s': "va \<noteq> 0" "s' = s\<lparr>ft_base := va, ft_num := n,
    infos := (\<lambda>i. if unat i * 24 + 24 \<le> unat bytes then zero_info else infos s i)\<rparr>"
    using assms(1) by (auto simp: init_table_zeroed_def Let_def fun_eq_iff split: if_splits)
  show "ft_base s' = va" "va \<noteq> 0" "ft_num s' = n" "phys_map_base s' = phys_map_base s" "fresh_lists s' = fresh_lists s"
    using s' by (simp_all add: fresh_lists_def)
  assume "unat (ucast f :: u64) < unat n"
  then have "unat f * 24 + 24 \<le> unat bytes" by (simp add: b unat_ucast_up)
  then show "infos s' f = zero_info" using s'(2) by simp
qed

text \<open>The state right before the free list is built.\<close>

definition filled :: "pmm \<Rightarrow> pmm \<Rightarrow> u32 set \<Rightarrow> u32 set \<Rightarrow> bool" where
  "filled s s2 M F \<longleftrightarrow> only_infos s s2 \<and> table_ok s2 \<and> fresh_lists s2 \<and> free_frames s2 = F \<and>
     (\<forall>f. in_table s f \<and> f \<notin> M \<longrightarrow> owner (infos s2 f) = RESERVED) \<and>
     (\<forall>f. in_table s f \<longrightarrow> pin_count (infos s2 f) = 0 \<and> mapping_count (infos s2 f) = 0 \<and> owner (infos s2 f) \<noteq> PENDING)"

lemma fill_state:
  assumes run: "mark_regions s rs lo hi = Some (Inr s1)" "carve_specs s1 specs 0 caps = Some (Inr (s2, caps'))"
    and ram: "ram_ok rs" and base: "ft_base s \<noteq> 0" and n: "unat (ft_num s) < 2 ^ 32" "physmap_covers s (unat (ft_num s))"
    and zero: "\<And>f. in_table s f \<Longrightarrow> infos s f = zero_info" and fresh: "fresh_lists s"
    and len: "length specs \<le> length caps"
  shows "filled s s2 (region_frames rs (unat lo) (unat hi))
    (region_frames rs (unat lo) (unat hi) - (\<Union>sp\<in>set specs. spec_frames sp))"
proof -
  let ?M = "region_frames rs (unat lo) (unat hi)" and ?S = "\<Union>sp\<in>set specs. spec_frames sp"
  note m = mark_regionsD [OF run(1) ram base]
  have b1: "ft_base s1 \<noteq> 0" using m base by simp
  note c = carve_specsD [OF run(2) b1, simplified, OF len]
  have o: "only_infos s s2" using only_infos_trans only_infos_set_owners m c by metis
  note os = only_infos_simps [OF o]
  have i2: "infos s2 f = (if f \<in> ?S then infos s2 f else if f \<in> ?M then zero_info\<lparr>owner_word := raw FREE\<rparr> else zero_info)"
    if "in_table s f" for f
    using c m zero [OF that] by simp
  have iS: "f \<in> ?M \<and> in_table s f \<and> (\<exists>i. infos s2 f = zero_info\<lparr>owner_word := raw (untyped i)\<rparr>)" if "f \<in> ?S" for f
  proof -
    have t: "in_table s1 f" "owner (infos s1 f) = FREE" "\<exists>i. infos s2 f = infos s1 f\<lparr>owner_word := raw (untyped i)\<rparr>"
      using c that by auto
    then have tab: "in_table s f" using m by simp
    moreover from this have "f \<in> ?M" using t(2) m zero [OF tab] by (auto simp: owner_eq_iff split: if_splits)
    ultimately show ?thesis using t(3) m zero [OF tab] by auto
  qed
  have clean: "pin_count (infos s2 f) = 0 \<and> mapping_count (infos s2 f) = 0 \<and> canonical (owner_word (infos s2 f)) \<and>
      owner (infos s2 f) \<noteq> PENDING" if "in_table s f" for f
    using iS [of f] i2 [OF that] by (auto simp: owner_eq_iff split: if_splits)
  have "f \<in> free_frames s2 \<longleftrightarrow> in_table s f \<and> f \<in> ?M - ?S" for f
    using iS [of f] i2 [of f] by (auto simp: free_frames_def os split: if_splits)
  moreover have "in_table s f" if "f \<in> ?M" for f using m that by blast
  ultimately have "free_frames s2 = ?M - ?S" by blast
  moreover have "table_ok s2" using base n clean by (simp add: table_ok_def os physmap_covers_def)
  moreover have "fresh_lists s2" using fresh by (simp add: fresh_lists_def os)
  moreover have "owner (infos s2 f) = RESERVED" if "in_table s f" "f \<notin> ?M" for f
    using i2 [OF that(1)] iS [of f] that(2) by (auto simp: owner_eq_iff split: if_splits)
  ultimately show ?thesis using o clean by (simp add: filled_def)
qed

text \<open>The free list built from it.\<close>

lemma filled_build:
  assumes "filled s s2 M F"
  obtains s' where "build_global_freelist s2 = Some (word_of_nat (card F), s')" "pmm_boot s'" "pmm_ok s'"
    "free_frames s' = F" "infos s' = infos s2" "ft_num s' = ft_num s" "ft_base s' = ft_base s" "phys_map_base s' = phys_map_base s"
proof -
  have f: "only_infos s s2" "table_ok s2" "fresh_lists s2" "free_frames s2 = F"
    "\<And>f. in_table s f \<Longrightarrow> pin_count (infos s2 f) = 0 \<and> mapping_count (infos s2 f) = 0 \<and> owner (infos s2 f) \<noteq> PENDING"
    using assms by (auto simp: filled_def)
  note os = only_infos_simps [OF f(1)]
  obtain t where t: "build_global_freelist s2 = Some (word_of_nat (card (free_frames s2)), t)"
    "pmm_inv t [] (free_list s2)" "infos t = infos s2" "links_only s2 t (free_frames s2)"
    using build_global_freelist_correct [OF f(2,3)] by blast
  have boot: "pmm_boot t" unfolding pmm_boot_def
    using t(1) f(2,3,5) os by blast
  have same: "free_frames t = F" "ft_num t = ft_num s"
    using t(3,4) os f(4) by (auto simp: free_frames_def links_only_def in_table_def)
  then have "pmm_ok t"
    using t(2,3) f(5) by (auto simp: pmm_ok_def free_frames_def in_table_def)
  with t boot same os f(4) show thesis by (intro that [of t]) (simp_all add: links_only_def)
qed

lemma pmm_fillD:
  assumes fill: "pmm_fill s rs specs caps hlen m n bytes lo hi = Some (Inr (out, s', caps'))"
    and ram: "ram_ok rs" and base: "ft_base s \<noteq> 0" and n: "unat (ft_num s) < 2 ^ 32" "physmap_covers s (unat (ft_num s))"
    and zero: "\<And>f. in_table s f \<Longrightarrow> infos s f = zero_info" and fresh: "fresh_lists s"
    and len: "length specs \<le> length caps"
  shows "pmm_boot s' \<and> pmm_ok s' \<and> ft_num s' = ft_num s \<and> ft_base s' = ft_base s \<and> phys_map_base s' = phys_map_base s \<and>
    free_frames s' = region_frames rs (unat lo) (unat hi) - (\<Union>sp\<in>set specs. spec_frames sp) \<and>
    out_free_frames out = word_of_nat (card (free_frames s')) \<and>
    (\<forall>f. in_table s f \<longrightarrow> pin_count (infos s' f) = 0 \<and> mapping_count (infos s' f) = 0) \<and>
    (\<forall>f. in_table s f \<and> f \<notin> region_frames rs (unat lo) (unat hi) \<longrightarrow> owner (infos s' f) = RESERVED) \<and>
    (\<forall>i<length specs. cap_ok s' (caps' ! i) \<and> untaken s' (caps' ! i) = spec_frames (specs ! i))"
proof -
  obtain s1 s2 k where run: "mark_regions s rs lo hi = Some (Inr s1)" "carve_specs s1 specs 0 caps = Some (Inr (s2, caps'))"
    "build_global_freelist s2 = Some (k, s')" "out_free_frames out = k"
    using fill by (auto simp: pmm_fill_def try_bind_Inr bind_eq_Some_conv)
  note m = mark_regionsD [OF run(1) ram base]
  have b1: "ft_base s1 \<noteq> 0" "ft_num s1 = ft_num s" using m base by simp_all
  note c = carve_specsD [OF run(2) b1(1), simplified, OF len]
  note fs = fill_state [OF run(1,2) ram base n zero fresh len]
  obtain t where t: "s' = t" "k = word_of_nat (card (free_frames t))" "pmm_boot t" "pmm_ok t" "infos t = infos s2"
    "free_frames t = region_frames rs (unat lo) (unat hi) - (\<Union>sp\<in>set specs. spec_frames sp)"
    "ft_num t = ft_num s" "ft_base t = ft_base s" "phys_map_base t = phys_map_base s"
    using filled_build [OF fs] run(3) by (metis option.inject prod.inject)
  have "cap_ok s' (caps' ! i) \<and> untaken s' (caps' ! i) = spec_frames (specs ! i)" if i: "i < length specs" for i
    using c i b1(2) t(1,5,7) by (auto simp: cap_ok_def untaken_def)
  with t run(4) fs show ?thesis by (simp add: filled_def)
qed

lemma place_heapD:
  assumes "place_heap s ba hlen ft_end = Some (Inr (s', hi))" "address_order (ba_regions ba)" "behind ba (unat ft_end)"
  shows "ft_base s' = ft_base s \<and> ft_num s' = ft_num s \<and> infos s' = infos s \<and> phys_map_base s' = phys_map_base s \<and>
    fresh_lists s' = fresh_lists s \<and> (hlen = 0 \<longrightarrow> hi = ft_end) \<and>
    (hlen \<noteq> 0 \<longrightarrow> (\<exists>hp. unat ft_end \<le> unat hp \<and> 4096 dvd unat hp \<and> unat hp + unat hlen = unat hi \<and> hi - hlen = hp))"
proof (cases "hlen = 0")
  case True
  with assms(1) show ?thesis by (auto simp: place_heap_def)
next
  case False
  then obtain hp ba' hv where h: "boot_alloc ba hlen FRAME_SIZE = Some (Some hp, ba')" "phys_to_virt s hp = Some hv"
    "uadd hp hlen = Some hi" "s' = zero_range s hv hlen"
    using assms(1) by (auto simp: place_heap_def bind_eq_Some_conv Let_def split: option.splits)
  from boot_alloc_sound [OF h(1)] obtain i where c: "continues ba ba' i (unat hp) (unat hlen)" "4096 dvd unat hp"
    by (auto simp: FRAME_SIZE_pow)
  note b = behind_start [OF assms(3) c(1)]
  have "unat hp + unat hlen = unat hi" "hi - hlen = hp" using h(3) by (auto simp: uadd_eq_Some unat_add_no_wrap)
  with False b c(2) h(4) show ?thesis by (auto simp: zero_range_def fresh_lists_def)
qed

lemma region_frames_effective:
  assumes "usable_addrs rs = usable_addrs (bi_regions boot) - image_range boot"
  shows "region_frames rs lo hi - (\<Union>sp\<in>set specs. spec_frames sp) = boot_pool boot specs lo hi"
  using assms by (auto simp: region_frames_def boot_pool_def)

lemma ceil_div_bound:
  assumes "ceil_div a FRAME_SIZE = Some n"
  shows "unat n * 4096 < unat a + 4096" "unat a \<le> unat n * 4096"
proof -
  have s: "unat a + 4096 < 2 ^ 64" "n = (a + 4096 - 1) div 4096"
    using assms by (auto simp: ceil_div_def uadd_eq_Some usub_eq_Some bind_eq_Some_conv kconsts)
  have "unat (4095 + a) = unat a + 4095" using s(1) by (simp add: unat_add_no_wrap)
  moreover have "a + 4096 - 1 = 4095 + a" by simp
  ultimately have "unat n = (unat a + 4095) div 4096" using s(2) by (simp add: unat_div)
  then show "unat n * 4096 < unat a + 4096" "unat a \<le> unat n * 4096"
    using round_up_bounds [of 4096 "unat a"] by simp_all
qed

text \<open>What the memory map, the frame table and the heap look like after a successful run.\<close>

definition booted :: "boot_info \<Rightarrow> untyped_spec list \<Rightarrow> usize \<Rightarrow> pm_init_out \<Rightarrow> pmm \<Rightarrow> untyped_cap list \<Rightarrow> nat \<Rightarrow> nat \<Rightarrow> bool" where
  "booted boot specs hlen out s caps lo hi \<longleftrightarrow>
     unat (ft_base s) = unat (bi_physmap_base boot) + lo \<and> phys_map_base s = bi_physmap_base boot \<and> 4096 dvd lo \<and>
     (if hlen = 0 then hi = lo + unat (ft_num s) * 24
      else lo + unat (ft_num s) * 24 \<le> unat (heap_phys out) \<and> 4096 dvd unat (heap_phys out) \<and>
        hi = unat (heap_phys out) + unat hlen) \<and>
     unat (ram_end out) \<le> unat (ft_num s) * 4096 \<and> out_total_frames out = ft_num s \<and>
     heap_len out = hlen \<and> (\<forall>f. in_table s f \<longrightarrow> pin_count (infos s f) = 0 \<and> mapping_count (infos s f) = 0) \<and>
     free_frames s = boot_pool boot specs lo hi \<and> out_free_frames out = word_of_nat (card (free_frames s)) \<and>
     (\<forall>f. in_table s f \<and> f \<notin> boot_pool boot [] lo hi \<longrightarrow> owner (infos s f) = RESERVED) \<and>
     (\<forall>i<length specs. cap_ok s (caps ! i) \<and> untaken s (caps ! i) = spec_frames (specs ! i))"

lemma pmm_initD:
  assumes init: "pmm_init s boot specs caps hlen = Some (Inr (out, s', caps'))"
    and s: "unbooted s" and ord: "address_order (bi_regions boot)"
    and ram: "unat (ram_end out) \<le> 2 ^ 44 - 4096" "unat (bi_physmap_base boot) + unat (ram_end out) + 4096 \<le> 2 ^ 64"
  shows "(\<exists>lo hi. booted boot specs hlen out s' caps' lo hi) \<and> pmm_boot s' \<and> pmm_ok s'"
proof -
  let ?b = "bi_physmap_base boot"
  obtain s1 rs m tot bytes ftp ba fta s2 fte s3 hi where run:
    "length specs \<le> length caps" "set_physmap_base s ?b = Some s1"
    "\<not> list_ex (\<lambda>r. mr_kind r = Usable \<and> (mr_start r mod FRAME_SIZE \<noteq> 0 \<or> mr_len r mod FRAME_SIZE \<noteq> 0)) (bi_regions boot)"
    "build_effective boot = Some (Inr rs)" "max_region_end rs 0 = Some m" "ceil_div m FRAME_SIZE = Some tot"
    "umul tot SIZE_OF_FRAME_INFO = Some bytes" "boot_alloc (new_boot_allocator rs) bytes FRAME_SIZE = Some (Some ftp, ba)"
    "phys_to_virt s1 ftp = Some fta" "init_table_zeroed s1 fta tot bytes = Some (Inr s2)" "uadd ftp bytes = Some fte"
    "place_heap s2 ba hlen fte = Some (Inr (s3, hi))"
    "pmm_fill s3 rs specs caps hlen m tot bytes ftp hi = Some (Inr (out, s', caps'))"
    using init by (auto simp: pmm_init_def try_bind_Inr bind_eq_Some_conv not_less split: if_splits option.splits)
  obtain kl ks ke where e: "usable_no_wrap (bi_regions boot)" "rs = cut_all kl ks ke (bi_regions boot)" "kl \<noteq> 0 \<longrightarrow> ks < ke"
    "4096 dvd unat ks" "4096 dvd unat ke" "(if kl \<noteq> 0 then {unat ks..<unat ke} else {}) = image_range boot"
    using build_effectiveD [OF run(4)] by blast
  note al = is_aligned_regions [OF e(1) run(3)]
  have rs: "usable_addrs rs = usable_addrs (bi_regions boot) - image_range boot" "address_order rs"
    "\<forall>r\<in>set rs. r_aligned r"
    using cut_all_props [OF e(1), of kl ks ke] cut_all_order [OF e(1) _ ord, of kl ks ke] e al by auto
  have o: "ram_end out = m" "out_total_frames out = tot" "heap_len out = hlen" "hlen \<noteq> 0 \<longrightarrow> heap_phys out = hi - hlen"
    using run(13) by (auto simp: pmm_fill_def try_bind_Inr bind_eq_Some_conv usub_eq_Some split: if_splits)
  have rok: "ram_ok rs" using max_region_endD [OF run(5)] rs(3) ram(1) o(1) by (auto simp: ram_ok_def)
  have s1: "phys_map_base s1 = ?b" "fresh_lists s1" using run(2) s
    by (auto simp: set_physmap_base_def unbooted_def fresh_lists_def Let_def split: if_splits)
  have fta: "?b \<noteq> 0" "unat fta = unat ?b + unat ftp"
    using run(9) s1(1) by (auto simp: phys_to_virt_def physmap_base_def uadd_eq_Some unat_add_no_wrap Let_def split: if_splits)
  note z = zero_infos [OF run(10) run(7)]
  obtain i where c: "continues (new_boot_allocator rs) ba i (unat ftp) (unat bytes)" "4096 dvd unat ftp"
    using boot_alloc_sound [OF run(8)] by (auto simp: FRAME_SIZE_pow)
  have fte: "unat fte = unat ftp + unat bytes" using run(11) by (simp add: uadd_eq_Some unat_add_no_wrap)
  have "behind ba (unat fte)" unfolding fte
    by (rule behind_alloc [OF _ c(1)]) (simp add: new_boot_allocator_def rs(2))
  moreover have "address_order (ba_regions ba)" using c(1) rs(2) by (simp add: continues_def new_boot_allocator_def)
  ultimately have h: "ft_base s3 = fta" "ft_num s3 = tot" "infos s3 = infos s2" "phys_map_base s3 = ?b" "fresh_lists s3"
    "hlen = 0 \<longrightarrow> hi = fte"
    "hlen \<noteq> 0 \<longrightarrow> (\<exists>hp. unat fte \<le> unat hp \<and> 4096 dvd unat hp \<and> unat hp + unat hlen = unat hi \<and> hi - hlen = hp)"
    using place_heapD [OF run(12)] z s1 by auto
  have t: "unat tot < 2 ^ 32" "unat ?b + unat tot * 4096 \<le> 2 ^ 64" "unat bytes = unat tot * 24"
    using ceil_div_bound [OF run(6)] ram o(1) run(7) by (auto simp: umul_eq_Some unat_mult_no_wrap kconsts)
  have f: "pmm_boot s'" "ft_num s' = tot" "ft_base s' = fta" "phys_map_base s' = ?b"
    "free_frames s' = boot_pool boot specs (unat ftp) (unat hi)" "pmm_ok s'"
    "out_free_frames out = word_of_nat (card (free_frames s'))"
    "\<forall>f. in_table s' f \<and> f \<notin> boot_pool boot [] (unat ftp) (unat hi) \<longrightarrow> owner (infos s' f) = RESERVED"
    "\<forall>i<length specs. cap_ok s' (caps' ! i) \<and> untaken s' (caps' ! i) = spec_frames (specs ! i)"
    "\<forall>f. in_table s' f \<longrightarrow> pin_count (infos s' f) = 0 \<and> mapping_count (infos s' f) = 0"
    using pmm_fillD [OF run(13) rok] h z t fta run(1) region_frames_effective [OF rs(1), of _ _ specs]
      region_frames_effective [OF rs(1), of _ _ "[]"]
    by (auto simp: physmap_covers_def in_table_iff unat_ucast_up)
  then have "booted boot specs hlen out s' caps' (unat ftp) (unat hi)"
    using h o c(2) fta t fte ceil_div_bound [OF run(6)] by (auto simp: booted_def)
  then show ?thesis using f(1,6) by blast
qed

section \<open>When initialisation succeeds\<close>

lemma region_frames_disjoint:
  assumes "address_order (r # rs)" "mr_kind r = Usable"
  shows "region_frames [r] lo hi \<inter> region_frames rs lo hi = {}"
  using assms by (fastforce simp: region_frames_def usable_addrs_def r_range_def address_order_def)

lemma mark_regionsI:
  assumes "ram_ok rs" "ft_base s \<noteq> 0" "address_order rs"
    "\<forall>f\<in>region_frames rs (unat lo) (unat hi). in_table s f \<and> owner (infos s f) = RESERVED"
  shows "mark_regions s rs lo hi = Some (Inr (set_owners s (region_frames rs (unat lo) (unat hi)) FREE))"
  using assms
proof (induction rs arbitrary: s)
  case (Cons r rs)
  have rs: "ram_ok rs" "address_order rs" using Cons.prems by (simp_all add: ram_ok_def address_order_def)
  show ?case
  proof (cases "mr_kind r = Usable")
    case False
    with Cons rs show ?thesis by simp
  next
    case True
    let ?F = "region_frames [r] (unat lo) (unat hi)" and ?G = "region_frames rs (unat lo) (unat hi)"
    have ok: "r_aligned r" "r_end r \<le> 2 ^ 44" using Cons.prems(1) True by (simp_all add: ram_ok_def)
    obtain e where e: "region_end r = Some e" "ceil_div (mr_start r) FRAME_SIZE = Some (mr_start r div 4096)"
      "ceil_div e FRAME_SIZE = Some (e div 4096)"
      "\<forall>i\<in>set (map word_of_nat [unat (mr_start r div 4096)..<unat (e div 4096)] :: u64 list). unat i < 2 ^ 32"
      "distinct (map word_of_nat [unat (mr_start r div 4096)..<unat (e div 4096)] :: u64 list)"
      "mark_set (map word_of_nat [unat (mr_start r div 4096)..<unat (e div 4096)]) (unat lo) (unat hi) = ?F"
      by (rule region_idx [OF True ok, of "unat lo" "unat hi"]) blast
    have fg: "region_frames (r # rs) (unat lo) (unat hi) = ?F \<union> ?G" by (rule region_frames_Cons [OF True])
    have "\<forall>f\<in>?F. in_table s f \<and> owner (infos s f) = RESERVED" using Cons.prems(4) fg by blast
    then have m: "mark_frames s (map word_of_nat [unat (mr_start r div 4096)..<unat (e div 4096)]) lo hi =
        Some (Inr (set_owners s ?F FREE))"
      using mark_framesI [OF e(4) Cons.prems(2) e(5), of lo hi] unfolding e(6) by blast
    have "\<forall>f\<in>?G. in_table (set_owners s ?F FREE) f \<and> owner (infos (set_owners s ?F FREE) f) = RESERVED"
      using Cons.prems(4) fg region_frames_disjoint [OF Cons.prems(3) True] by (auto simp: disjoint_iff)
    with Cons.IH [OF rs(1) _ rs(2), of "set_owners s ?F FREE"] Cons.prems(2) True e(1-3) m fg show ?thesis
      by (simp add: set_owners_union)
  qed
qed simp

lemma max_region_endI:
  assumes "usable_no_wrap rs"
  shows "\<exists>m. max_region_end rs acc = Some m"
  using assms
proof (induction rs arbitrary: acc)
  case (Cons r rs)
  then have "usable_no_wrap rs" "mr_kind r = Usable \<Longrightarrow> \<exists>e. region_end r = Some e"
    by (auto simp: usable_no_wrap_def region_end_eq)
  with Cons.IH show ?case by (cases "mr_kind r = Usable") auto
qed simp

lemma max_region_end_bound:
  assumes "max_region_end rs acc = Some m" "\<forall>r\<in>set rs. mr_kind r = Usable \<longrightarrow> r_end r \<le> B" "unat acc \<le> B"
  shows "unat m \<le> B"
  using assms
proof (induction rs arbitrary: acc)
  case (Cons r rs)
  show ?case
  proof (cases "mr_kind r = Usable")
    case True
    then obtain e where e: "region_end r = Some e" "max_region_end rs (max acc e) = Some m"
      using Cons.prems(1) by (auto simp: bind_eq_Some_conv)
    have "unat (max acc e) \<le> B" using Cons.prems True unat_region_end [OF e(1)] by (simp add: unat_max)
    with Cons e(2) show ?thesis by simp
  qed (use Cons in simp)
qed simp

lemma carve_framesI:
  assumes "\<forall>f\<in>set fs. unat f < 2 ^ 32" "ft_base s \<noteq> 0" "distinct fs"
    "\<forall>f\<in>idx_frames fs. in_table s f \<and> owner (infos s f) = FREE"
  shows "carve_frames s fs i = Some (Inr (set_owners s (idx_frames fs) (untyped i)))"
  using assms
proof (induction fs arbitrary: s)
  case Nil
  then show ?case by (simp add: idx_frames_def)
next
  case (Cons f fs)
  then have f: "unat f < 2 ^ 32" by simp
  have "ucast f \<notin> idx_frames fs" using Cons.prems(3) f by (simp add: idx_frames_def ucast_ucast_idx)
  then have "\<forall>g\<in>idx_frames fs. in_table s g \<and> owner (infos (set_owners s {ucast f} (untyped i)) g) = FREE"
    using Cons.prems(4) f by (auto simp: idx_frames_Cons)
  with Cons.prems Cons.IH [of "set_owners s {ucast f} (untyped i)"] f show ?case
    by (auto simp: idx_frames_Cons try_set_owner_eq set_owners_union simp del: set_owners_simps(1))
qed

lemma carve_untyped_regionI:
  assumes ok: "spec_ok sp" and "ft_base s \<noteq> 0" "\<forall>f\<in>spec_frames sp. in_table s f \<and> owner (infos s f) = FREE"
  shows "\<exists>cap. carve_untyped_region s sp i = Some (Inr (set_owners s (spec_frames sp) (untyped i), cap))"
  using carve_framesI [OF spec_idx(1) [OF ok] assms(2) spec_idx(2) [OF ok], of i] assms(3) ok
  by (simp add: carve_untyped_region_eq spec_idx(3) [OF ok]) (simp add: spec_ok_def)

lemma carve_specsI:
  assumes "\<forall>sp\<in>set sps. spec_ok sp" "ft_base s \<noteq> 0" "sorted_wrt (\<lambda>a b. spec_frames a \<inter> spec_frames b = {}) sps"
    "\<forall>sp\<in>set sps. \<forall>f\<in>spec_frames sp. in_table s f \<and> owner (infos s f) = FREE"
  shows "\<exists>s' out'. carve_specs s sps k out = Some (Inr (s', out'))"
  using assms
proof (induction sps arbitrary: s k out)
  case (Cons sp sps)
  then obtain cap where c: "carve_untyped_region s sp (word_of_nat k) =
      Some (Inr (set_owners s (spec_frames sp) (untyped (word_of_nat k)), cap))"
    using carve_untyped_regionI [of sp s "word_of_nat k"] by auto
  have "\<forall>sp'\<in>set sps. \<forall>f\<in>spec_frames sp'. f \<notin> spec_frames sp" using Cons.prems(3) by auto
  with Cons.prems Cons.IH [of "set_owners s (spec_frames sp) (untyped (word_of_nat k))"] c show ?case by simp
qed simp

text \<open>Only a region with the whole image strictly inside is cut in two, and there is at most one.\<close>

lemma cut_all_length:
  assumes "usable_no_wrap rs" "kl \<noteq> 0 \<Longrightarrow> ks < ke" "address_order rs"
  shows "length (cut_all kl ks ke rs) \<le> length rs +
    (if \<exists>r\<in>set rs. mr_kind r = Usable \<and> mr_start r < ks \<and> unat ke < r_end r then 1 else 0)"
  using assms
proof (induction rs)
  case (Cons r rs)
  let ?two = "\<lambda>r. mr_kind r = Usable \<and> mr_start r < ks \<and> unat ke < r_end r"
  have ih: "length (cut_all kl ks ke rs) \<le> length rs + (if \<exists>r\<in>set rs. ?two r then 1 else 0)"
    using Cons by (auto simp: usable_no_wrap_def address_order_def)
  show ?case
  proof (cases "?two r \<and> kl \<noteq> 0")
    case True
    have "\<not> ?two r'" if "r' \<in> set rs" for r'
      using that True Cons.prems(2,3) by (auto simp: address_order_def word_less_nat_alt)
    with ih True show ?thesis by (auto simp: cut_def)
  next
    case False
    then have "length (cut kl ks ke r) \<le> 1" by (auto simp: cut_def)
    with ih show ?thesis by (auto split: if_splits)
  qed
qed simp

lemma build_effective_ok:
  assumes rs: "usable_no_wrap (bi_regions boot)" "address_order (bi_regions boot)" "length (bi_regions boot) \<le> 126"
    and image: "unat (fst (bi_kernel_image boot)) + unat (snd (bi_kernel_image boot)) + 4096 < 2 ^ 64"
  shows "\<exists>eff. build_effective boot = Some (Inr eff) \<and> usable_addrs eff = usable_addrs (bi_regions boot) - image_range boot"
proof -
  obtain st kl where b: "bi_kernel_image boot = (st, kl)" by fastforce
  have step: "\<exists>eff. effective_loop kl ks ke (bi_regions boot) [] = Some (Inr eff)" if "kl \<noteq> 0 \<Longrightarrow> ks < ke" for ks ke
  proof -
    have "length (cut_all kl ks ke (bi_regions boot)) < 128"
      using cut_all_length [of "bi_regions boot" kl ks ke] rs that by (auto split: if_splits)
    with effective_loop_eq [OF rs(1), of "[]" kl ks ke] show ?thesis by simp
  qed
  have "\<exists>eff. build_effective boot = Some (Inr eff)"
  proof (cases "kl = 0")
    case True
    with step [of 0 0] b show ?thesis by (simp add: build_effective_def)
  next
    case False
    obtain ks where ks: "round_down st FRAME_SIZE = Some ks" "unat ks = unat st div 4096 * 4096"
      using round_down_eq by blast
    have e: "uadd st kl = Some (st + kl)" "unat (st + kl) = unat st + unat kl"
      using image b by (simp_all add: uadd_def unat_add_no_wrap)
    obtain ke where ke: "align_up (st + kl) FRAME_SIZE = Some ke" "unat ke = (unat (st + kl) + 4096 - 1) div 4096 * 4096"
      using align_up_eq [of FRAME_SIZE "st + kl"] image b e(2) by (auto simp: FRAME_SIZE_pow)
    have "0 < unat kl" using False by (simp add: unat_gt_0)
    then have "unat ks < unat ke" using round_up_bounds(1) [of 4096 "unat st + unat kl"] ke(2) ks(2) e(2)
      by (simp add: le_less_trans [OF div_times_less_eq_dividend] order.strict_trans1)
    with step [of ks ke] b ks(1) e(1) ke(1) False show ?thesis
      by (auto simp: build_effective_def round_up_def word_less_nat_alt)
  qed
  then obtain eff where eff: "build_effective boot = Some (Inr eff)" by blast
  from build_effectiveD [OF this] obtain kl' ks ke where "eff = cut_all kl' ks ke (bi_regions boot)" "kl' \<noteq> 0 \<longrightarrow> ks < ke"
    "(if kl' \<noteq> 0 then {unat ks..<unat ke} else {}) = image_range boot" by blast
  with eff cut_all_props(1) [OF rs(1), of kl' ks ke] show ?thesis by auto
qed

text \<open>
  What \<^verbatim>\<open>pmm_init\<close> needs to succeed: a map in address order, cut into frames, below 16 TiB, covered
  by the physmap; one effective region with room for the frame table and the heap below \<open>x\<close>; and
  disjoint requests for untyped memory above \<open>x\<close>, all of it usable.
\<close>

definition bootable :: "boot_info \<Rightarrow> untyped_spec list \<Rightarrow> usize \<Rightarrow> memory_region list \<Rightarrow> u64 \<Rightarrow> nat \<Rightarrow> bool" where
  "bootable boot specs hlen eff m x \<longleftrightarrow>
     bi_physmap_base boot \<noteq> 0 \<and> unat (bi_physmap_base boot) + unat m + 4096 \<le> 2 ^ 64 \<and>
     (\<forall>r\<in>set (bi_regions boot). mr_kind r = Usable \<longrightarrow> mr_start r mod 4096 = 0 \<and> mr_len r mod 4096 = 0) \<and>
     address_order (bi_regions boot) \<and> build_effective boot = Some (Inr eff) \<and>
     max_region_end eff 0 = Some m \<and> m \<noteq> 0 \<and> unat m \<le> 2 ^ 44 - 4096 \<and>
     (\<exists>r\<in>set eff. mr_kind r = Usable \<and>
       unat (mr_start r) + round_to 4096 (unat m div 4096 * 24) + unat hlen \<le> min x (r_end r)) \<and>
     hlen mod 4096 = 0 \<and>
     (\<forall>sp\<in>set specs. spec_ok sp \<and> x \<le> unat (us_base_phys sp) \<and> 2 ^ 20 \<le> unat (us_base_phys sp) \<and>
       {unat (us_base_phys sp)..<unat (us_base_phys sp) + unat (us_len sp)} \<subseteq> usable_addrs eff) \<and>
     sorted_wrt (\<lambda>a b. spec_frames a \<inter> spec_frames b = {}) specs"

lemma boot_alloc_places:
  assumes ord: "address_order rs" and small: "\<And>r. r \<in> set rs \<Longrightarrow> mr_kind r = Usable \<Longrightarrow> r_end r \<le> 2 ^ 44"
    and rs: "ba_regions ba = rs" and cur: "unat (ba_cursor ba) \<le> 2 ^ 44" and n: "n \<noteq> 0"
    and j: "next_region ba \<le> j" "j < length rs" "mr_kind (rs ! j) = Usable"
    and room: "round_to 4096 (max (cursor_in ba j) (unat (mr_start (rs ! j)))) + unat n \<le> r_end (rs ! j)"
  shows "\<exists>st ba' i. boot_alloc ba n FRAME_SIZE = Some (Some st, ba') \<and> continues ba ba' i (unat st) (unat n) \<and> i \<le> j \<and>
    4096 dvd unat st \<and> unat st \<le> round_to 4096 (max (cursor_in ba j) (unat (mr_start (rs ! j))))"
proof -
  have "\<exists>st ba'. boot_alloc_loop ba n FRAME_SIZE = Some (Some st, ba') \<and>
    unat st \<le> round_to 4096 (max (cursor_in ba j) (unat (mr_start (rs ! j))))"
    using boot_alloc_loop_finds [OF FRAME_SIZE_pow(1), of ba j n] assms
    by (force simp: FRAME_SIZE_pow has_room_alt)
  then obtain st ba' where st: "boot_alloc ba n FRAME_SIZE = Some (Some st, ba')"
    "unat st \<le> round_to 4096 (max (cursor_in ba j) (unat (mr_start (rs ! j))))"
    using n by (auto simp: boot_alloc_def FRAME_SIZE_pow)
  from boot_alloc_sound [OF st(1)] obtain i where i: "continues ba ba' i (unat st) (unat n)" "4096 dvd unat st"
    by (auto simp: FRAME_SIZE_pow)
  have "i \<le> j"
  proof (rule ccontr)
    assume "\<not> i \<le> j"
    then have "r_end (rs ! j) \<le> unat (mr_start (rs ! i))" "unat (mr_start (rs ! i)) \<le> unat st"
      using address_order_nth [OF ord, of j i] i(1) j(3) rs by (auto simp: continues_def fits_in_def)
    moreover have "0 < unat n" using n by (simp add: unat_gt_0)
    ultimately show False using room st(2) by linarith
  qed
  with st i show ?thesis by blast
qed

lemma round_to_props:
  "0 < al \<Longrightarrow> x \<le> round_to al x" "0 < al \<Longrightarrow> al dvd x \<Longrightarrow> round_to al x = x"
  "0 < al \<Longrightarrow> al dvd s \<Longrightarrow> round_to al (s + x) = s + round_to al x" "x \<le> y \<Longrightarrow> round_to al x \<le> round_to al y"
proof -
  show "0 < al \<Longrightarrow> x \<le> round_to al x" unfolding round_to_def by (rule round_up_bounds(1))
  show mono: "x \<le> y \<Longrightarrow> round_to al x \<le> round_to al y" unfolding round_to_def
    by (intro mult_le_mono1 div_le_mono) simp
  show sum: "0 < al \<Longrightarrow> al dvd s \<Longrightarrow> round_to al (s + x) = s + round_to al x" for s x
  proof -
    assume al: "0 < al" "al dvd s"
    then obtain k where k: "s = al * k" by (auto elim: dvdE)
    define y where "y = x + al - 1"
    have "s + x + al - 1 = al * k + y" using al(1) k by (simp add: y_def)
    then have "(s + x + al - 1) div al = k + y div al" using al(1) by simp
    then show ?thesis by (simp add: round_to_def y_def k distrib_left mult.commute [of _ al])
  qed
  show "0 < al \<Longrightarrow> al dvd x \<Longrightarrow> round_to al x = x" using sum [of x 0] by (simp add: round_to_def)
qed

lemma max_region_end_dvd:
  assumes "max_region_end rs acc = Some m" "\<forall>r\<in>set rs. r_aligned r" "4096 dvd unat acc"
  shows "4096 dvd unat m"
  using assms
proof (induction rs arbitrary: acc)
  case (Cons r rs)
  show ?case
  proof (cases "mr_kind r = Usable")
    case True
    then obtain e where e: "region_end r = Some e" "max_region_end rs (max acc e) = Some m"
      using Cons.prems(1) by (auto simp: bind_eq_Some_conv)
    have "4096 dvd unat (max acc e)" using Cons.prems True unat_region_end [OF e(1)] by (simp add: r_aligned_def max_def)
    with Cons e(2) show ?thesis by simp
  qed (use Cons in simp)
qed simp

text \<open>The frame table and the heap fit below \<open>x\<close>.\<close>

lemma boot_places:
  assumes ord: "address_order rs" and small: "\<And>r. r \<in> set rs \<Longrightarrow> mr_kind r = Usable \<Longrightarrow> r_end r \<le> 2 ^ 44"
    and r: "r \<in> set rs" "mr_kind r = Usable" "4096 dvd unat (mr_start r)"
    and room: "unat (mr_start r) + round_to 4096 (unat bytes) + unat hlen \<le> min x (r_end r)" and b: "bytes \<noteq> 0"
  obtains ftp ba where "boot_alloc (new_boot_allocator rs) bytes FRAME_SIZE = Some (Some ftp, ba)"
    "unat ftp + unat bytes \<le> x" "unat ftp + unat bytes \<le> r_end r"
    "hlen \<noteq> 0 \<Longrightarrow> \<exists>hp ba'. boot_alloc ba hlen FRAME_SIZE = Some (Some hp, ba') \<and> unat hp + unat hlen \<le> x \<and>
      unat hp + unat hlen \<le> r_end r"
proof -
  obtain j where j: "j < length rs" "rs ! j = r" using r(1) by (auto simp: in_set_conv_nth)
  let ?n = "new_boot_allocator rs" and ?s = "unat (mr_start r)"
  have le: "unat bytes \<le> round_to 4096 (unat bytes)" by (simp add: round_to_props)
  have n: "ba_regions ?n = rs" "ba_cursor ?n = 0" "next_region ?n = 0" "cursor_in ?n j = 0"
    by (simp_all add: new_boot_allocator_def cursor_in_def)
  have rs: "round_to 4096 ?s = ?s" using r(3) by (simp add: round_to_props)
  obtain ftp ba i where ft: "boot_alloc ?n bytes FRAME_SIZE = Some (Some ftp, ba)" "continues ?n ba i (unat ftp) (unat bytes)"
    "i \<le> j" "unat ftp \<le> ?s"
    using boot_alloc_places [OF ord small n(1) _ b, of j] n j r(2) rs room le by auto
  have "\<exists>hp ba'. boot_alloc ba hlen FRAME_SIZE = Some (Some hp, ba') \<and> unat hp + unat hlen \<le> x \<and> unat hp + unat hlen \<le> r_end r"
    if h: "hlen \<noteq> 0"
  proof -
    have "0 < unat hlen" using h by (simp add: unat_gt_0)
    then have nx: "ba_regions ba = rs" "next_region ba \<le> j" "unat (ba_cursor ba) \<le> 2 ^ 44"
      "cursor_in ba j \<le> unat ftp + unat bytes"
      using ft(2-4) n j room le small [OF r(1,2)] by (cases "i = j"; auto simp: continues_def cursor_in_def)+
    have "max (cursor_in ba j) ?s \<le> ?s + unat bytes" using nx(4) ft(4) by simp
    then have rt: "round_to 4096 (max (cursor_in ba j) ?s) \<le> ?s + round_to 4096 (unat bytes)"
      using round_to_props(3) [of 4096 ?s "unat bytes"] round_to_props(4) r(3) by (metis zero_less_numeral)
    then have "round_to 4096 (max (cursor_in ba j) ?s) + unat hlen \<le> r_end r" using room by simp
    then obtain hp ba' where "boot_alloc ba hlen FRAME_SIZE = Some (Some hp, ba')"
      "unat hp \<le> round_to 4096 (max (cursor_in ba j) ?s)"
      using boot_alloc_places [OF ord small nx(1,3) h nx(2) j(1)] j(2) r(2) by auto
    with rt room show ?thesis by fastforce
  qed
  with ft(1,4) room le show thesis by (intro that) auto
qed

lemma phys_to_virt_ok:
  "phys_map_base s \<noteq> 0 \<Longrightarrow> unat (phys_map_base s) + unat p < 2 ^ 64 \<Longrightarrow> phys_to_virt s p = Some (phys_map_base s + p)"
  by (simp add: phys_to_virt_def physmap_base_def uadd_def)

lemma place_heapI:
  assumes "phys_map_base s \<noteq> 0" "fresh_lists s"
    and bnd: "\<And>hp :: u64. unat hp + unat hlen \<le> y \<Longrightarrow> unat (phys_map_base s) + unat hp < 2 ^ 64 \<and> unat hp + unat hlen < 2 ^ 64"
    and room: "hlen \<noteq> 0 \<Longrightarrow> \<exists>hp ba'. boot_alloc ba hlen FRAME_SIZE = Some (Some hp, ba') \<and> unat hp + unat hlen \<le> x \<and>
      unat hp + unat hlen \<le> y"
    and e: "unat ft_end \<le> x"
  obtains s' hi where "place_heap s ba hlen ft_end = Some (Inr (s', hi))" "unat hi \<le> x" "hlen \<le> hi"
    "infos s' = infos s" "ft_base s' = ft_base s" "ft_num s' = ft_num s" "phys_map_base s' = phys_map_base s" "fresh_lists s'"
proof (cases "hlen = 0")
  case True
  then show thesis using that [of s ft_end] assms by (simp add: place_heap_def)
next
  case False
  then obtain hp ba' where h: "boot_alloc ba hlen FRAME_SIZE = Some (Some hp, ba')" "unat hp + unat hlen \<le> x"
    "unat hp + unat hlen \<le> y" using room by blast
  note b = bnd [OF h(3)]
  have "phys_to_virt s hp = Some (phys_map_base s + hp)" using b assms(1) by (simp add: phys_to_virt_ok)
  moreover have "uadd hp hlen = Some (hp + hlen)" "unat (hp + hlen) = unat hp + unat hlen"
    using b by (simp_all add: uadd_def unat_add_no_wrap)
  ultimately show thesis
    using False h assms(2) that [of "zero_range s (phys_map_base s + hp) hlen" "hp + hlen"]
    by (simp add: place_heap_def zero_range_def fresh_lists_def word_le_nat_alt)
qed

text \<open>Filling the table from a map whose requests are granted.\<close>

lemma pmm_fillI:
  assumes ram: "ram_ok rs" "address_order rs" and base: "ft_base s \<noteq> 0"
    and n: "unat (ft_num s) < 2 ^ 32" "physmap_covers s (unat (ft_num s))"
    and zero: "\<And>f. in_table s f \<Longrightarrow> infos s f = zero_info" and fresh: "fresh_lists s" and len: "length specs \<le> length caps"
    and tab: "\<And>r. r \<in> set rs \<Longrightarrow> mr_kind r = Usable \<Longrightarrow> r_end r \<le> unat (ft_num s) * 4096"
    and specs: "\<forall>sp\<in>set specs. spec_ok sp \<and> unat hi \<le> unat (us_base_phys sp) \<and> 2 ^ 20 \<le> unat (us_base_phys sp) \<and>
       {unat (us_base_phys sp)..<unat (us_base_phys sp) + unat (us_len sp)} \<subseteq> usable_addrs rs"
      "sorted_wrt (\<lambda>a b. spec_frames a \<inter> spec_frames b = {}) specs"
    and hi: "hlen \<le> hi"
  shows "\<exists>out s' caps'. pmm_fill s rs specs caps hlen m k bytes lo hi = Some (Inr (out, s', caps')) \<and> ram_end out = m \<and>
    (hlen \<noteq> 0 \<longrightarrow> heap_phys out = hi - hlen)"
proof -
  let ?M = "region_frames rs (unat lo) (unat hi)"
  have M: "in_table s f" if "f \<in> ?M" for f
    using that tab by (fastforce simp: region_frames_def usable_addrs_def r_range_def in_table_iff)
  then have m: "mark_regions s rs lo hi = Some (Inr (set_owners s ?M FREE))"
    using zero by (intro mark_regionsI [OF ram(1) base ram(2)]) (simp add: owner_eq_iff)
  have "f \<in> ?M" if "sp \<in> set specs" "f \<in> spec_frames sp" for f sp
    using that specs(1) by (fastforce simp: spec_frames_def region_frames_def kept_out_def)
  then obtain s2 caps' where c: "carve_specs (set_owners s ?M FREE) specs 0 caps = Some (Inr (s2, caps'))"
    using carve_specsI [of specs "set_owners s ?M FREE" 0 caps] specs base M by (auto simp: owner_eq_iff)
  obtain s' where "build_global_freelist s2 = Some (word_of_nat (card (?M - (\<Union>sp\<in>set specs. spec_frames sp))), s')"
    using filled_build [OF fill_state [OF m c ram(1) base n zero fresh len]] by blast
  with m c hi show ?thesis by (simp add: pmm_fill_def usub_def)
qed

lemma pmm_initI:
  assumes s: "unbooted s" and boot: "bootable boot specs hlen eff m x" and len: "length specs \<le> length caps"
  shows "\<exists>out s' caps'. pmm_init s boot specs caps hlen = Some (Inr (out, s', caps')) \<and> ram_end out = m \<and>
    (hlen \<noteq> 0 \<longrightarrow> unat (heap_phys out) + unat hlen \<le> x)"
proof -
  let ?b = "bi_physmap_base boot" and ?tot = "m div 4096"
  define bytes where "bytes = ?tot * (24 :: u64)"
  define s1 where "s1 = s\<lparr>phys_map_base := ?b\<rparr>"
  note bt = boot [unfolded bootable_def]
  have base: "?b \<noteq> 0" "unat ?b + unat m + 4096 \<le> 2 ^ 64" and ord: "address_order (bi_regions boot)"
    and be: "build_effective boot = Some (Inr eff)" and me: "max_region_end eff 0 = Some m" "m \<noteq> 0" "unat m \<le> 2 ^ 44 - 4096"
    and hl: "hlen mod 4096 = 0" using bt by simp_all
  obtain kl ks ke where e: "usable_no_wrap (bi_regions boot)" "eff = cut_all kl ks ke (bi_regions boot)" "kl \<noteq> 0 \<Longrightarrow> ks < ke"
    "4096 dvd unat ks" "4096 dvd unat ke"
    using build_effectiveD [OF be] by blast
  have chk: "\<not> list_ex (\<lambda>r. mr_kind r = Usable \<and> (mr_start r mod FRAME_SIZE \<noteq> 0 \<or> mr_len r mod FRAME_SIZE \<noteq> 0)) (bi_regions boot)"
    using bt by (auto simp: list_ex_iff kconsts)
  have eff: "address_order eff" "\<forall>r\<in>set eff. r_aligned r"
    unfolding e(2) by (rule cut_all_order [OF e(1,3) ord] cut_all_props(3) [OF e(1,3,4,5) is_aligned_regions [OF e(1) chk]]; assumption)+
  have ends: "r_end r \<le> unat m" if "r \<in> set eff" "mr_kind r = Usable" for r
    using max_region_endD [OF me(1)] that by blast
  then have ok: "ram_ok eff" using eff(2) me(3) by (force simp: ram_ok_def)
  have md: "4096 dvd unat m" using max_region_end_dvd [OF me(1) eff(2)] by simp
  have tot: "ceil_div m FRAME_SIZE = Some ?tot" "unat ?tot = unat m div 4096"
    using ceil_div_aligned [OF md] me(3) by auto
  have m0: "0 < unat m div 4096" "unat m div 4096 * 4096 = unat m"
  proof -
    show d: "unat m div 4096 * 4096 = unat m" using md by simp
    show "0 < unat m div 4096" using d me(2) by (metis bot_nat_0.not_eq_extremum mult_is_0 unat_eq_zero)
  qed
  have byt: "unat bytes = unat ?tot * 24" "umul ?tot SIZE_OF_FRAME_INFO = Some bytes" "bytes \<noteq> 0"
  proof -
    have "unat ?tot * 24 < 2 ^ 64" using tot(2) me(3) by simp
    then show u: "unat bytes = unat ?tot * 24" "umul ?tot SIZE_OF_FRAME_INFO = Some bytes"
      by (simp_all add: bytes_def unat_mult_no_wrap umul_def kconsts)
    then show "bytes \<noteq> 0" using m0 tot(2) by auto
  qed
  obtain r where r: "r \<in> set eff" "mr_kind r = Usable"
    "unat (mr_start r) + round_to 4096 (unat bytes) + unat hlen \<le> min x (r_end r)"
    using bt by (auto simp: byt tot(2))
  obtain ftp ba where ft: "boot_alloc (new_boot_allocator eff) bytes FRAME_SIZE = Some (Some ftp, ba)"
    "unat ftp + unat bytes \<le> x" "unat ftp + unat bytes \<le> r_end r"
    "hlen \<noteq> 0 \<Longrightarrow> \<exists>hp ba'. boot_alloc ba hlen FRAME_SIZE = Some (Some hp, ba') \<and> unat hp + unat hlen \<le> x \<and>
      unat hp + unat hlen \<le> r_end r"
    by (rule boot_places [OF eff(1) _ r(1,2) _ r(3) byt(3)]) (use ok eff(2) r(1,2) in \<open>auto simp: ram_ok_def r_aligned_def\<close>)
  have set: "set_physmap_base s ?b = Some s1" "ft_base s1 = 0" "phys_map_base s1 = ?b" "fresh_lists s1"
    using s by (auto simp: set_physmap_base_def s1_def unbooted_def fresh_lists_def Let_def)
  have rm: "r_end r \<le> unat m" using ends r by blast
  have va: "phys_to_virt s1 ftp = Some (?b + ftp)" "unat (?b + ftp) = unat ?b + unat ftp"
    using phys_to_virt_ok [of s1 ftp] set(3) base ft(3) rm by (auto simp: unat_add_no_wrap)
  then have va0: "?b + ftp \<noteq> 0" using base(1) by (metis add_is_0 unat_0 unat_eq_zero)
  obtain s2 where s2: "init_table_zeroed s1 (?b + ftp) ?tot bytes = Some (Inr s2)"
    using va0 set(2) by (simp add: init_table_zeroed_def Let_def)
  note z = zero_infos [OF s2 byt(2)]
  have fte: "uadd ftp bytes = Some (ftp + bytes)" "unat (ftp + bytes) = unat ftp + unat bytes"
    using ft(3) rm me(3) by (auto simp: uadd_def unat_add_no_wrap)
  have ph: "phys_map_base s2 \<noteq> 0" "fresh_lists s2" "phys_map_base s2 = ?b" using z set(3,4) base(1) by simp_all
  have bnd: "unat hp + unat hlen \<le> r_end r \<Longrightarrow> unat ?b + unat hp < 2 ^ 64 \<and> unat hp + unat hlen < 2 ^ 64" for hp :: u64
    using rm base(2) me(3) by simp
  obtain s3 hi where h: "place_heap s2 ba hlen (ftp + bytes) = Some (Inr (s3, hi))" "unat hi \<le> x" "hlen \<le> hi"
    "infos s3 = infos s2" "ft_base s3 = ft_base s2" "ft_num s3 = ft_num s2" "phys_map_base s3 = ?b" "fresh_lists s3"
    by (rule place_heapI [OF ph(1,2) _ ft(4)]) (use ft(2) fte(2) bnd ph(3) in auto)
  obtain out s' caps' where f: "pmm_fill s3 eff specs caps hlen m ?tot bytes ftp hi = Some (Inr (out, s', caps'))"
      "ram_end out = m" "hlen \<noteq> 0 \<longrightarrow> heap_phys out = hi - hlen"
  proof -
    have "\<exists>out s' caps'. pmm_fill s3 eff specs caps hlen m ?tot bytes ftp hi = Some (Inr (out, s', caps')) \<and> ram_end out = m \<and>
      (hlen \<noteq> 0 \<longrightarrow> heap_phys out = hi - hlen)"
  proof (rule pmm_fillI [OF ok eff(1)])
    have n: "ft_num s3 = ?tot" "unat ?tot * 4096 = unat m" using h z tot(2) m0 by simp_all
    show "ft_base s3 \<noteq> 0" "fresh_lists s3" "length specs \<le> length caps" "hlen \<le> hi" using h z len by simp_all
    show "unat (ft_num s3) < 2 ^ 32" using n me(3) by simp
    show "physmap_covers s3 (unat (ft_num s3))" using n h base by (simp add: physmap_covers_def)
    show "infos s3 f = zero_info" if "in_table s3 f" for f
      using that z(4) [of f] h n by (simp add: in_table_def word_less_nat_alt)
    show "r_end r \<le> unat (ft_num s3) * 4096" if "r \<in> set eff" "mr_kind r = Usable" for r using ends that n by simp
    show "\<forall>sp\<in>set specs. spec_ok sp \<and> unat hi \<le> unat (us_base_phys sp) \<and> 2 ^ 20 \<le> unat (us_base_phys sp) \<and>
        {unat (us_base_phys sp)..<unat (us_base_phys sp) + unat (us_len sp)} \<subseteq> usable_addrs eff"
      using bt h(2) by (meson le_trans)
    show "sorted_wrt (\<lambda>a b. spec_frames a \<inter> spec_frames b = {}) specs" using bt by blast
  qed
    then show ?thesis using that by blast
  qed
  have "pmm_init s boot specs caps hlen = Some (Inr (out, s', caps'))"
    using set(1) chk tot(1) byt(2) ft(1) va(1) s2 fte(1) h(1) be me(1,2) hl len f(1)
    by (simp add: pmm_init_def) (simp add: kconsts)
  moreover have "unat (hi - hlen) + unat hlen \<le> x" using h(2,3) by (simp add: unat_sub word_le_nat_alt)
  ultimately show ?thesis
    using f(2,3) by auto
qed

section \<open>A small machine\<close>

text \<open>
  Sixteen frames of RAM from 1 MiB, behind a reserved region; the kernel image takes two frames,
  the frame table two, the heap one, and two are requested as untyped memory.
\<close>

definition example_boot :: boot_info where
  "example_boot = \<lparr>bi_physmap_base = 0xFFFF800000000000,
     bi_regions = [\<lparr>mr_start = 0, mr_len = 0x9FC00, mr_kind = ReservedRegion\<rparr>,
       \<lparr>mr_start = 0x100000, mr_len = 0x10000, mr_kind = Usable\<rparr>],
     bi_kernel_image = (0x100000, 0x1800)\<rparr>"

definition example_spec :: untyped_spec where
  "example_spec = \<lparr>us_base_phys = 0x108000, us_len = 0x2000\<rparr>"

definition example_effective :: "memory_region list" where
  "example_effective = [\<lparr>mr_start = 0, mr_len = 0x9FC00, mr_kind = ReservedRegion\<rparr>,
     \<lparr>mr_start = 0x102000, mr_len = 0xE000, mr_kind = Usable\<rparr>]"

definition unbooted_pmm :: pmm where
  "unbooted_pmm = \<lparr>phys_map_base = 0, mem = (\<lambda>_. 0), ft_base = 0, ft_num = 0, infos = (\<lambda>_. zero_info),
     shards = replicate 64 empty_shard, global = empty_shard\<rparr>"

lemma pow4096: "is_power_of_two 4096"
  using FRAME_SIZE_pow(1) by (simp add: kconsts)

lemma example_effective: "build_effective example_boot = Some (Inr example_effective)"
  "max_region_end example_effective 0 = Some 0x110000"
  by (simp_all add: build_effective_def example_boot_def example_effective_def round_down_def round_up_def align_up_def
      pow4096 kconsts uadd_def usub_def region_end_def split_image_def push_region_def Let_def)

lemma example_bootable: "bootable example_boot [example_spec] 0x1000 example_effective 0x110000 0x108000"
  unfolding bootable_def
  by (simp add: example_effective)
   (simp add: example_boot_def example_spec_def example_effective_def address_order_def r_end_def round_to_def
      spec_ok_def r_range_def)

lemma example_unbooted: "unbooted unbooted_pmm"
  by (simp add: unbooted_def unbooted_pmm_def fresh_lists_def)


section \<open>Properties\<close>

text \<open>C6: \<^verbatim>\<open>pmm_init\<close> succeeds on every map it can serve, and what it returns is right: the frame
  table and the heap lie in RAM behind each other, the kernel pool is exactly the usable frames
  outside the kernel image, the low megabyte, the frame table, the heap and the untyped regions,
  each untyped capability covers exactly its request with every frame untaken, and the free
  lists are well formed.\<close>

theorem pmm_init_boots:
  assumes "unbooted s" "bootable boot specs hlen eff m x" "length specs \<le> length caps"
  shows "\<exists>out s' caps' lo hi. pmm_init s boot specs caps hlen = Some (Inr (out, s', caps')) \<and>
    booted boot specs hlen out s' caps' lo hi \<and> pmm_boot s' \<and> pmm_ok s'"
proof -
  obtain out s' caps' where i: "pmm_init s boot specs caps hlen = Some (Inr (out, s', caps'))" "ram_end out = m"
    using pmm_initI [OF assms] by blast
  have "address_order (bi_regions boot)" "unat m \<le> 2 ^ 44 - 4096" "unat (bi_physmap_base boot) + unat m + 4096 \<le> 2 ^ 64"
    using assms(2) by (simp_all add: bootable_def)
  with pmm_initD [OF i(1) assms(1)] i show ?thesis by blast
qed

theorem pmm_init_boots_witness:
  "bootable example_boot [example_spec] 0x1000 example_effective 0x110000 0x108000 \<and>
   (\<exists>out s' caps'. pmm_init unbooted_pmm example_boot [example_spec] [new_cap 0 0 0] 0x1000 = Some (Inr (out, s', caps')) \<and>
     pmm_ok s')"
  using pmm_init_boots [OF example_unbooted example_bootable, of "[new_cap 0 0 0]"] example_bootable by auto

text \<open>C14: Whatever map it is given (in address order, below 16 TiB and covered by the physmap), a
  successful \<^verbatim>\<open>pmm_init\<close> has set up the pool, the table, the heap and the capabilities correctly.\<close>

theorem pmm_init_sound:
  assumes "pmm_init s boot specs caps hlen = Some (Inr (out, s', caps'))" "unbooted s"
    "address_order (bi_regions boot)" "unat (ram_end out) \<le> 2 ^ 44 - 4096"
    "unat (bi_physmap_base boot) + unat (ram_end out) + 4096 \<le> 2 ^ 64"
  shows "(\<exists>lo hi. booted boot specs hlen out s' caps' lo hi) \<and> pmm_boot s' \<and> pmm_ok s'"
  by (rule pmm_initD [OF assms])

theorem pmm_init_sound_witness:
  "\<exists>out s' caps' lo hi. pmm_init unbooted_pmm example_boot [example_spec] [new_cap 0 0 0] 0x1000 = Some (Inr (out, s', caps')) \<and>
     booted example_boot [example_spec] 0x1000 out s' caps' lo hi"
proof -
  obtain out s' caps' where i: "pmm_init unbooted_pmm example_boot [example_spec] [new_cap 0 0 0] 0x1000 =
      Some (Inr (out, s', caps'))" "ram_end out = 0x110000"
    using pmm_initI [OF example_unbooted example_bootable, of "[new_cap 0 0 0]"] by auto
  have "address_order (bi_regions example_boot)" using example_bootable by (simp add: bootable_def)
  with pmm_init_sound [OF i(1) example_unbooted] i show ?thesis by (fastforce simp: example_boot_def)
qed

text \<open>C15: After boot no allocation ever returns kernel memory: along every run, each frame that
  \<^verbatim>\<open>alloc_frame\<close> hands out is usable RAM above the first megabyte, outside the kernel image and
  outside the frame table and the heap.\<close>

theorem kernel_memory_never_allocated:
  assumes "pmm_init s boot specs caps hlen = Some (Inr (out, s', caps'))" "unbooted s"
    "address_order (bi_regions boot)" "unat (ram_end out) \<le> 2 ^ 44 - 4096"
    "unat (bi_physmap_base boot) + unat (ram_end out) + 4096 \<le> 2 ^ 64"
  shows "\<exists>lo hi. booted boot specs hlen out s' caps' lo hi \<and>
    (\<forall>t f u. pmm_step\<^sup>*\<^sup>* s' t \<longrightarrow> alloc_frame t = Some (Some f, u) \<longrightarrow>
      unat f * 4096 \<in> usable_addrs (bi_regions boot) - image_range boot \<and> 2 ^ 20 \<le> unat f * 4096 \<and>
      \<not> (lo \<le> unat f * 4096 \<and> unat f * 4096 < hi))"
proof -
  obtain lo hi where b: "booted boot specs hlen out s' caps' lo hi" "pmm_boot s'" using pmm_initD [OF assms] by blast
  have "unat f * 4096 \<in> usable_addrs (bi_regions boot) - image_range boot \<and> 2 ^ 20 \<le> unat f * 4096 \<and>
      \<not> (lo \<le> unat f * 4096 \<and> unat f * 4096 < hi)"
    if run: "pmm_step\<^sup>*\<^sup>* s' t" and al: "alloc_frame t = Some (Some f, u)" for t f u
  proof -
    obtain l g where i: "pmm_inv t l g" using pmm_sys.reachable_inv [OF b(2) run] by (auto simp: system_inv_def)
    have f: "f \<in> free_frames t" using alloc_frame_post [OF i] al by auto
    have "grants_only s' t"
      by (rule pmm_sys.steps_stable [OF _ grants_only_refl grants_only_trans run pmm_sys.init_inv [OF b(2)]])
        (use pmm_step_inv in blast)+
    moreover have "owner (infos t f) \<noteq> RESERVED" "in_table t f" using f by (simp_all add: free_frames_def owner_eq_iff)
    ultimately have "owner (infos s' f) \<noteq> RESERVED" "in_table s' f" by (simp_all add: grants_only_def in_table_def)
    with b(1) have "f \<in> boot_pool boot [] lo hi" unfolding booted_def by blast
    then show ?thesis by (simp add: boot_pool_def kept_out_def)
  qed
  with b(1) show ?thesis by blast
qed

theorem kernel_memory_never_allocated_witness:
  "\<exists>s' f u. pmm_boot s' \<and> alloc_frame s' = Some (Some f, u) \<and> unat f * 4096 \<notin> image_range example_boot"
proof -
  obtain out s' caps' where i: "pmm_init unbooted_pmm example_boot [example_spec] [new_cap 0 0 0] 0x1000 =
      Some (Inr (out, s', caps'))" "ram_end out = 0x110000" "unat (heap_phys out) + 0x1000 \<le> 0x108000"
    using pmm_initI [OF example_unbooted example_bootable, of "[new_cap 0 0 0]"] by auto
  have ord: "address_order (bi_regions example_boot)" using example_bootable by (simp add: bootable_def)
  have bnd: "unat (ram_end out) \<le> 2 ^ 44 - 4096" "unat (bi_physmap_base example_boot) + unat (ram_end out) + 4096 \<le> 2 ^ 64"
    using i(2) by (simp_all add: example_boot_def)
  obtain lo hi where b: "booted example_boot [example_spec] 0x1000 out s' caps' lo hi"
    using pmm_initD [OF i(1) example_unbooted ord bnd] by blast
  have p: "pmm_boot s'" "pmm_ok s'" using pmm_initD [OF i(1) example_unbooted ord bnd] by simp_all
  have "hi \<le> 0x108000" using b i(3) by (simp add: booted_def)
  then have "271 \<in> boot_pool example_boot [example_spec] lo hi"
    by (simp add: boot_pool_def kept_out_def example_boot_def example_spec_def spec_frames_def image_range_def
        r_range_def r_end_def)
  then have "free_frames s' \<noteq> {}" using b by (auto simp: booted_def)
  then obtain f u where a: "alloc_frame s' = Some (Some f, u)" using alloc_pool [OF p(2)] by blast
  from kernel_memory_never_allocated [OF i(1) example_unbooted ord bnd] a have "unat f * 4096 \<notin> image_range example_boot"
    by blast
  with p(1) a show ?thesis by blast
qed

text \<open>The bump allocator hands out blocks inside usable regions, one behind the other: no two
  of the blocks a sequence of requests obtains overlap.\<close>

theorem boot_allocs_disjoint:
  assumes "address_order rs" "boot_allocs (new_boot_allocator rs) reqs = Some (xs, ba)"
  shows "sorted_wrt (\<lambda>(a, n) (b, m). unat a + unat n \<le> unat b) xs \<and>
    (\<forall>(a, n)\<in>set xs. \<exists>r\<in>set rs. fits_in r (unat a) (unat n))"
  using boot_allocs_ordered [of "new_boot_allocator rs" 0 reqs xs ba] assms
  by (auto simp: new_boot_allocator_def behind_def)

lemma example_boot_allocs:
  "\<exists>xs ba. boot_allocs (new_boot_allocator (bi_regions example_boot)) [(0x1000, 0x1000), (0x2000, 0x1000)] = Some (xs, ba) \<and>
     length xs = 2"
  by (simp add: boot_alloc_def boot_alloc_loop.simps example_boot_def new_boot_allocator_def skip_region_def pow4096
      align_up_def uadd_def usub_def region_end_def)

theorem boot_allocs_disjoint_witness:
  "\<exists>xs ba. boot_allocs (new_boot_allocator (bi_regions example_boot)) [(0x1000, 0x1000), (0x2000, 0x1000)] = Some (xs, ba) \<and>
     length xs = 2 \<and> sorted_wrt (\<lambda>(a, n) (b, m). unat a + unat n \<le> unat b) xs"
proof -
  have "address_order (bi_regions example_boot)" using example_bootable by (simp add: bootable_def)
  with boot_allocs_disjoint example_boot_allocs show ?thesis by blast
qed

text \<open>C32: Cutting out the kernel image is exact: with at most 126 regions in address order the
  effective map is built, and its usable addresses are those of the boot map without the frames
  the image touches.\<close>

theorem build_effective_exact:
  assumes "usable_no_wrap (bi_regions boot)" "address_order (bi_regions boot)" "length (bi_regions boot) \<le> 126"
    "unat (fst (bi_kernel_image boot)) + unat (snd (bi_kernel_image boot)) + 4096 < 2 ^ 64"
  shows "\<exists>eff. build_effective boot = Some (Inr eff) \<and> usable_addrs eff = usable_addrs (bi_regions boot) - image_range boot"
  by (rule build_effective_ok [OF assms])

theorem build_effective_exact_witness:
  "\<exists>eff. build_effective example_boot = Some (Inr eff) \<and>
     usable_addrs eff = usable_addrs (bi_regions example_boot) - image_range example_boot"
  by (rule build_effective_exact)
    (simp_all add: example_boot_def usable_no_wrap_def r_end_def address_order_def)

end
