(* ===== verification/Multiboot.thy ===== *)
theory Multiboot
  imports Rolnix_Prelude
begin

text \<open>
  \<^verbatim>\<open>boot/src/multiboot.rs\<close>: the memory map the bootloader leaves in memory. Memory is the function that
  gives the 32-bit word at an address; the entries written to \<^verbatim>\<open>out\<close> are a list.
\<close>

section \<open>Parsing\<close>

definition MAGIC :: u32 where [kconsts]: "MAGIC = 0x2BADB002"
definition MT_USABLE :: u32 where [kconsts]: "MT_USABLE = 1"

record mem_entry =
  me_start :: u64
  me_len :: u64
  me_kind :: u32

text \<open>A \<^verbatim>\<open>u64\<close> read at a 4-byte aligned address.\<close>

definition read_u64 :: "(usize \<Rightarrow> u32) \<Rightarrow> usize \<Rightarrow> u64" where
  "read_u64 m a = ucast (m a) OR push_bit 32 (ucast (m (a + 4)))"

text \<open>The \<^verbatim>\<open>while\<close> loop, with the room left in \<^verbatim>\<open>out\<close>.\<close>

fun mmap_loop :: "(usize \<Rightarrow> u32) \<Rightarrow> nat \<Rightarrow> usize \<Rightarrow> usize \<Rightarrow> mem_entry list option" where
  "mmap_loop m 0 p e = Some []"
| "mmap_loop m (Suc n) p e =
    (if p < e then do {
       let sz = m p;
       let base = read_u64 m (p + 4);
       let len = read_u64 m (p + 4 + 8);
       let ty = m (p + 4 + 16);
       if sz < 20 then Some []
       else do {
         q \<leftarrow> uadd p 4;
         q \<leftarrow> uadd q (ucast sz);
         es \<leftarrow> mmap_loop m n q e;
         Some (\<lparr>me_start = base, me_len = len, me_kind = ty\<rparr> # es)
       }
     } else Some [])"

definition parse :: "(usize \<Rightarrow> u32) \<Rightarrow> usize \<Rightarrow> nat \<Rightarrow> mem_entry list option option" where
  "parse m mbi room = do {
     let flags = m mbi;
     let mem_upper = (if flags AND 0x1 \<noteq> 0 then m (mbi + 4 * 2) else 0);
     es \<leftarrow> (if flags AND push_bit 6 1 \<noteq> 0 then do {
         let mmap_addr = ucast (m (mbi + 4 * 12));
         let mmap_len = ucast (m (mbi + 4 * 11));
         e \<leftarrow> uadd mmap_addr mmap_len;
         mmap_loop m room mmap_addr e
       } else Some []);
     es \<leftarrow> (if es = [] \<and> mem_upper \<noteq> 0 then do {
         len \<leftarrow> umul (ucast mem_upper) 1024;
         rassert (0 < room);
         Some [\<lparr>me_start = 0x100000, me_len = len, me_kind = MT_USABLE\<rparr>]
       } else Some es);
     Some (if es = [] then None else Some es)
   }"

section \<open>The format\<close>

text \<open>A record as the bootloader writes it: the size of what follows, base, length, type, and whatever makes
  up the rest of the size.\<close>

definition encode_entry :: "u32 \<times> mem_entry \<Rightarrow> u32 list" where
  "encode_entry = (\<lambda>(sz, e). [sz, ucast (me_start e), ucast (drop_bit 32 (me_start e)), ucast (me_len e), ucast (drop_bit 32 (me_len e)), me_kind e] @
     replicate (unat sz div 4 - 5) 0)"

definition words_at :: "(usize \<Rightarrow> u32) \<Rightarrow> usize \<Rightarrow> u32 list \<Rightarrow> bool" where
  "words_at m p ws \<longleftrightarrow> unat p + 4 * length ws < 2 ^ 64 \<and> (\<forall>k<length ws. m (p + word_of_nat (4 * k)) = ws ! k)"

definition sized :: "u32 \<times> mem_entry \<Rightarrow> bool" where
  "sized r \<longleftrightarrow> 20 \<le> fst r \<and> 4 dvd unat (fst r)"

text \<open>The map of \<open>len\<close> bytes at \<open>a\<close> starts with the records \<open>rs\<close>, after which it ends or a record follows whose
  size field is too small.\<close>

definition map_at :: "(usize \<Rightarrow> u32) \<Rightarrow> usize \<Rightarrow> nat \<Rightarrow> (u32 \<times> mem_entry) list \<Rightarrow> bool" where
  "map_at m a len rs \<longleftrightarrow> (let n = 4 * length (concat (map encode_entry rs)) in
     (\<forall>r\<in>set rs. sized r) \<and> words_at m a (concat (map encode_entry rs)) \<and> (len = n \<or> n < len \<and> m (a + word_of_nat n) < 20))"

text \<open>Without a usable map, the upper memory the info block gives.\<close>

definition fallback :: "(usize \<Rightarrow> u32) \<Rightarrow> usize \<Rightarrow> mem_entry list option" where
  "fallback m mbi = (if bit (m mbi) 0 \<and> m (mbi + 8) \<noteq> 0 then Some [\<lparr>me_start = 0x100000, me_len = ucast (m (mbi + 8)) * 1024, me_kind = MT_USABLE\<rparr>] else None)"

lemma halves: "(ucast (ucast x :: u32) :: u64) OR push_bit 32 (ucast (ucast (drop_bit 32 x) :: u32)) = x" for x :: u64
  by (rule bit_word_eqI) (auto simp: bit_simps)

lemma length_encode: "sized r \<Longrightarrow> 4 * length (encode_entry r) = 4 + unat (fst r)"
  by (cases r) (auto simp: encode_entry_def sized_def word_le_nat_alt)

lemma words_at_append:
  assumes "words_at m p (ws @ ws')"
  shows "words_at m p ws" "words_at m (p + word_of_nat (4 * length ws)) ws'"
proof -
  have b: "unat p + 4 * (length ws + length ws') < 2 ^ 64" using assms by (simp add: words_at_def)
  show "words_at m p ws" using assms unfolding words_at_def by (auto simp: nth_append dest!: spec)
  have u: "unat (word_of_nat (4 * length ws) :: usize) = 4 * length ws" using b by (simp add: unat_of_nat del: of_nat_mult)
  then have "unat (p + word_of_nat (4 * length ws)) = unat p + 4 * length ws" using b by (subst unat_add_no_wrap) auto
  moreover have "m (p + word_of_nat (4 * length ws) + word_of_nat (4 * k)) = ws' ! k" if "k < length ws'" for k
    using assms that unfolding words_at_def by (auto simp: nth_append algebra_simps dest!: spec [of _ "length ws + k"])
  ultimately show "words_at m (p + word_of_nat (4 * length ws)) ws'" using b by (simp add: words_at_def)
qed

lemma read_entry:
  assumes "words_at m p (encode_entry (sz, e))"
  shows "m p = sz" "read_u64 m (p + 4) = me_start e" "read_u64 m (p + 4 + 8) = me_len e" "m (p + 4 + 16) = me_kind e"
proof -
  have k: "m (p + word_of_nat (4 * k)) = encode_entry (sz, e) ! k" if "k < 6" for k
    using assms that by (simp add: words_at_def encode_entry_def)
  show "m p = sz" "m (p + 4 + 16) = me_kind e" using k [of 0] k [of 5] by (simp_all add: encode_entry_def add.commute)
  show "read_u64 m (p + 4) = me_start e" using k [of 1] k [of 2] by (simp add: encode_entry_def read_u64_def halves add.commute)
  show "read_u64 m (p + 4 + 8) = me_len e" using k [of 3] k [of 4] by (simp add: encode_entry_def read_u64_def halves add.commute)
qed

lemma mmap_loop_reads:
  assumes "words_at m p (concat (map encode_entry rs))" "\<forall>r\<in>set rs. sized r"
    "unat e = unat p + 4 * length (concat (map encode_entry rs)) \<or>
     unat p + 4 * length (concat (map encode_entry rs)) < unat e \<and> m (p + word_of_nat (4 * length (concat (map encode_entry rs)))) < 20"
  shows "mmap_loop m n p e = Some (take n (map snd rs))"
  using assms
proof (induction rs arbitrary: n p)
  case Nil
  then have "\<not> p < e \<or> m p < 20" by (auto simp: word_less_nat_alt)
  then show ?case by (cases n) (auto simp: Let_def)
next
  case (Cons r rs)
  obtain sz en where r: "r = (sz, en)" by fastforce
  have len: "4 * length (encode_entry r) = 4 + unat sz" "20 \<le> sz" using Cons(3) length_encode [of r] by (simp_all add: r sized_def)
  have w: "words_at m p (encode_entry r)" "words_at m (p + word_of_nat (4 * length (encode_entry r))) (concat (map encode_entry rs))"
    using words_at_append [of m p "encode_entry r" "concat (map encode_entry rs)"] Cons(2) by simp_all
  have b: "unat p + 4 + unat sz + 4 * length (concat (map encode_entry rs)) < 2 ^ 64" using Cons(2) len(1) by (simp add: words_at_def)
  have u: "unat (ucast sz :: usize) = unat sz" by (simp add: unat_ucast_up)
  have p4: "unat (p + 4) = unat p + 4" using b by (subst unat_add_no_wrap) simp_all
  have q: "uadd p 4 = Some (p + 4)" "uadd (p + 4) (ucast sz) = Some (p + 4 + ucast sz)" using b p4 u by (simp_all add: uadd_def)
  have qu: "unat (p + 4 + ucast sz) = unat p + 4 + unat sz" using b p4 u by (subst unat_add_no_wrap) simp_all
  have qe: "p + word_of_nat (4 * length (encode_entry r)) = p + 4 + ucast sz" unfolding len(1) by (simp add: u [symmetric])
  show ?case
  proof (cases n)
    case (Suc k)
    let ?n = "4 * length (concat (map encode_entry rs))"
    have sum: "4 * length (concat (map encode_entry (r # rs))) = 4 + unat sz + ?n" using len(1) by simp
    have "word_of_nat (4 + unat sz + ?n) = (4 + ucast sz + word_of_nat ?n :: usize)" by (simp add: u [symmetric])
    then have "p + word_of_nat (4 + unat sz + ?n) = p + 4 + ucast sz + word_of_nat ?n" by (simp only: add.assoc)
    then have "unat e = unat (p + 4 + ucast sz) + ?n \<or> unat (p + 4 + ucast sz) + ?n < unat e \<and> m (p + 4 + ucast sz + word_of_nat ?n) < 20"
      using Cons(4) unfolding sum qu by (auto simp only: add.assoc)
    then have "mmap_loop m k (p + 4 + ucast sz) e = Some (take k (map snd rs))"
      using Cons(1) [OF w(2) [unfolded qe], of k] Cons(3) by simp
    moreover have "p < e" using Cons(4) len(1) by (auto simp: word_less_nat_alt)
    moreover have "\<not> sz < 20" using len(2) by simp
    ultimately show ?thesis using read_entry [OF w(1) [unfolded r]] q by (simp add: Suc r)
  qed simp
qed

text \<open>The address stays below \<open>2 ^ 33\<close>, the largest end of a map, so advancing it cannot overflow.\<close>

lemma mmap_loop_returns: "unat e < 2 ^ 33 \<Longrightarrow> \<exists>es. mmap_loop m n p e = Some es \<and> length es \<le> n"
proof (induction n arbitrary: p)
  case (Suc n)
  show ?case
  proof (cases "p < e \<and> \<not> m p < 20")
    case True
    then have p: "unat p < 2 ^ 33" using Suc(2) by (simp add: word_less_nat_alt)
    have u: "unat (ucast (m p) :: usize) < 2 ^ 32" using unsigned_less [of "m p", where 'a = nat] by (simp add: unat_ucast_up)
    have "unat (p + 4) = unat p + 4" using p by (subst unat_add_no_wrap) simp_all
    then have "uadd p 4 = Some (p + 4)" "uadd (p + 4) (ucast (m p)) = Some (p + 4 + ucast (m p))" using p u by (simp_all add: uadd_def)
    then show ?thesis using True Suc(1) [OF Suc(2), of "p + 4 + ucast (m p)"] by auto
  qed (auto simp: Let_def)
qed simp

section \<open>Properties\<close>

text \<open>C28: \<^verbatim>\<open>parse\<close> terminates without a panic on any memory content when \<^verbatim>\<open>out\<close> is not empty, writing at most
  \<^verbatim>\<open>out.len()\<close> entries, and reads back what a bootloader wrote: with the memory-map flag set and records of at
  least 20 bytes at the address the info block gives, the result is the list of their entries, cut off where
  \<^verbatim>\<open>out\<close> is full. A record with a smaller size field ends the map: the entries before it are the result. Without the
  flag, or when the very first record is malformed or the map is empty, the result is the upper memory of the info
  block, or nothing if it gives none.\<close>

theorem parse_correct:
  assumes "0 < room"
  shows "\<exists>r. parse m mbi room = Some r \<and> (r = None \<or> (\<exists>es. r = Some es \<and> es \<noteq> [] \<and> length es \<le> room)) \<and>
    (\<not> bit (m mbi) 6 \<longrightarrow> r = fallback m mbi) \<and>
    (\<forall>rs. bit (m mbi) 6 \<and> map_at m (ucast (m (mbi + 48))) (unat (m (mbi + 44))) rs \<longrightarrow>
       r = (if rs = [] then fallback m mbi else Some (take room (map snd rs))))"
proof -
  let ?a = "ucast (m (mbi + 48)) :: usize" and ?l = "ucast (m (mbi + 44)) :: usize"
  have ab: "unat ?a < 2 ^ 32" "unat ?l < 2 ^ 32" "unat ?l = unat (m (mbi + 44))"
    using unsigned_less [of "m (mbi + 48)", where 'a = nat] unsigned_less [of "m (mbi + 44)", where 'a = nat] by (simp_all add: unat_ucast_up)
  have e: "uadd ?a ?l = Some (?a + ?l)" "unat (?a + ?l) = unat ?a + unat ?l" using ab by (simp_all add: uadd_def unat_add_no_wrap)
  obtain es where es: "mmap_loop m room ?a (?a + ?l) = Some es" "length es \<le> room"
    using mmap_loop_returns [of "?a + ?l" m room ?a] e(2) ab by auto
  have f: "m mbi AND push_bit 6 1 \<noteq> 0 \<longleftrightarrow> bit (m mbi) 6" unfolding and_flag_len by simp
  have f0: "m mbi AND 1 \<noteq> 0 \<longleftrightarrow> bit (m mbi) 0" using and_flag_len [of "m mbi" 0] by simp
  define es' where "es' = (if bit (m mbi) 6 then es else [])"
  have mu: "umul (ucast u) 1024 = Some (ucast u * 1024 :: u64)" for u :: u32
    using unsigned_less [of u, where 'a = nat] by (intro umul_SomeI) (simp add: unat_ucast_up)
  let ?r = "if es' = [] then fallback m mbi else Some es'"
  have "parse m mbi room = Some ?r" unfolding parse_def Let_def f f0 using assms by (simp add: es'_def e(1) es(1) mu fallback_def)
  moreover have "?r = None \<or> (\<exists>es. ?r = Some es \<and> es \<noteq> [] \<and> length es \<le> room)" using es(2) assms by (auto simp: es'_def fallback_def)
  moreover have "?r = fallback m mbi" if "\<not> bit (m mbi) 6" using that by (simp add: es'_def)
  moreover have "?r = (if rs = [] then fallback m mbi else Some (take room (map snd rs)))" if "bit (m mbi) 6" "map_at m ?a (unat (m (mbi + 44))) rs" for rs
  proof -
    have "mmap_loop m room ?a (?a + ?l) = Some (take room (map snd rs))"
      by (rule mmap_loop_reads) (use e(2) ab(3) that(2) in \<open>auto simp: map_at_def Let_def\<close>)
    then show ?thesis using es(1) that(1) assms by (auto simp: es'_def)
  qed
  ultimately show ?thesis by blast
qed

text \<open>One record, and then one whose size field is 8.\<close>

definition example_mbi :: "usize \<Rightarrow> u32" where
  "example_mbi a = (if a = 0 then 0x40 else if a = 44 then 48 else if a = 48 then 256 else if a = 256 then 20
     else if a = 256 + 8 then 1 else if a = 256 + 12 then 0x2000 else if a = 256 + 20 then 1 else if a = 256 + 24 then 8 else 0)"

theorem parse_correct_witness: "parse example_mbi 0 64 = Some (Some [\<lparr>me_start = 2 ^ 32, me_len = 0x2000, me_kind = MT_USABLE\<rparr>])"
proof -
  let ?e = "\<lparr>me_start = 2 ^ 32, me_len = 0x2000, me_kind = MT_USABLE\<rparr>"
  have enc: "encode_entry (20, ?e) = [20, 0, 1, 0x2000, 0, 1]" by code_simp
  have "\<forall>k\<in>set [0..<6]. example_mbi (256 + word_of_nat (4 * k)) = [20, 0, 1, 0x2000, 0, 1] ! k" by (simp add: upt_rec example_mbi_def)
  then have "words_at example_mbi 256 [20, 0, 1, 0x2000, 0, 1]" by (simp add: words_at_def)
  moreover have "concat (map encode_entry [(20, ?e)]) = [20, 0, 1, 0x2000, 0, 1]" using enc by (simp only: list.map concat.simps append_Nil2)
  moreover have "example_mbi (256 + word_of_nat 24) = 8" by (simp add: example_mbi_def)
  ultimately have "map_at example_mbi 256 48 [(20, ?e)]" unfolding map_at_def Let_def by (simp add: sized_def)
  then show ?thesis using parse_correct [of 64 example_mbi 0]
    by (auto simp: example_mbi_def bit_numeral_rec dest!: spec [of _ "[(20, ?e)]"])
qed

end
