(* ===== verification/Boot_Map.thy ===== *)
theory Boot_Map
  imports Boot_Init Multiboot
begin

text \<open>
  The memory map of \<^verbatim>\<open>boot/src/main.rs\<close>: \<^verbatim>\<open>fill_regions\<close> turns the entries of the bootloader into the regions
  \<^verbatim>\<open>pmm_init\<close> gets, \<^verbatim>\<open>pick_untyped_spec\<close> chooses the untyped memory. Where the source prints and halts, the
  result is \<open>None\<close>.
\<close>

section \<open>Regions\<close>

definition MAX_REGIONS_HARNESS :: nat where "MAX_REGIONS_HARNESS = 64"
definition UNTYPED_LEN :: u64 where [kconsts]: "UNTYPED_LEN = 64 * 1024 * 1024"

text \<open>The body of the loop over the entries: the region written for an entry, if any.\<close>

definition entry_region :: "mem_entry \<Rightarrow> memory_region option option" where
  "entry_region e = do {
     let kind = (if me_kind e = MT_USABLE then Usable else ReservedRegion);
     if kind = Usable then do {
       t \<leftarrow> uadd (me_start e) FRAME_SIZE;
       t \<leftarrow> usub t 1;
       let start = t AND NOT (FRAME_SIZE - 1);
       let end = (case uadd (me_start e) (me_len e) of Some x \<Rightarrow> x | None \<Rightarrow> me_start e) AND NOT (FRAME_SIZE - 1);
       if end \<le> start then Some None
       else Some (Some \<lparr>mr_start = start, mr_len = end - start, mr_kind = kind\<rparr>)
     }
     else Some (Some \<lparr>mr_start = me_start e, mr_len = me_len e, mr_kind = kind\<rparr>)
   }"

fun copy_entries :: "mem_entry list \<Rightarrow> memory_region list option" where
  "copy_entries [] = Some []"
| "copy_entries (e # es) = do {
     r \<leftarrow> entry_region e;
     rs \<leftarrow> copy_entries es;
     Some (case r of None \<Rightarrow> rs | Some r \<Rightarrow> r # rs)
   }"

fun shift_loop :: "memory_region list \<Rightarrow> nat \<Rightarrow> memory_region \<Rightarrow> memory_region list" where
  "shift_loop out 0 key = out[0 := key]"
| "shift_loop out (Suc j) key =
    (if mr_start (out ! j) > mr_start key then shift_loop (out[Suc j := out ! j]) j key else out[Suc j := key])"

definition sort_regions :: "memory_region list \<Rightarrow> nat \<Rightarrow> memory_region list" where
  "sort_regions out n = foldl (\<lambda>out i. shift_loop out i (out ! i)) out [1..<n]"

definition fill_regions :: "(usize \<Rightarrow> u32) \<Rightarrow> usize \<Rightarrow> memory_region list option" where
  "fill_regions m mbi = do {
     r \<leftarrow> parse m mbi MAX_REGIONS_HARNESS;
     raw \<leftarrow> r;
     out \<leftarrow> copy_entries raw;
     Some (sort_regions out (length out))
   }"

fun best_region :: "memory_region list \<Rightarrow> u64 \<times> u64 \<Rightarrow> (u64 \<times> u64) option" where
  "best_region [] b = Some b"
| "best_region (r # rs) (best_start, best_end) =
    (if mr_kind r = Usable then do {
       e \<leftarrow> region_end r;
       best_region rs (if e > best_end then (mr_start r, e) else (best_start, best_end))
     } else best_region rs (best_start, best_end))"

definition pick_untyped_spec :: "memory_region list \<Rightarrow> untyped_spec option" where
  "pick_untyped_spec regions = do {
     (best_start, best_end) \<leftarrow> best_region regions (0, 0);
     if best_end = 0 then None
     else do {
       d \<leftarrow> usub best_end best_start;
       let len = min UNTYPED_LEN d;
       b \<leftarrow> usub best_end len;
       Some \<lparr>us_base_phys = b, us_len = len\<rparr>
     }
   }"

section \<open>The insertion sort\<close>

lemma shift_loop_inserts:
  assumes "sorted (map mr_start ys)"
  shows "shift_loop (ys @ x # zs) (length ys) key =
    filter (\<lambda>y. mr_start y \<le> mr_start key) ys @ key # filter (\<lambda>y. mr_start key < mr_start y) ys @ zs"
  using assms
proof (induction ys arbitrary: x zs rule: rev_induct)
  case (snoc y ys)
  have s: "sorted (map mr_start ys)" "\<forall>z\<in>set ys. mr_start z \<le> mr_start y" using snoc(2) by (auto simp: sorted_append)
  have upd: "((ys @ [y]) @ x # zs) ! length ys = y" "((ys @ [y]) @ x # zs)[Suc (length ys) := v] = ys @ y # v # zs" for v
    by (simp_all add: nth_append list_update_append)
  show ?case
  proof (cases "mr_start key < mr_start y")
    case True
    then show ?thesis using snoc(1) [OF s(1), of y "y # zs"] upd by (simp add: not_le)
  next
    case False
    then have "\<forall>z\<in>set ys. mr_start z \<le> mr_start key" using s(2) by fastforce
    then show ?thesis using False upd by (simp add: filter_True filter_False leD not_less)
  qed
qed simp

lemma filter_key:
  "filter (\<lambda>x. a = f x \<and> f x \<le> b) xs = (if a \<le> b then filter (\<lambda>x. a = f x) xs else [])"
  "filter (\<lambda>x. a = f x \<and> b < f x) xs = (if b < a then filter (\<lambda>x. a = f x) xs else [])"
  by (induction xs) auto

lemma sort_regions_prefix:
  assumes "n \<le> length out"
  shows "sort_regions out n = sort_key mr_start (take n out) @ drop n out"
  using assms
proof (induction n)
  case 0
  then show ?case by (simp add: sort_regions_def)
next
  case (Suc n)
  let ?ys = "sort_key mr_start (take n out)" and ?k = "out ! n"
  have d: "drop n out = ?k # drop (Suc n) out" and len: "length ?ys = n" using Suc(2) by (simp_all add: Cons_nth_drop_Suc)
  have ih: "sort_regions out n = ?ys @ ?k # drop (Suc n) out" using Suc d by simp
  let ?zs = "filter (\<lambda>y. mr_start y \<le> mr_start ?k) ?ys @ ?k # filter (\<lambda>y. mr_start ?k < mr_start y) ?ys"
  have "sort_regions out (Suc n) = ?zs @ drop (Suc n) out"
  proof (cases n)
    case 0
    then show ?thesis using d by (simp add: sort_regions_def)
  next
    case (Suc k)
    then have "sort_regions out (Suc n) = shift_loop (sort_regions out n) n (sort_regions out n ! n)" by (simp add: sort_regions_def)
    then show ?thesis using shift_loop_inserts [of ?ys ?k "drop (Suc n) out" ?k] ih len by (simp add: nth_append)
  qed
  moreover have "sort_key mr_start (take (Suc n) out) = ?zs"
  proof (rule properties_for_sort_key)
    have "mset ?ys = mset (take n out)" by simp
    moreover have "mset (filter (\<lambda>y. mr_start y \<le> mr_start ?k) ?ys) + mset (filter (\<lambda>y. mr_start ?k < mr_start y) ?ys) = mset ?ys"
      using multiset_partition [of "mset ?ys" "\<lambda>y. mr_start y \<le> mr_start ?k"] by (simp add: not_le)
    ultimately show "mset ?zs = mset (take (Suc n) out)" using Suc(2) by (simp add: take_Suc_conv_app_nth)
    show "sorted (map mr_start ?zs)" by (auto simp: sorted_append intro: sorted_filter)
    show "filter (\<lambda>x. mr_start k = mr_start x) ?zs = filter (\<lambda>x. mr_start k = mr_start x) (take (Suc n) out)" for k
    proof -
      have "filter (\<lambda>x. mr_start k = mr_start x) ?ys = filter (\<lambda>x. mr_start k = mr_start x) (take n out)"
        using sort_key_stable [of mr_start "mr_start k" "take n out"] by (simp add: eq_commute [of "mr_start k"])
      then show ?thesis using Suc(2)
        by (cases "mr_start k" "mr_start ?k" rule: linorder_cases) (auto simp: take_Suc_conv_app_nth filter_key conj_commute)
    qed
  qed
  ultimately show ?case by simp
qed

section \<open>The regions and the reported map\<close>

text \<open>The addresses of the whole frames inside a usable entry; an entry that runs over the end of the address
  space has none.\<close>

definition entry_end :: "mem_entry \<Rightarrow> nat" where
  "entry_end e = (if unat (me_start e) + unat (me_len e) < 2 ^ 64 then unat (me_start e) + unat (me_len e) else unat (me_start e))"

definition entry_addrs :: "mem_entry \<Rightarrow> nat set" where
  "entry_addrs e = (if me_kind e = MT_USABLE then {x. unat (me_start e) \<le> x div 4096 * 4096 \<and> x div 4096 * 4096 + 4096 \<le> entry_end e} else {})"

definition entry_ok :: "mem_entry \<Rightarrow> bool" where
  "entry_ok e \<longleftrightarrow> (me_kind e = MT_USABLE \<longrightarrow> unat (me_start e) + 4096 < 2 ^ 64)"

lemma frames_between: "s \<le> x div 4096 * 4096 \<and> x div 4096 * 4096 + 4096 \<le> e \<longleftrightarrow> (s + 4095) div 4096 * 4096 \<le> x \<and> x < e div 4096 * 4096" for s x e :: nat
proof -
  have bounds: "n div 4096 * 4096 \<le> n \<and> n < n div 4096 * 4096 + 4096" for n :: nat
    using div_mult_mod_eq [of n 4096] mod_less_divisor [of 4096 n] by linarith
  define q c d where "q = x div 4096" and "c = (s + 4095) div 4096" and "d = e div 4096"
  have b: "q * 4096 \<le> x" "x < q * 4096 + 4096" "c * 4096 \<le> s + 4095" "s + 4095 < c * 4096 + 4096" "d * 4096 \<le> e" "e < d * 4096 + 4096"
    using bounds [of x] bounds [of "s + 4095"] bounds [of e] by (simp_all add: q_def c_def d_def)
  have "c * 4096 \<le> q * 4096 \<or> q * 4096 + 4096 \<le> c * 4096" by (cases "c \<le> q") simp_all
  then have "s \<le> q * 4096 \<longleftrightarrow> c * 4096 \<le> x" using b(1-4) by linarith
  moreover have "q * 4096 + 4096 \<le> d * 4096 \<or> d * 4096 \<le> q * 4096" by (cases "d \<le> q") simp_all
  then have "q * 4096 + 4096 \<le> e \<longleftrightarrow> x < d * 4096" using b(1,2,5,6) by linarith
  ultimately have "s \<le> q * 4096 \<and> q * 4096 + 4096 \<le> e \<longleftrightarrow> c * 4096 \<le> x \<and> x < d * 4096" by blast
  then show ?thesis by (simp flip: q_def c_def d_def)
qed

text \<open>The region of one entry covers exactly those frames.\<close>

lemma entry_region_ok:
  assumes ok: "entry_ok e"
  obtains r where "entry_region e = Some r" "\<And>q. r = Some q \<Longrightarrow> usable_addrs [q] = entry_addrs e \<and> (mr_kind q = Usable \<longrightarrow> me_kind e = MT_USABLE)"
    "r = None \<Longrightarrow> entry_addrs e = {}"
    "\<And>q. r = Some q \<Longrightarrow> mr_kind q = Usable \<Longrightarrow> mr_start q mod 4096 = 0 \<and> mr_len q mod 4096 = 0 \<and> mr_len q \<noteq> 0 \<and> r_end q < 2 ^ 64"
proof (cases "me_kind e = MT_USABLE")
  case False
  then show thesis by (intro that [of "Some \<lparr>mr_start = me_start e, mr_len = me_len e, mr_kind = ReservedRegion\<rparr>"])
      (auto simp: entry_region_def Let_def entry_addrs_def)
next
  case True
  let ?S = "unat (me_start e)"
  have S: "?S + 4096 < 2 ^ 64" using ok True by (simp add: entry_ok_def)
  define t where "t = me_start e + FRAME_SIZE - 1"
  define x where "x = (case uadd (me_start e) (me_len e) of Some x \<Rightarrow> x | None \<Rightarrow> me_start e)"
  define a where "a = t AND NOT (FRAME_SIZE - 1)"
  define b where "b = x AND NOT (FRAME_SIZE - 1)"
  have fs: "FRAME_SIZE - 1 = 2 ^ 12 - 1" by (simp add: kconsts)
  have sf: "unat (me_start e + FRAME_SIZE) = ?S + 4096" using S by (subst unat_add_no_wrap) (simp_all add: kconsts)
  then have ut: "unat t = ?S + 4095" unfolding t_def by (subst unat_sub) (simp_all add: word_le_nat_alt)
  have u: "uadd (me_start e) FRAME_SIZE = Some (me_start e + FRAME_SIZE)" "usub (me_start e + FRAME_SIZE) 1 = Some t"
    using S sf by (simp_all add: uadd_def usub_def t_def word_le_nat_alt kconsts)
  have ux: "unat x = entry_end e" by (auto simp: x_def entry_end_def uadd_def unat_add_no_wrap)
  have ua: "unat a = (?S + 4095) div 4096 * 4096" using and_not_low_bits [of 12 t] ut by (simp add: a_def fs)
  have ub: "unat b = entry_end e div 4096 * 4096" using and_not_low_bits [of 12 x] ux by (simp add: b_def fs)
  have er: "entry_region e = Some (if b \<le> a then None else Some \<lparr>mr_start = a, mr_len = b - a, mr_kind = Usable\<rparr>)"
    using True u by (simp add: entry_region_def Let_def a_def b_def x_def)
  have addrs: "entry_addrs e = {unat a..<unat b}" using True unfolding entry_addrs_def ua ub by (auto simp: frames_between)
  show thesis
  proof (rule that [OF er])
    fix q assume "(if b \<le> a then None else Some \<lparr>mr_start = a, mr_len = b - a, mr_kind = Usable\<rparr>) = Some q"
    then have q: "a < b" "q = \<lparr>mr_start = a, mr_len = b - a, mr_kind = Usable\<rparr>" by (auto split: if_splits)
    have l: "unat (b - a) = unat b - unat a" using q(1) by (simp add: unat_sub)
    then have e: "r_end q = unat b" using q by (simp add: r_end_def word_less_nat_alt)
    show "usable_addrs [q] = entry_addrs e \<and> (mr_kind q = Usable \<longrightarrow> me_kind e = MT_USABLE)" using True e q(2) by (simp add: addrs r_range_def)
    have "unat (b - a) mod 4096 = 0" unfolding l ua ub by (metis mod_0_imp_dvd dvd_diff_nat dvd_imp_mod_0 dvd_triv_right)
    moreover have "unat a mod 4096 = 0" unfolding ua by simp
    ultimately show "mr_start q mod 4096 = 0 \<and> mr_len q mod 4096 = 0 \<and> mr_len q \<noteq> 0 \<and> r_end q < 2 ^ 64"
      using q e l unsigned_less [of b, where 'a = nat] by (simp add: word_unat_eq_iff unat_mod word_less_nat_alt)
  next
    assume "(if b \<le> a then None else Some \<lparr>mr_start = a, mr_len = b - a, mr_kind = Usable\<rparr>) = None"
    then show "entry_addrs e = {}" by (simp add: addrs word_le_nat_alt split: if_splits)
  qed
qed

definition region_ok :: "memory_region \<Rightarrow> bool" where
  "region_ok r \<longleftrightarrow> (mr_kind r = Usable \<longrightarrow> mr_start r mod 4096 = 0 \<and> mr_len r mod 4096 = 0 \<and> mr_len r \<noteq> 0 \<and> r_end r < 2 ^ 64)"

definition apart :: "memory_region \<Rightarrow> memory_region \<Rightarrow> bool" where
  "apart a b \<longleftrightarrow> usable_addrs [a] \<inter> usable_addrs [b] = {}"

lemma usable_addrs_Union: "usable_addrs rs = (\<Union>r\<in>set rs. usable_addrs [r])"
  by (auto simp: usable_addrs_def)

lemma copy_entries_ok:
  assumes "\<forall>e\<in>set es. entry_ok e"
  shows "\<exists>rs. copy_entries es = Some rs \<and> length rs \<le> length es \<and> usable_addrs rs = (\<Union>e\<in>set es. entry_addrs e) \<and> (\<forall>r\<in>set rs. region_ok r) \<and>
    (sorted_wrt (\<lambda>a b. entry_addrs a \<inter> entry_addrs b = {}) es \<longrightarrow> sorted_wrt apart rs)"
  using assms
proof (induction es)
  case (Cons e es)
  then obtain rs where rs: "copy_entries es = Some rs" "length rs \<le> length es" "usable_addrs rs = (\<Union>e\<in>set es. entry_addrs e)" "\<forall>r\<in>set rs. region_ok r"
    "sorted_wrt (\<lambda>a b. entry_addrs a \<inter> entry_addrs b = {}) es \<longrightarrow> sorted_wrt apart rs" by auto
  have "entry_ok e" using Cons(2) by simp
  then obtain r where r: "entry_region e = Some r" "\<And>q. r = Some q \<Longrightarrow> usable_addrs [q] = entry_addrs e" "r = None \<Longrightarrow> entry_addrs e = {}"
    "\<And>q. r = Some q \<Longrightarrow> region_ok q" by (rule entry_region_ok) (auto simp: region_ok_def)
  show ?case
  proof (cases r)
    case None
    then show ?thesis using rs r by auto
  next
    case (Some q)
    have c: "copy_entries (e # es) = Some (q # rs)" using rs(1) r(1) Some by simp
    have u: "usable_addrs [q] = entry_addrs e" by (rule r(2) [OF Some])
    have "usable_addrs (q # rs) = usable_addrs [q] \<union> usable_addrs rs" by simp
    then have "usable_addrs (q # rs) = (\<Union>e\<in>set (e # es). entry_addrs e)" unfolding u rs(3) by simp
    moreover have "sorted_wrt apart (q # rs)" if "sorted_wrt (\<lambda>a b. entry_addrs a \<inter> entry_addrs b = {}) (e # es)"
    proof -
      have "usable_addrs [q] \<inter> usable_addrs rs = {}" unfolding u rs(3) using that by auto
      then show ?thesis using that rs(5) usable_addrs_Union [of rs] unfolding apart_def sorted_wrt.simps by blast
    qed
    ultimately show ?thesis using c rs(2,4) r(4) [OF Some] by auto
  qed
qed simp

lemma sorted_wrt_sort_key:
  assumes "\<And>a b. P a b \<Longrightarrow> P b a"
  shows "sorted_wrt P (sort_key f xs) = sorted_wrt P xs"
proof -
  have "sorted_wrt P (insort_key f x ys) = ((\<forall>y\<in>set ys. P x y) \<and> sorted_wrt P ys)" for x ys
    using assms by (induction ys) (auto simp: set_insort_key)
  then show ?thesis by (induction xs) auto
qed

lemma sorted_apart_order:
  assumes "sorted (map mr_start rs)" "sorted_wrt apart rs" "\<forall>r\<in>set rs. region_ok r"
  shows "address_order rs"
  using assms
proof (induction rs)
  case (Cons a rs)
  have "r_end a \<le> unat (mr_start b)" if "b \<in> set rs" "mr_kind a = Usable" "mr_kind b = Usable" for b
  proof (rule ccontr)
    assume n: "\<not> ?thesis"
    have "unat (mr_start a) \<le> unat (mr_start b)" "0 < unat (mr_len b)" "apart a b"
      using Cons(2-4) that by (auto simp: region_ok_def word_le_nat_alt unat_gt_0)
    then have "unat (mr_start b) \<in> usable_addrs [a]" "unat (mr_start b) \<in> usable_addrs [b]" using n that by (simp_all add: r_range_def r_end_def)
    with \<open>apart a b\<close> show False by (auto simp: apart_def)
  qed
  then show ?case using Cons by (simp add: address_order_def)
qed (simp add: address_order_def)

lemma fill_regions_ok:
  assumes "parse m mbi 64 = Some (Some es)" "\<forall>e\<in>set es. entry_ok e"
  obtains rs where "fill_regions m mbi = Some rs" "sorted (map mr_start rs)" "length rs \<le> length es" "usable_addrs rs = (\<Union>e\<in>set es. entry_addrs e)"
    "\<forall>r\<in>set rs. region_ok r" "sorted_wrt (\<lambda>a b. entry_addrs a \<inter> entry_addrs b = {}) es \<Longrightarrow> address_order rs"
proof -
  obtain rs where rs: "copy_entries es = Some rs" "length rs \<le> length es" "usable_addrs rs = (\<Union>e\<in>set es. entry_addrs e)" "\<forall>r\<in>set rs. region_ok r"
    "sorted_wrt (\<lambda>a b. entry_addrs a \<inter> entry_addrs b = {}) es \<longrightarrow> sorted_wrt apart rs" using copy_entries_ok [OF assms(2)] by blast
  have ap: "sorted_wrt apart (sort_key mr_start rs) = sorted_wrt apart rs" by (rule sorted_wrt_sort_key) (auto simp: apart_def)
  show thesis
  proof (rule that [of "sort_key mr_start rs"])
    show "fill_regions m mbi = Some (sort_key mr_start rs)"
      using assms(1) rs(1) sort_regions_prefix [of "length rs" rs] by (simp add: fill_regions_def MAX_REGIONS_HARNESS_def)
    show "address_order (sort_key mr_start rs)" if "sorted_wrt (\<lambda>a b. entry_addrs a \<inter> entry_addrs b = {}) es"
      by (rule sorted_apart_order) (use rs(4,5) that ap in simp_all)
  qed (use rs in \<open>simp_all add: usable_addrs_def\<close>)
qed

text \<open>The best region of \<open>rs\<close>, if one ends above \<open>lo\<close>, else the start value.\<close>

definition best_of :: "memory_region list \<Rightarrow> nat \<Rightarrow> u64 \<times> u64 \<Rightarrow> u64 \<times> u64 \<Rightarrow> bool" where
  "best_of rs lo b0 b \<longleftrightarrow> (b = b0 \<and> (\<forall>r\<in>set rs. mr_kind r = Usable \<longrightarrow> r_end r \<le> lo)) \<or>
    (\<exists>r\<in>set rs. mr_kind r = Usable \<and> b = (mr_start r, mr_start r + mr_len r) \<and> lo < r_end r \<and> (\<forall>q\<in>set rs. mr_kind q = Usable \<longrightarrow> r_end q \<le> r_end r))"

lemma best_of_skip: "best_of rs lo b0 b \<Longrightarrow> (mr_kind r = Usable \<Longrightarrow> r_end r \<le> lo) \<Longrightarrow> best_of (r # rs) lo b0 b"
  unfolding best_of_def by (elim disjE bexE) (simp, fastforce intro: less_imp_le)

lemma best_of_take:
  assumes "best_of rs (r_end r) (mr_start r, mr_start r + mr_len r) b" "mr_kind r = Usable" "lo < r_end r"
  shows "best_of (r # rs) lo b0 b"
  using assms(1) unfolding best_of_def
proof (elim disjE bexE)
  fix q assume "q \<in> set rs" "mr_kind q = Usable \<and> b = (mr_start q, mr_start q + mr_len q) \<and> r_end r < r_end q \<and> (\<forall>p\<in>set rs. mr_kind p = Usable \<longrightarrow> r_end p \<le> r_end q)"
  then show "b = b0 \<and> (\<forall>r\<in>set (r # rs). mr_kind r = Usable \<longrightarrow> r_end r \<le> lo) \<or>
    (\<exists>q\<in>set (r # rs). mr_kind q = Usable \<and> b = (mr_start q, mr_start q + mr_len q) \<and> lo < r_end q \<and> (\<forall>p\<in>set (r # rs). mr_kind p = Usable \<longrightarrow> r_end p \<le> r_end q))"
    using assms(3) by (intro disjI2 bexI [of _ q]) auto
qed (use assms in auto)

lemma best_region_ok:
  assumes "usable_no_wrap rs"
  shows "\<exists>b. best_region rs (bs, be) = Some b \<and> best_of rs (unat be) (bs, be) b"
  using assms
proof (induction rs arbitrary: bs be)
  case (Cons r rs)
  then have nw: "usable_no_wrap rs" by (simp add: usable_no_wrap_def)
  show ?case
  proof (cases "mr_kind r = Usable")
    case False
    then show ?thesis using Cons(1) [OF nw, of bs be] best_of_skip [of rs _ _ _ r] by auto
  next
    case True
    have "r_end r < 2 ^ 64" using Cons(2) True by (simp add: usable_no_wrap_def)
    then have re: "region_end r = Some (mr_start r + mr_len r)" "unat (mr_start r + mr_len r) = r_end r"
      by (simp_all add: region_end_eq) (simp add: r_end_def unat_add_no_wrap)
    show ?thesis
    proof (cases "be < mr_start r + mr_len r")
      case lt: True
      then have "unat be < r_end r" using re(2) by (simp add: word_less_nat_alt)
      then show ?thesis using Cons(1) [OF nw, of "mr_start r" "mr_start r + mr_len r"] best_of_take [of rs r] True lt re by auto
    next
      case ge: False
      then have "r_end r \<le> unat be" using re(2) by (simp add: word_less_nat_alt)
      then show ?thesis using Cons(1) [OF nw, of bs be] best_of_skip [of rs "unat be" _ _ r] True ge re(1) by auto
    qed
  qed
qed (simp add: best_of_def)

lemma pick_untyped_ok:
  assumes nw: "usable_no_wrap rs" and ex: "\<exists>r\<in>set rs. mr_kind r = Usable \<and> 0 < r_end r"
  obtains sp r where "pick_untyped_spec rs = Some sp" "r \<in> set rs" "mr_kind r = Usable" "\<forall>q\<in>set rs. mr_kind q = Usable \<longrightarrow> r_end q \<le> r_end r"
    "unat (us_len sp) = min (2 ^ 26) (unat (mr_len r))" "unat (us_base_phys sp) = r_end r - unat (us_len sp)"
proof -
  obtain b where b: "best_region rs (0, 0) = Some b" "best_of rs 0 (0, 0) b" using best_region_ok [OF nw, of 0 0] by auto
  then obtain r where r: "r \<in> set rs" "mr_kind r = Usable" "b = (mr_start r, mr_start r + mr_len r)" "0 < r_end r" "\<forall>q\<in>set rs. mr_kind q = Usable \<longrightarrow> r_end q \<le> r_end r"
    using ex unfolding best_of_def by fastforce
  have e: "unat (mr_start r + mr_len r) = r_end r" using nw r(1,2) unfolding usable_no_wrap_def r_end_def by (subst unat_add_no_wrap) auto
  then have nz: "mr_start r + mr_len r \<noteq> 0" using r(4) by auto
  have d: "usub (mr_start r + mr_len r) (mr_start r) = Some (mr_len r)" using e by (simp add: usub_def word_le_nat_alt r_end_def)
  define len where "len = min UNTYPED_LEN (mr_len r)"
  have ul: "unat len = min (2 ^ 26) (unat (mr_len r))" by (auto simp: len_def min_def word_le_nat_alt kconsts)
  then have le: "len \<le> mr_start r + mr_len r" using e by (simp add: word_le_nat_alt r_end_def)
  show thesis
  proof (rule that [OF _ r(1,2,5)])
    show "pick_untyped_spec rs = Some \<lparr>us_base_phys = mr_start r + mr_len r - len, us_len = len\<rparr>"
      using b(1) nz d le by (simp add: pick_untyped_spec_def r(3) len_def [symmetric] usub_def)
  qed (use ul le e in \<open>simp_all add: unat_sub\<close>)
qed

section \<open>Properties\<close>

text \<open>C27: \<^verbatim>\<open>fill_regions\<close> gives \<^verbatim>\<open>pmm_init\<close> exactly the map it asks for: the regions are sorted by start
  address, every usable one is a non-empty run of whole frames, together they are exactly the whole frames inside the
  usable entries of the bootloader, and entries that do not overlap give regions in address order.
  \<^verbatim>\<open>pick_untyped_spec\<close> then takes up to 64 MiB off the end of the usable region that ends last, frame-aligned.\<close>

theorem harness_map_correct:
  assumes "parse m mbi 64 = Some (Some es)" "\<forall>e\<in>set es. entry_ok e" "\<exists>e\<in>set es. entry_addrs e \<noteq> {}"
  shows "\<exists>rs sp. fill_regions m mbi = Some rs \<and> pick_untyped_spec rs = Some sp \<and> sorted (map mr_start rs) \<and>
    (\<forall>r\<in>set rs. mr_kind r = Usable \<longrightarrow> mr_start r mod 4096 = 0 \<and> mr_len r mod 4096 = 0 \<and> mr_len r \<noteq> 0) \<and>
    usable_addrs rs = (\<Union>e\<in>set es. entry_addrs e) \<and>
    (sorted_wrt (\<lambda>a b. entry_addrs a \<inter> entry_addrs b = {}) es \<longrightarrow> address_order rs) \<and>
    (\<exists>r\<in>set rs. mr_kind r = Usable \<and> (\<forall>q\<in>set rs. mr_kind q = Usable \<longrightarrow> r_end q \<le> r_end r) \<and>
      unat (us_len sp) = min (2 ^ 26) (unat (mr_len r)) \<and> unat (us_base_phys sp) + unat (us_len sp) = r_end r) \<and>
    us_base_phys sp mod 4096 = 0 \<and> us_len sp mod 4096 = 0"
proof -
  obtain rs where rs: "fill_regions m mbi = Some rs" "sorted (map mr_start rs)" "usable_addrs rs = (\<Union>e\<in>set es. entry_addrs e)"
    "\<forall>r\<in>set rs. region_ok r" "sorted_wrt (\<lambda>a b. entry_addrs a \<inter> entry_addrs b = {}) es \<Longrightarrow> address_order rs"
    using fill_regions_ok [OF assms(1,2)] by metis
  have "usable_addrs rs \<noteq> {}" using assms(3) rs(3) by auto
  then have ex: "\<exists>r\<in>set rs. mr_kind r = Usable \<and> 0 < r_end r" by (auto simp: usable_addrs_def r_range_def)
  have nw: "usable_no_wrap rs" using rs(4) by (simp add: usable_no_wrap_def region_ok_def)
  obtain sp r where sp: "pick_untyped_spec rs = Some sp" "r \<in> set rs" "mr_kind r = Usable" "\<forall>q\<in>set rs. mr_kind q = Usable \<longrightarrow> r_end q \<le> r_end r"
    "unat (us_len sp) = min (2 ^ 26) (unat (mr_len r))" "unat (us_base_phys sp) = r_end r - unat (us_len sp)" by (rule pick_untyped_ok [OF nw ex])
  have ok: "4096 dvd unat (mr_start r)" "4096 dvd unat (mr_len r)"
    using rs(4) sp(2,3) by (auto simp: region_ok_def word_unat_eq_iff unat_mod)
  then have l: "4096 dvd unat (us_len sp)" unfolding sp(5) by (auto simp: min_def)
  have "4096 dvd r_end r - unat (us_len sp)" using ok l unfolding r_end_def by (intro dvd_diff_nat) simp_all
  then have al: "us_base_phys sp mod 4096 = 0" "us_len sp mod 4096 = 0" using l sp(6) by (simp_all add: word_unat_eq_iff unat_mod)
  have "unat (us_base_phys sp) + unat (us_len sp) = r_end r" using sp(5,6) by (simp add: r_end_def)
  then show ?thesis using rs sp al by (intro exI [of _ rs] exI [of _ sp]) (auto simp: region_ok_def)
qed

definition example_map :: "usize \<Rightarrow> u32" where
  "example_map a = (if a = 0 then 1 else if a = 8 then 0x1FC00 else 0)"

theorem harness_map_correct_witness:
  "\<exists>rs sp. fill_regions example_map 0 = Some rs \<and> pick_untyped_spec rs = Some sp \<and> usable_addrs rs = {2 ^ 20..<2 ^ 27} \<and> us_base_phys sp mod 4096 = 0"
proof -
  let ?e = "\<lparr>me_start = 0x100000, me_len = 0x7F00000, me_kind = MT_USABLE\<rparr>"
  have p: "parse example_map 0 64 = Some (Some [?e])" by (simp add: parse_def example_map_def umul_def)
  have a: "entry_addrs ?e = {2 ^ 20..<2 ^ 27}"
    unfolding entry_addrs_def entry_end_def by (auto simp: frames_between)
  have ok: "\<forall>e\<in>set [?e]. entry_ok e" "\<exists>e\<in>set [?e]. entry_addrs e \<noteq> {}" using a by (simp_all add: entry_ok_def)
  obtain rs sp where "fill_regions example_map 0 = Some rs" "pick_untyped_spec rs = Some sp" "usable_addrs rs = (\<Union>e\<in>set [?e]. entry_addrs e)"
    "us_base_phys sp mod 4096 = 0" using harness_map_correct [OF p ok] by (elim exE conjE) (rule that)
  then show ?thesis using a by (intro exI [of _ rs] exI [of _ sp]) simp
qed

end
