(* ===== verification/Ports.thy ===== *)
theory Ports
  imports Arch
begin

text \<open>
  \<^verbatim>\<open>kernel/src/io.rs\<close>: port-mapped I/O. The state is the history of everything that happened on the
  bus. The hardware is a parameter, the \<open>device\<close>: what the next read of a port answers, given
  that history, so it may be any machine. What a driver relies on is a hypothesis about it.
\<close>

section \<open>The bus\<close>

datatype io_event = In u16 u8 | Out u16 u8

type_synonym bus = "io_event list"
type_synonym device = "bus \<Rightarrow> u16 \<Rightarrow> u8"

definition outb :: "bus \<Rightarrow> u16 \<Rightarrow> u8 \<Rightarrow> bus" where
  "outb h port v = h @ [Out port v]"

definition inb :: "device \<Rightarrow> bus \<Rightarrow> u16 \<Rightarrow> u8 \<times> bus" where
  "inb dev h port = (let v = dev h port in (v, h @ [In port v]))"

section \<open>Reading a history\<close>

text \<open>The values written to one port, in order, and the last of them.\<close>

fun outs :: "u16 \<Rightarrow> bus \<Rightarrow> u8 list" where
  "outs p [] = []"
| "outs p (Out q v # h) = (if q = p then v # outs p h else outs p h)"
| "outs p (In q v # h) = outs p h"

definition last_out :: "u16 \<Rightarrow> bus \<Rightarrow> u8" where
  "last_out p h = (if outs p h = [] then 0 else last (outs p h))"

lemma outs_append [simp]: "outs p (g @ h) = outs p g @ outs p h"
  by (induction p g rule: outs.induct) auto

lemma outs_outb [simp]: "outs p (outb h q v) = outs p h @ (if q = p then [v] else [])"
  by (simp add: outb_def)

lemma outs_inb [simp]: "outs p (snd (inb dev h q)) = outs p h"
  by (simp add: inb_def Let_def)

lemma last_out_append [simp]: "last_out p (h @ t) = (if outs p t = [] then last_out p h else last (outs p t))"
  by (auto simp: last_out_def)

lemma last_out_outb [simp]: "last_out p (outb h q v) = (if q = p then v else last_out p h)"
  by (simp add: last_out_def)

lemma last_out_inb [simp]: "last_out p (snd (inb dev h q)) = last_out p h"
  by (simp add: last_out_def)

end
