(* ===== verification/Pic.thy ===== *)
theory Pic
  imports Ports
begin

text \<open>
  \<^verbatim>\<open>kernel/src/pic.rs\<close> and \<^verbatim>\<open>kernel/src/pit.rs\<close>: the interrupt controllers and the timer, as
  sequences of port accesses. The mask registers implement a set of unmasked lines.
\<close>

section \<open>8259 PIC\<close>

definition PIC1_CMD :: u16 where [kconsts]: "PIC1_CMD = 0x20"
definition PIC1_DATA :: u16 where [kconsts]: "PIC1_DATA = 0x21"
definition PIC2_CMD :: u16 where [kconsts]: "PIC2_CMD = 0xA0"
definition PIC2_DATA :: u16 where [kconsts]: "PIC2_DATA = 0xA1"
definition ICW1 :: u8 where [kconsts]: "ICW1 = 0x11"
definition ICW4_8086 :: u8 where [kconsts]: "ICW4_8086 = 0x01"
definition OCW2_EOI :: u8 where [kconsts]: "OCW2_EOI = 0x20"
definition MASTER_BASE :: u8 where [kconsts]: "MASTER_BASE = 0x20"
definition SLAVE_BASE :: u8 where [kconsts]: "SLAVE_BASE = 0x28"

definition mask_all :: "bus \<Rightarrow> bus" where
  "mask_all h = (let h = outb h PIC1_DATA 0xFF in outb h PIC2_DATA 0xFF)"

definition remap :: "bus \<Rightarrow> bus" where
  "remap h =
    (let h = outb h PIC1_CMD ICW1;
         h = outb h PIC2_CMD ICW1;
         h = outb h PIC1_DATA MASTER_BASE;
         h = outb h PIC2_DATA SLAVE_BASE;
         h = outb h PIC1_DATA 0x04;
         h = outb h PIC2_DATA 0x02;
         h = outb h PIC1_DATA ICW4_8086;
         h = outb h PIC2_DATA ICW4_8086
     in mask_all h)"

definition pic_mask_port :: "u8 \<Rightarrow> u16 \<times> u8" where
  "pic_mask_port irq = (if irq < 8 then (PIC1_DATA, irq) else (PIC2_DATA, irq - 8))"

text \<open>\<^verbatim>\<open>1 << bit\<close> on a \<^verbatim>\<open>u8\<close> panics when the shift is not below 8.\<close>

definition shl_one :: "u8 \<Rightarrow> u8 option" where
  "shl_one b = (if b < 8 then Some (push_bit (unat b) 1) else None)"

definition unmask :: "device \<Rightarrow> bus \<Rightarrow> u8 \<Rightarrow> bus option" where
  "unmask dev h irq = do {
     let (data, b) = pic_mask_port irq;
     let (cur, h) = inb dev h data;
     w \<leftarrow> shl_one b;
     Some (outb h data (cur AND NOT w))
   }"

definition mask_irq :: "device \<Rightarrow> bus \<Rightarrow> u8 \<Rightarrow> bus option" where
  "mask_irq dev h irq = do {
     let (data, b) = pic_mask_port irq;
     let (cur, h) = inb dev h data;
     w \<leftarrow> shl_one b;
     Some (outb h data (cur OR w))
   }"

definition send_eoi :: "bus \<Rightarrow> u8 \<Rightarrow> bus" where
  "send_eoi h irq =
    (let h = (if 8 \<le> irq then outb h PIC2_CMD OCW2_EOI else h) in outb h PIC1_CMD OCW2_EOI)"

section \<open>8254 PIT\<close>

definition PIT_CMD :: u16 where [kconsts]: "PIT_CMD = 0x43"
definition PIT_CH0 :: u16 where [kconsts]: "PIT_CH0 = 0x40"
definition PIT_REFERENCE_HZ :: u64 where [kconsts]: "PIT_REFERENCE_HZ = 1193182"

text \<open>The division panics on a zero divisor.\<close>

definition set_frequency :: "bus \<Rightarrow> u32 \<Rightarrow> bus option" where
  "set_frequency h hz = do {
     rassert (hz \<noteq> 0);
     let q = PIT_REFERENCE_HZ div ucast hz;
     let divisor = (ucast (min (max q 2) 65535) :: u16);
     let h = outb h PIT_CMD 0x36;
     let h = outb h PIT_CH0 (ucast (divisor AND 0xFF));
     Some (outb h PIT_CH0 (ucast (drop_bit 8 divisor)))
   }"

section \<open>The set of unmasked lines\<close>

text \<open>
  The abstract controller pair is the set of lines that are not masked. Once \<^verbatim>\<open>remap\<close> has run, the
  mask registers are the last values written to the data ports, until a write with bit 4 set to a
  command port starts another initialisation.
\<close>

definition unmasked :: "bus \<Rightarrow> u8 set" where
  "unmasked h = {irq. irq < 16 \<and> (case pic_mask_port irq of (p, b) \<Rightarrow> \<not> bit (last_out p h) (unat b))}"

text \<open>The slave's output is wired to line 2 of the master, so its lines reach the processor only while line 2 is
  unmasked as well.\<close>

definition delivered :: "bus \<Rightarrow> u8 set" where
  "delivered h = {irq \<in> unmasked h. irq < 8 \<or> 2 \<in> unmasked h}"

text \<open>The end-of-interrupt commands a controller has been given.\<close>

definition eois :: "u16 \<Rightarrow> bus \<Rightarrow> nat" where
  "eois p h = length (filter (\<lambda>e. e = Out p OCW2_EOI) h)"

definition reinit :: "io_event \<Rightarrow> bool" where
  "reinit e \<longleftrightarrow> (case e of Out p v \<Rightarrow> (p = PIC1_CMD \<or> p = PIC2_CMD) \<and> bit v 4 | _ \<Rightarrow> False)"

definition programmed :: "bus \<Rightarrow> bool" where
  "programmed h \<longleftrightarrow> (\<exists>g t. h = remap g @ t \<and> \<not> list_ex reinit t)"

definition mask_registers :: "device \<Rightarrow> bool" where
  "mask_registers dev \<longleftrightarrow> (\<forall>h. \<forall>p\<in>{PIC1_DATA, PIC2_DATA}. programmed h \<longrightarrow> dev h p = last_out p h)"

text \<open>What a client asks of the controller.\<close>

datatype pic_op = Unmask u8 | Mask u8 | Mask_all | Eoi u8

fun pic_run :: "device \<Rightarrow> bus \<Rightarrow> pic_op \<Rightarrow> bus option" where
  "pic_run dev h (Unmask i) = unmask dev h i"
| "pic_run dev h (Mask i) = mask_irq dev h i"
| "pic_run dev h Mask_all = Some (mask_all h)"
| "pic_run dev h (Eoi i) = Some (send_eoi h i)"

fun pic_spec :: "u8 set \<Rightarrow> pic_op \<Rightarrow> u8 set" where
  "pic_spec E (Unmask i) = insert i E"
| "pic_spec E (Mask i) = E - {i}"
| "pic_spec E Mask_all = {}"
| "pic_spec E (Eoi i) = E"

definition acks :: "(u8 \<Rightarrow> bool) \<Rightarrow> pic_op list \<Rightarrow> nat" where
  "acks P xs = length (filter (\<lambda>x. case x of Eoi i \<Rightarrow> P i | _ \<Rightarrow> False) xs)"

fun pic_runs :: "device \<Rightarrow> bus \<Rightarrow> pic_op list \<Rightarrow> bus option" where
  "pic_runs dev h [] = Some h"
| "pic_runs dev h (x # xs) = do { h \<leftarrow> pic_run dev h x; pic_runs dev h xs }"

definition op_ok :: "pic_op \<Rightarrow> bool" where
  "op_ok x \<longleftrightarrow> (case x of Unmask i \<Rightarrow> i < 16 | Mask i \<Rightarrow> i < 16 | _ \<Rightarrow> True)"

lemma programmed_append: "programmed h \<Longrightarrow> \<not> list_ex reinit t \<Longrightarrow> programmed (h @ t)"
  unfolding programmed_def by (metis append.assoc list_ex_append)

lemma pic_ports_distinct [simp]:
  "PIC1_DATA \<noteq> PIC2_DATA" "PIC2_DATA \<noteq> PIC1_DATA" "PIC1_CMD \<noteq> PIC1_DATA" "PIC1_CMD \<noteq> PIC2_DATA" "PIC2_CMD \<noteq> PIC1_DATA" "PIC2_CMD \<noteq> PIC2_DATA"
  "PIC1_DATA \<noteq> PIC1_CMD" "PIC2_DATA \<noteq> PIC1_CMD" "PIC1_DATA \<noteq> PIC2_CMD" "PIC2_DATA \<noteq> PIC2_CMD"
  by (simp_all add: kconsts)

lemma last_out_remap: "last_out PIC1_DATA (remap h) = 0xFF" "last_out PIC2_DATA (remap h) = 0xFF"
  by (simp_all add: remap_def mask_all_def Let_def)

lemma all_ones_bit: "bit (0xFF :: u8) n \<longleftrightarrow> n < 8"
  using bit_mask_iff [of 8 n, where 'a = u8] by (simp add: mask_eq_exp_minus_1)

lemma pic_mask_portD:
  assumes "pic_mask_port irq = (p, b)" "irq < 16"
  shows "p \<in> {PIC1_DATA, PIC2_DATA}" "unat b < 8" "unat irq = unat b + (if p = PIC2_DATA then 8 else 0)" "b < 8"
proof -
  show "p \<in> {PIC1_DATA, PIC2_DATA}" using assms(1) by (auto simp: pic_mask_port_def split: if_splits)
  have "unat (irq - 8) = unat irq - 8" if "\<not> irq < 8" using that by (simp add: unat_sub not_less)
  then show b: "unat b < 8" and "unat irq = unat b + (if p = PIC2_DATA then 8 else 0)"
    using assms by (auto simp: pic_mask_port_def word_less_nat_alt split: if_splits)
  show "b < 8" using b by (simp add: word_less_nat_alt)
qed

lemma pic_mask_port_inject:
  assumes "pic_mask_port i = (p, b)" "pic_mask_port j = (p, c)" "i < 16" "j < 16" "unat b = unat c"
  shows "i = j"
  using pic_mask_portD(3) [OF assms(1,3)] pic_mask_portD(3) [OF assms(2,4)] assms(5) by (simp add: word_unat_eq_iff)

lemma unmasked_none:
  assumes "last_out PIC1_DATA h = 0xFF" "last_out PIC2_DATA h = 0xFF"
  shows "unmasked h = {}"
proof -
  have "j \<notin> unmasked h" for j
  proof
    assume j: "j \<in> unmasked h"
    obtain q c where q: "pic_mask_port j = (q, c)" by force
    with j pic_mask_portD(1,2) [OF q] assms all_ones_bit [of "unat c"] show False by (auto simp: unmasked_def)
  qed
  then show ?thesis by blast
qed

lemma unmasked_cong:
  assumes "\<And>p. p \<in> {PIC1_DATA, PIC2_DATA} \<Longrightarrow> last_out p g = last_out p h"
  shows "unmasked g = unmasked h"
proof (rule set_eqI)
  fix j
  obtain q c where q: "pic_mask_port j = (q, c)" by force
  then show "j \<in> unmasked g \<longleftrightarrow> j \<in> unmasked h" using assms [of q] pic_mask_portD(1) [OF q] by (auto simp: unmasked_def)
qed

lemma remap_disables: "unmasked (remap h) = {}"
  using last_out_remap by (intro unmasked_none)

lemma shl_one_bit: "b < 8 \<Longrightarrow> \<exists>w. shl_one b = Some w \<and> (\<forall>n. bit w n \<longleftrightarrow> n = unat b)"
  by (auto simp: shl_one_def bit_simps word_less_nat_alt)

text \<open>Writing one mask register changes exactly the bits that differ.\<close>

lemma unmasked_write:
  assumes i: "i < 16" "pic_mask_port i = (p, b)" and v: "\<And>n. n < 8 \<Longrightarrow> n \<noteq> unat b \<Longrightarrow> bit v n = bit (last_out p h) n"
  shows "unmasked (outb h p v) = (if bit v (unat b) then unmasked h - {i} else insert i (unmasked h))"
proof (rule set_eqI)
  fix j
  obtain q c where q: "pic_mask_port j = (q, c)" by force
  show "j \<in> unmasked (outb h p v) \<longleftrightarrow> j \<in> (if bit v (unat b) then unmasked h - {i} else insert i (unmasked h))"
  proof (cases "j < 16 \<and> j \<noteq> i")
    case True
    then have "q = p \<longrightarrow> unat c \<noteq> unat b" using pic_mask_port_inject [OF i(2) _ i(1)] q by metis
    moreover have "unat c < 8" using pic_mask_portD(2) [OF q] True by simp
    ultimately show ?thesis using True q v [of "unat c"] by (auto simp: unmasked_def)
  next
    case False
    then show ?thesis using i by (auto simp: unmasked_def)
  qed
qed

lemma pic_access:
  assumes dev: "mask_registers dev" and h: "programmed h" and i: "i < 16"
  obtains p b w where "pic_mask_port i = (p, b)" "inb dev h p = (last_out p h, h @ [In p (last_out p h)])" "shl_one b = Some w"
    "\<forall>n. bit w n \<longleftrightarrow> n = unat b" "\<forall>v. programmed (outb (h @ [In p (last_out p h)]) p v)" "unmasked (h @ [In p (last_out p h)]) = unmasked h"
proof -
  obtain p b where p: "pic_mask_port i = (p, b)" by force
  note d = pic_mask_portD [OF p i]
  obtain w where w: "shl_one b = Some w" "\<forall>n. bit w n \<longleftrightarrow> n = unat b" using shl_one_bit [OF d(4)] by blast
  have "dev h p = last_out p h" using dev h d(1) by (auto simp: mask_registers_def)
  then have r: "inb dev h p = (last_out p h, h @ [In p (last_out p h)])" by (simp add: inb_def Let_def)
  have "\<not> list_ex reinit [In p (last_out p h), Out p v]" for v using d(1) by (auto simp: reinit_def)
  then have "programmed (outb (h @ [In p (last_out p h)]) p v)" for v using programmed_append [OF h] by (simp add: outb_def)
  then show thesis using that p r w by (auto simp: unmasked_def)
qed

lemma eois_simps [simp]:
  "eois p (h @ [In q v]) = eois p h" "eois p (outb h q v) = eois p h + (if q = p \<and> v = OCW2_EOI then 1 else 0)"
  by (simp_all add: eois_def outb_def)

lemma unmask_runs:
  assumes "mask_registers dev" "programmed h" "i < 16"
  shows "\<exists>h'. unmask dev h i = Some h' \<and> programmed h' \<and> unmasked h' = insert i (unmasked h) \<and> (\<forall>p\<in>{PIC1_CMD, PIC2_CMD}. eois p h' = eois p h)"
proof -
  obtain p b w where a: "pic_mask_port i = (p, b)" "inb dev h p = (last_out p h, h @ [In p (last_out p h)])" "shl_one b = Some w"
    "\<forall>n. bit w n \<longleftrightarrow> n = unat b" "\<forall>v. programmed (outb (h @ [In p (last_out p h)]) p v)" "unmasked (h @ [In p (last_out p h)]) = unmasked h"
    using pic_access [OF assms] by metis
  let ?v = "last_out p h AND NOT w"
  have "unmasked (outb (h @ [In p (last_out p h)]) p ?v) = insert i (unmasked h)"
    by (subst unmasked_write [OF assms(3) a(1)]) (use a(4,6) in \<open>auto simp: bit_simps\<close>)
  moreover have "p \<noteq> PIC1_CMD" "p \<noteq> PIC2_CMD" using pic_mask_portD(1) [OF a(1) assms(3)] by auto
  ultimately show ?thesis using a by (simp add: unmask_def)
qed

lemma mask_runs:
  assumes "mask_registers dev" "programmed h" "i < 16"
  shows "\<exists>h'. mask_irq dev h i = Some h' \<and> programmed h' \<and> unmasked h' = unmasked h - {i} \<and> (\<forall>p\<in>{PIC1_CMD, PIC2_CMD}. eois p h' = eois p h)"
proof -
  obtain p b w where a: "pic_mask_port i = (p, b)" "inb dev h p = (last_out p h, h @ [In p (last_out p h)])" "shl_one b = Some w"
    "\<forall>n. bit w n \<longleftrightarrow> n = unat b" "\<forall>v. programmed (outb (h @ [In p (last_out p h)]) p v)" "unmasked (h @ [In p (last_out p h)]) = unmasked h"
    using pic_access [OF assms] by metis
  let ?v = "last_out p h OR w"
  have "unmasked (outb (h @ [In p (last_out p h)]) p ?v) = unmasked h - {i}"
    by (subst unmasked_write [OF assms(3) a(1)]) (use a(4,6) in \<open>auto simp: bit_simps\<close>)
  moreover have "p \<noteq> PIC1_CMD" "p \<noteq> PIC2_CMD" using pic_mask_portD(1) [OF a(1) assms(3)] by auto
  ultimately show ?thesis using a by (simp add: mask_irq_def)
qed

lemma send_eoi_runs:
  assumes "programmed h"
  shows "programmed (send_eoi h i)" "unmasked (send_eoi h i) = unmasked h" "eois PIC1_CMD (send_eoi h i) = eois PIC1_CMD h + 1"
    "eois PIC2_CMD (send_eoi h i) = eois PIC2_CMD h + (if 8 \<le> i then 1 else 0)"
proof -
  let ?t = "(if 8 \<le> i then [Out PIC2_CMD OCW2_EOI] else []) @ [Out PIC1_CMD OCW2_EOI]"
  have e: "send_eoi h i = h @ ?t" by (simp add: send_eoi_def outb_def Let_def)
  have ne: "\<not> bit OCW2_EOI 4" "PIC1_CMD \<noteq> PIC2_CMD" by (simp_all add: kconsts)
  then show "programmed (send_eoi h i)" using programmed_append [OF assms, of ?t] by (auto simp: e reinit_def)
  show "unmasked (send_eoi h i) = unmasked h" unfolding e by (rule unmasked_cong) auto
  show "eois PIC1_CMD (send_eoi h i) = eois PIC1_CMD h + 1" "eois PIC2_CMD (send_eoi h i) = eois PIC2_CMD h + (if 8 \<le> i then 1 else 0)"
    using ne(2) by (simp_all add: send_eoi_def Let_def)
qed

lemma mask_all_runs:
  assumes "programmed h"
  shows "programmed (mask_all h)" "unmasked (mask_all h) = {}" "\<forall>p\<in>{PIC1_CMD, PIC2_CMD}. eois p (mask_all h) = eois p h"
proof -
  show "programmed (mask_all h)"
    using programmed_append [OF assms, of "[Out PIC1_DATA 0xFF, Out PIC2_DATA 0xFF]"] by (simp add: mask_all_def outb_def reinit_def)
  show "unmasked (mask_all h) = {}" by (rule unmasked_none) (simp_all add: mask_all_def Let_def)
  show "\<forall>p\<in>{PIC1_CMD, PIC2_CMD}. eois p (mask_all h) = eois p h" by (simp add: mask_all_def Let_def)
qed

lemma pic_run_refines:
  assumes "mask_registers dev" "programmed h" "op_ok x"
  shows "\<exists>h'. pic_run dev h x = Some h' \<and> programmed h' \<and> unmasked h' = pic_spec (unmasked h) x \<and>
    eois PIC1_CMD h' = eois PIC1_CMD h + acks (\<lambda>i. True) [x] \<and> eois PIC2_CMD h' = eois PIC2_CMD h + acks (\<lambda>i. 8 \<le> i) [x]"
proof (cases x)
  case (Unmask i)
  then show ?thesis using unmask_runs [OF assms(1,2), of i] assms(3) by (auto simp: op_ok_def acks_def)
next
  case (Mask i)
  then show ?thesis using mask_runs [OF assms(1,2), of i] assms(3) by (auto simp: op_ok_def acks_def)
next
  case Mask_all
  then show ?thesis using mask_all_runs [OF assms(2)] by (simp add: acks_def)
next
  case (Eoi i)
  then show ?thesis using send_eoi_runs [OF assms(2), of i] by (simp add: acks_def)
qed

lemma acks_Cons: "acks P (x # xs) = acks P [x] + acks P xs"
  by (simp add: acks_def)

lemma pic_runs_refines:
  "mask_registers dev \<Longrightarrow> programmed h \<Longrightarrow> list_all op_ok xs \<Longrightarrow>
    \<exists>h'. pic_runs dev h xs = Some h' \<and> programmed h' \<and> unmasked h' = foldl pic_spec (unmasked h) xs \<and>
      eois PIC1_CMD h' = eois PIC1_CMD h + acks (\<lambda>i. True) xs \<and> eois PIC2_CMD h' = eois PIC2_CMD h + acks (\<lambda>i. 8 \<le> i) xs"
proof (induction xs arbitrary: h)
  case Nil
  then show ?case by (simp add: acks_def)
next
  case (Cons x xs)
  then obtain g where g: "pic_run dev h x = Some g" "programmed g" "unmasked g = pic_spec (unmasked h) x"
    "eois PIC1_CMD g = eois PIC1_CMD h + acks (\<lambda>i. True) [x]" "eois PIC2_CMD g = eois PIC2_CMD h + acks (\<lambda>i. 8 \<le> i) [x]"
    using pic_run_refines [of dev h x] by auto
  then show ?case using Cons.IH [of g] Cons.prems by (subst (1 2) acks_Cons) auto
qed

section \<open>Properties\<close>


definition example_device :: device where
  "example_device h p = last_out p h"

lemma example_mask_registers: "mask_registers example_device"
  by (simp add: mask_registers_def example_device_def)


text \<open>\<^verbatim>\<open>set_frequency\<close> panics exactly for 0 Hz. Otherwise the two bytes it writes to channel 0, low byte
  first, make up the divisor \<open>reference div hz\<close> clamped to \<open>2..65535\<close>; so for 19 to 596591 Hz the
  programmed rate \<open>reference / divisor\<close> is at least the requested one and the next larger divisor would be
  too slow.\<close>

theorem set_frequency_correct:
  "(set_frequency h hz = None \<longleftrightarrow> hz = 0) \<and>
   (\<forall>h'. set_frequency h hz = Some h' \<longrightarrow> (\<exists>lo hi d. h' = h @ [Out 0x43 0x36, Out 0x40 lo, Out 0x40 hi] \<and>
      d = unat hi * 256 + unat lo \<and> d = min (max (1193182 div unat hz) 2) 65535 \<and>
      (19 \<le> unat hz \<and> unat hz \<le> 596591 \<longrightarrow> unat hz * d \<le> 1193182 \<and> 1193182 < unat hz * (d + 1))))"
proof (cases "hz = 0")
  case True
  then show ?thesis by (simp add: set_frequency_def)
next
  case False
  define q where "q = PIT_REFERENCE_HZ div ucast hz"
  define d where "d = (ucast (min (max q 2) 65535) :: u16)"
  have uq: "unat q = 1193182 div unat hz" by (simp add: q_def unat_div PIT_REFERENCE_HZ_def unat_ucast_up)
  have "unat (min (max q 2) 65535) = min (max (unat q) 2) 65535" by (auto simp: min_def max_def word_le_nat_alt)
  then have ud: "unat d = min (max (1193182 div unat hz) 2) 65535" using uq by (simp add: d_def unat_ucast_down)
  let ?lo = "ucast (d AND 0xFF) :: u8" and ?hi = "ucast (drop_bit 8 d) :: u8"
  have d16: "unat d < 65536" using unsigned_less [of d, where 'a = nat] by simp
  have "d AND 0xFF = take_bit 8 d" by (simp add: take_bit_eq_mask mask_eq_exp_minus_1)
  then have lo: "unat ?lo = unat d mod 256" by (simp add: unsigned_ucast_eq unsigned_take_bit_eq take_bit_eq_mod unat_mod)
  have "unat (drop_bit 8 d) = unat d div 256" by (simp add: unat_drop_bit_eq drop_bit_nat_def)
  moreover have "unat d div 256 < 256" using d16 by (simp add: less_mult_imp_div_less)
  ultimately have hi: "unat ?hi = unat d div 256" by (simp add: unat_ucast_down)
  have sum: "unat d = unat ?hi * 256 + unat ?lo" unfolding lo hi by simp
  have sf: "set_frequency h hz = Some (h @ [Out 0x43 0x36, Out 0x40 ?lo, Out 0x40 ?hi])"
    using False by (simp add: set_frequency_def Let_def outb_def kconsts q_def d_def)
  have rate: "unat hz * unat d \<le> 1193182 \<and> 1193182 < unat hz * (unat d + 1)" if r: "19 \<le> unat hz" "unat hz \<le> 596591"
  proof -
    have "1193182 div unat hz \<le> 1193182 div 19" using r(1) by (rule div_le_mono2 [rotated]) simp
    moreover have "2 \<le> 1193182 div unat hz" using r by (simp add: less_eq_div_iff_mult_less_eq)
    ultimately have "unat d = 1193182 div unat hz" using ud by simp
    moreover have "1193182 mod unat hz < unat hz" using r(1) by simp
    moreover have "unat hz * (1193182 div unat hz) + 1193182 mod unat hz = 1193182" by simp
    ultimately show ?thesis by (metis add_less_cancel_left distrib_left le_add1 mult.right_neutral)
  qed
  show ?thesis unfolding sf using False sum ud rate by auto
qed

theorem set_frequency_correct_witness:
  "set_frequency [] 100 = Some [Out 0x43 0x36, Out 0x40 0x9B, Out 0x40 0x2E] \<and>
   (\<exists>lo hi d. [Out 0x43 0x36, Out 0x40 0x9B, Out 0x40 0x2E] = [] @ [Out 0x43 0x36, Out 0x40 lo, Out 0x40 hi] \<and>
      d = unat hi * 256 + unat lo \<and> unat (100 :: u32) * d \<le> 1193182 \<and> 1193182 < unat (100 :: u32) * (d + 1))"
proof -
  have r: "set_frequency [] 100 = Some [Out 0x43 0x36, Out 0x40 0x9B, Out 0x40 0x2E]" by code_simp
  from set_frequency_correct [of "[]" 100] r have "\<exists>lo hi d. [Out 0x43 0x36, Out 0x40 0x9B, Out 0x40 0x2E] = [] @ [Out 0x43 0x36, Out 0x40 lo, Out 0x40 hi] \<and>
      d = unat hi * 256 + unat lo \<and> (19 \<le> unat (100 :: u32) \<and> unat (100 :: u32) \<le> 596591 \<longrightarrow> unat (100 :: u32) * d \<le> 1193182 \<and> 1193182 < unat (100 :: u32) * (d + 1))"
    by blast
  then show ?thesis using r by simp
qed

end
