(* ===== verification/Tss.thy ===== *)
theory Tss
  imports Arch
begin

text \<open>
  \<^verbatim>\<open>kernel/src/tss.rs\<close>: the global descriptor table and the task state segment. The addresses of the
  statics are chosen by the linker, so they are parameters.
\<close>

section \<open>Selectors and state\<close>

definition GDT_CODE64_SELECTOR :: u16 where [kconsts]: "GDT_CODE64_SELECTOR = 0x18"
definition TSS_SELECTOR :: u16 where [kconsts]: "TSS_SELECTOR = 0x20"
definition USER_CODE64_SELECTOR :: u16 where [kconsts]: "USER_CODE64_SELECTOR = 0x33"
definition USER_DATA_SELECTOR :: u16 where [kconsts]: "USER_DATA_SELECTOR = 0x3B"
definition DF_GATE_IST :: u8 where [kconsts]: "DF_GATE_IST = 1"
definition DF_VECTOR :: usize where [kconsts]: "DF_VECTOR = 8"
definition DF_STACK_SIZE :: usize where [kconsts]: "DF_STACK_SIZE = 16384"
definition KERNEL_STACK_SIZE :: usize where [kconsts]: "KERNEL_STACK_SIZE = 16384"

record task_state_segment =
  tss_reserved1 :: u32
  rsp0 :: u64
  rsp1 :: u64
  rsp2 :: u64
  tss_reserved2 :: u64
  ist :: "u64 list"
  tss_reserved3 :: u64
  tss_reserved4 :: u16
  iomap_base :: u16

record gdt_ptr =
  gdt_limit :: u16
  gdt_base :: u64

text \<open>The statics of the module, and the two registers \<^verbatim>\<open>lgdt\<close> and \<^verbatim>\<open>ltr\<close> load.\<close>

record tss_state =
  gdt :: "u64 list"
  tss :: task_state_segment
  gdtr :: gdt_ptr
  task_register :: u16

record tss_layout =
  gdt_addr :: usize
  tss_addr :: usize
  df_stack_addr :: usize
  kernel_stack_addr :: usize

definition tss_statics :: tss_state where
  "tss_statics = \<lparr>gdt = replicate 8 0,
     tss = \<lparr>tss_reserved1 = 0, rsp0 = 0, rsp1 = 0, rsp2 = 0, tss_reserved2 = 0, ist = replicate 7 0,
            tss_reserved3 = 0, tss_reserved4 = 0, iomap_base = 0\<rparr>,
     gdtr = \<lparr>gdt_limit = 0, gdt_base = 0\<rparr>, task_register = 0\<rparr>"

section \<open>Operations\<close>

definition set_rsp0 :: "tss_state \<Rightarrow> usize \<Rightarrow> tss_state" where
  "set_rsp0 s t = s\<lparr>tss := (tss s)\<lparr>rsp0 := t\<rparr>\<rparr>"

definition code_data_descriptor :: "u32 \<Rightarrow> u32 \<Rightarrow> u8 \<Rightarrow> u8 \<Rightarrow> u64" where
  "code_data_descriptor base limit access flags =
    (ucast limit AND 0xFFFF)
    OR push_bit 16 (ucast base AND 0xFFFF)
    OR push_bit 16 (ucast base AND 0x00FF0000)
    OR push_bit 40 (ucast access)
    OR push_bit 48 ((ucast (drop_bit 16 limit) AND 0xF) OR ucast flags)
    OR push_bit 32 (ucast base AND 0xFF000000)"

definition system_descriptor :: "u64 \<Rightarrow> u16 \<Rightarrow> u8 \<Rightarrow> u64 \<times> u64" where
  "system_descriptor base limit access =
    (let lo = code_data_descriptor (ucast base) (ucast limit) access 0x0;
         hi = (drop_bit 32 base AND 0xFF)
           OR push_bit 8 (drop_bit 40 base AND 0xFF)
           OR push_bit 16 (drop_bit 48 base AND 0xFF)
           OR push_bit 24 (drop_bit 56 base AND 0xFF)
     in (lo, hi))"

definition tss_init :: "tss_layout \<Rightarrow> tss_state \<Rightarrow> tss_state option" where
  "tss_init lay s = do {
     r0 \<leftarrow> uadd (kernel_stack_addr lay) KERNEL_STACK_SIZE;
     i0 \<leftarrow> uadd (df_stack_addr lay) DF_STACK_SIZE;
     let t = (tss s)\<lparr>rsp0 := r0, ist := (ist (tss s))[0 := i0]\<rparr>;
     let (tss_lo, tss_hi) = system_descriptor (tss_addr lay) 103 0x89;
     let g = [0,
       code_data_descriptor 0 0xFFFFF 0x9A 0xCF,
       code_data_descriptor 0 0xFFFFF 0x92 0xCF,
       code_data_descriptor 0 0xFFFFF 0x9A 0xAF,
       tss_lo,
       tss_hi,
       code_data_descriptor 0 0xFFFFF 0xFA 0xAF,
       code_data_descriptor 0 0xFFFFF 0xF2 0xCF];
     Some (s\<lparr>tss := t, gdt := g, gdtr := \<lparr>gdt_limit = 63, gdt_base = gdt_addr lay\<rparr>, task_register := TSS_SELECTOR\<rparr>)
   }"

section \<open>The descriptor format\<close>

text \<open>How the processor reads a descriptor.\<close>

definition seg_base :: "u64 \<Rightarrow> u32" where
  "seg_base d = ucast (take_bit 24 (drop_bit 16 d) OR push_bit 24 (drop_bit 56 d))"

definition seg_limit :: "u64 \<Rightarrow> u32" where
  "seg_limit d = ucast (take_bit 16 d OR push_bit 16 (take_bit 4 (drop_bit 48 d)))"

definition seg_access :: "u64 \<Rightarrow> u8" where
  "seg_access d = ucast (drop_bit 40 d)"

definition seg_flags :: "u64 \<Rightarrow> u8" where
  "seg_flags d = ucast (take_bit 4 (drop_bit 52 d))"

definition sys_base :: "u64 \<Rightarrow> u64 \<Rightarrow> u64" where
  "sys_base lo hi = ucast (seg_base lo) OR push_bit 32 hi"

lemma descriptor_masks:
  "(0xFFFF :: u64) = mask 16" "(0xF :: u64) = mask 4" "(0xFF :: u64) = mask 8"
  "(0x00FF0000 :: u64) = push_bit 16 (mask 8)" "(0xFF000000 :: u64) = push_bit 24 (mask 8)"
  by (simp_all add: mask_eq_exp_minus_1)

lemma bit_descriptor_parts:
  fixes b l :: u32 and a f :: u8
  shows "bit (ucast l AND mask 16 :: u64) n \<longleftrightarrow> n < 16 \<and> bit l n"
    "bit (push_bit 16 (ucast b AND mask 16) :: u64) n \<longleftrightarrow> 16 \<le> n \<and> n < 32 \<and> bit b (n - 16)"
    "bit (push_bit 16 (ucast b AND push_bit 16 (mask 8)) :: u64) n \<longleftrightarrow> 32 \<le> n \<and> n < 40 \<and> bit b (n - 16)"
    "bit (push_bit 40 (ucast a) :: u64) n \<longleftrightarrow> 40 \<le> n \<and> n < 48 \<and> bit a (n - 40)"
    "bit (push_bit 48 ((ucast (drop_bit 16 l) AND mask 4) OR ucast f) :: u64) n \<longleftrightarrow>
       48 \<le> n \<and> (n < 52 \<and> bit l (n - 32) \<or> n < 56 \<and> bit f (n - 48))"
    "bit (push_bit 32 (ucast b AND push_bit 24 (mask 8)) :: u64) n \<longleftrightarrow> 56 \<le> n \<and> n < 64 \<and> bit b (n - 32)"
proof -
  have a8: "bit a k \<Longrightarrow> k < 8" and f8: "bit f k \<Longrightarrow> k < 8" for k using bit_imp_le_length by fastforce+
  note bs = bit_and_iff bit_or_iff bit_push_bit_iff bit_mask_word bit_ucast_iff bit_drop_bit_eq comp_apply possible_bit_word len_bit0 len_num1
  show "bit (ucast l AND mask 16 :: u64) n \<longleftrightarrow> n < 16 \<and> bit l n" unfolding bs by auto
  show "bit (push_bit 16 (ucast b AND mask 16) :: u64) n \<longleftrightarrow> 16 \<le> n \<and> n < 32 \<and> bit b (n - 16)" unfolding bs by auto
  show "bit (push_bit 16 (ucast b AND push_bit 16 (mask 8)) :: u64) n \<longleftrightarrow> 32 \<le> n \<and> n < 40 \<and> bit b (n - 16)" unfolding bs by auto
  show "bit (push_bit 40 (ucast a) :: u64) n \<longleftrightarrow> 40 \<le> n \<and> n < 48 \<and> bit a (n - 40)" unfolding bs by (auto dest: a8)
  show "bit (push_bit 48 ((ucast (drop_bit 16 l) AND mask 4) OR ucast f) :: u64) n \<longleftrightarrow>
       48 \<le> n \<and> (n < 52 \<and> bit l (n - 32) \<or> n < 56 \<and> bit f (n - 48))" unfolding bs by (auto dest: f8)
  show "bit (push_bit 32 (ucast b AND push_bit 24 (mask 8)) :: u64) n \<longleftrightarrow> 56 \<le> n \<and> n < 64 \<and> bit b (n - 32)" unfolding bs by auto
qed

lemma bit_descriptor:
  "bit (code_data_descriptor b l a f) n \<longleftrightarrow> n < 16 \<and> bit l n \<or> 16 \<le> n \<and> n < 40 \<and> bit b (n - 16) \<or>
     40 \<le> n \<and> n < 48 \<and> bit a (n - 40) \<or> 48 \<le> n \<and> n < 52 \<and> bit l (n - 32) \<or>
     48 \<le> n \<and> n < 56 \<and> bit f (n - 48) \<or> 56 \<le> n \<and> n < 64 \<and> bit b (n - 32)"
  unfolding code_data_descriptor_def descriptor_masks bit_or_iff bit_descriptor_parts
  by (cases "n < 16"; cases "n < 32"; cases "n < 40"; cases "n < 48"; cases "n < 52"; cases "n < 56"; simp)

lemma descriptor_decodes:
  "seg_base (code_data_descriptor b l a f) = b"
  "seg_access (code_data_descriptor b l a f) = a"
  "seg_flags (code_data_descriptor b l a f) = drop_bit 4 f"
  "(\<forall>k<4. bit f k \<longrightarrow> bit l (k + 16)) \<Longrightarrow> seg_limit (code_data_descriptor b l a f) = take_bit 20 l"
proof -
  let ?d = "code_data_descriptor b l a f"
  note bs = bit_and_iff bit_or_iff bit_push_bit_iff bit_take_bit_iff bit_ucast_iff bit_drop_bit_eq comp_apply possible_bit_word len_bit0 len_num1
  show "seg_access ?d = a"
    by (rule bit_word_eqI) (simp add: seg_access_def bit_ucast_iff bit_drop_bit_eq bit_descriptor)
  show "seg_flags ?d = drop_bit 4 f"
  proof (rule bit_word_eqI)
    fix k assume "k < LENGTH(8)"
    then show "bit (seg_flags ?d) k = bit (drop_bit 4 f) k"
      using bit_imp_le_length [of f "4 + k"] unfolding seg_flags_def bs bit_descriptor by auto
  qed
  show "seg_base ?d = b"
  proof (rule bit_word_eqI)
    fix k assume "k < LENGTH(32)"
    then show "bit (seg_base ?d) k = bit b k"
      unfolding seg_base_def bs bit_descriptor by (cases "k < 24") auto
  qed
  show "(\<forall>k<4. bit f k \<longrightarrow> bit l (k + 16)) \<Longrightarrow> seg_limit ?d = take_bit 20 l"
  proof (rule bit_word_eqI)
    fix k assume k: "k < LENGTH(32)" and f: "\<forall>k<4. bit f k \<longrightarrow> bit l (k + 16)"
    then show "bit (seg_limit ?d) k = bit (take_bit 20 l) k"
      unfolding seg_limit_def bs bit_descriptor by (cases "k < 16"; cases "k < 20") (auto dest: spec [of _ "k - 16"])
  qed
qed

lemma system_descriptor_decodes:
  "system_descriptor base limit access = (lo, hi) \<Longrightarrow> sys_base lo hi = base \<and> seg_limit lo = ucast limit \<and> seg_access lo = access"
proof -
  assume sd: "system_descriptor base limit access = (lo, hi)"
  then have lo: "lo = code_data_descriptor (ucast base) (ucast limit) access 0"
    and hi: "hi = (drop_bit 32 base AND mask 8) OR push_bit 8 (drop_bit 40 base AND mask 8)
      OR push_bit 16 (drop_bit 48 base AND mask 8) OR push_bit 24 (drop_bit 56 base AND mask 8)"
    by (simp_all add: system_descriptor_def Let_def flip: descriptor_masks)
  note bs = bit_and_iff bit_or_iff bit_push_bit_iff bit_mask_word bit_drop_bit_eq comp_apply possible_bit_word
  have "bit hi k \<longleftrightarrow> k < 32 \<and> bit base (32 + k)" for k
    unfolding hi bs by (cases "k < 8"; cases "k < 16"; cases "k < 24"; cases "k < 32") auto
  moreover have "seg_base lo = ucast base" unfolding lo by (rule descriptor_decodes)
  ultimately have b: "bit (sys_base lo hi) k \<longleftrightarrow> k < 32 \<and> bit base k \<or> 32 \<le> k \<and> k - 32 < 32 \<and> bit base (32 + (k - 32))" if "k < 64" for k
    using that by (simp add: sys_base_def bit_or_iff bit_push_bit_iff bit_ucast_iff)
  have sys: "sys_base lo hi = base"
  proof (rule bit_word_eqI)
    fix k assume "k < LENGTH(64)"
    then show "bit (sys_base lo hi) k = bit base k" using b [of k] by (cases "k < 32") auto
  qed
  have "seg_limit lo = take_bit 20 (ucast limit)" unfolding lo by (rule descriptor_decodes) simp
  moreover have "bit limit n \<Longrightarrow> n < 20" for n using bit_imp_le_length [of limit n] by simp
  ultimately have "seg_limit lo = ucast limit"
    by (intro bit_word_eqI) (auto simp: bit_take_bit_iff bit_ucast_iff)
  moreover have "seg_access lo = access" unfolding lo by (rule descriptor_decodes)
  ultimately show ?thesis using sys by blast
qed

lemma flat_descriptor:
  "f \<in> {0xAF, 0xCF} \<Longrightarrow> seg_base (code_data_descriptor 0 0xFFFFF a f) = 0 \<and> seg_limit (code_data_descriptor 0 0xFFFFF a f) = 0xFFFFF \<and>
    seg_access (code_data_descriptor 0 0xFFFFF a f) = a \<and> seg_flags (code_data_descriptor 0 0xFFFFF a f) = drop_bit 4 f"
proof -
  assume f: "f \<in> {0xAF, 0xCF}"
  have "bit (0xFFFFF :: u32) (k + 16)" if "k < 4" for k :: nat
  proof -
    have "(0xFFFFF :: u32) = mask 20" by (simp add: mask_eq_exp_minus_1)
    then show ?thesis using that by (simp only: bit_mask_word) simp
  qed
  then show ?thesis using descriptor_decodes(4) [of f "0xFFFFF" 0 a] by (auto simp: descriptor_decodes(1-3))
qed

section \<open>Properties\<close>

text \<open>The descriptor a selector names, and the privilege level it asks for.\<close>

definition descriptor_of :: "tss_state \<Rightarrow> u16 \<Rightarrow> u64" where
  "descriptor_of s sel = gdt s ! unat (sel div 8)"

definition rpl :: "u16 \<Rightarrow> u16" where
  "rpl sel = sel mod 4"

text \<open>C26: After \<^verbatim>\<open>tss::init\<close> the processor decodes from the table it was given exactly what the kernel means:
  the task register names a present 64-bit TSS at the address of the static, with limit 103; the kernel
  code selector is flat 64-bit ring-0 code, the user selectors are flat ring-3 64-bit code and data with
  requested privilege 3; interrupts from ring 3 and double faults use the tops of their two stacks.\<close>

theorem tss_init_correct:
  assumes "unat (kernel_stack_addr lay) + 16384 < 2 ^ 64" "unat (df_stack_addr lay) + 16384 < 2 ^ 64"
  shows "\<exists>s. tss_init lay tss_statics = Some s \<and> gdtr s = \<lparr>gdt_limit = 8 * word_of_nat (length (gdt s)) - 1, gdt_base = gdt_addr lay\<rparr> \<and>
    (let d = descriptor_of s (task_register s); e = gdt s ! Suc (unat (task_register s div 8)) in
       sys_base d e = tss_addr lay \<and> seg_limit d = 103 \<and> seg_access d = 0x89) \<and>
    (\<forall>(sel, a, f)\<in>{(GDT_CODE64_SELECTOR, 0x9A, 0xA), (USER_CODE64_SELECTOR, 0xFA, 0xA), (USER_DATA_SELECTOR, 0xF2, 0xC)}.
       let d = descriptor_of s sel in seg_base d = 0 \<and> seg_limit d = 0xFFFFF \<and> seg_access d = a \<and> seg_flags d = f) \<and>
    rpl USER_CODE64_SELECTOR = 3 \<and> rpl USER_DATA_SELECTOR = 3 \<and>
    rsp0 (tss s) = kernel_stack_addr lay + 16384 \<and> ist (tss s) ! (unat DF_GATE_IST - 1) = df_stack_addr lay + 16384"
proof -
  obtain lo hi where sd: "system_descriptor (tss_addr lay) 103 0x89 = (lo, hi)" by force
  note sys = system_descriptor_decodes [OF sd]
  have st: "uadd (kernel_stack_addr lay) KERNEL_STACK_SIZE = Some (kernel_stack_addr lay + 16384)"
    "uadd (df_stack_addr lay) DF_STACK_SIZE = Some (df_stack_addr lay + 16384)"
    using assms by (simp_all add: uadd_def kconsts)
  have sel: "unat (TSS_SELECTOR div 8) = 4" "unat (GDT_CODE64_SELECTOR div 8) = 3" "unat (USER_CODE64_SELECTOR div 8) = 6"
    "unat (USER_DATA_SELECTOR div 8) = 7" by (simp_all add: kconsts)
  have fl: "drop_bit 4 (0xAF :: u8) = 0xA" "drop_bit 4 (0xCF :: u8) = 0xC" by simp_all
  show ?thesis
    unfolding tss_init_def st using sys
    by (simp add: sd tss_statics_def descriptor_of_def sel flat_descriptor fl Let_def) (simp add: kconsts rpl_def)
qed

definition example_lay :: tss_layout where
  "example_lay = \<lparr>gdt_addr = 0x100000, tss_addr = 0x101000, df_stack_addr = 0x102000, kernel_stack_addr = 0x106000\<rparr>"

theorem tss_init_correct_witness:
  "\<exists>s. tss_init example_lay tss_statics = Some s \<and> rsp0 (tss s) = 0x10A000"
proof -
  have "kernel_stack_addr example_lay = 0x106000" "df_stack_addr example_lay = 0x102000" by (simp_all add: example_lay_def)
  with tss_init_correct [of example_lay] show ?thesis by auto
qed

end
