(* ===== verification/Idt.thy ===== *)
theory Idt
  imports Pic Tss
begin

text \<open>
  \<^verbatim>\<open>kernel/src/idt.rs\<close> without its assembly: the interrupt descriptor table, the fault report and the
  IRQ dispatch. The addresses of the assembly stubs are chosen by the linker, so they are
  parameters; what the stubs do is modelled with the rest of the machine.
\<close>

section \<open>Gates\<close>

definition GDT_CODE64 :: u16 where [kconsts]: "GDT_CODE64 = 0x18"
definition GATE_ATTRS :: u8 where [kconsts]: "GATE_ATTRS = 0x8E"
definition GATE_ATTRS_USER :: u8 where [kconsts]: "GATE_ATTRS_USER = 0xEE"
definition IRQ_BASE :: u8 where [kconsts]: "IRQ_BASE = MASTER_BASE"

record idt_entry =
  offset_low :: u16
  selector :: u16
  gate_ist :: u8
  attrs :: u8
  offset_mid :: u16
  offset_high :: u32
  gate_reserved :: u32

definition missing :: idt_entry where
  "missing = \<lparr>offset_low = 0, selector = 0, gate_ist = 0, attrs = 0, offset_mid = 0, offset_high = 0, gate_reserved = 0\<rparr>"

definition gate :: "u64 \<Rightarrow> u16 \<Rightarrow> u8 \<Rightarrow> u8 \<Rightarrow> idt_entry" where
  "gate offset sel i a = \<lparr>offset_low = ucast offset, selector = sel, gate_ist = i, attrs = a,
     offset_mid = ucast (drop_bit 16 offset), offset_high = ucast (drop_bit 32 offset), gate_reserved = 0\<rparr>"

record idtr =
  idt_limit :: u16
  idt_base :: u64

record idt_state =
  entries :: "idt_entry list"
  idtr_reg :: idtr

definition idt_statics :: idt_state where
  "idt_statics = \<lparr>entries = replicate 256 missing, idtr_reg = \<lparr>idt_limit = 4095, idt_base = 0\<rparr>\<rparr>"

text \<open>The 32 exception stubs, the 16 IRQ stubs, the system call stub and the table itself.\<close>

record idt_layout =
  isr_addr :: "nat \<Rightarrow> u64"
  irq_addr :: "nat \<Rightarrow> u64"
  isr_0x80 :: u64
  idt_addr :: usize

definition STUBS :: "idt_layout \<Rightarrow> u64 list" where
  "STUBS lay = map (isr_addr lay) [0..<32]"

definition IRQ_STUBS :: "idt_layout \<Rightarrow> u64 list" where
  "IRQ_STUBS lay = map (irq_addr lay) [0..<16]"

definition idt_init :: "idt_layout \<Rightarrow> idt_state \<Rightarrow> idt_state" where
  "idt_init lay s =
    (let es = entries s;
         es = fold (\<lambda>(i, stub) es. es[i := gate stub GDT_CODE64 (if i = unat DF_VECTOR then DF_GATE_IST else 0) GATE_ATTRS])
                (enumerate 0 (STUBS lay)) es;
         es = fold (\<lambda>(i, stub) es. es[unat IRQ_BASE + i := gate stub GDT_CODE64 0 GATE_ATTRS])
                (enumerate 0 (IRQ_STUBS lay)) es;
         es = es[0x80 := gate (isr_0x80 lay) GDT_CODE64 0 GATE_ATTRS_USER]
     in s\<lparr>entries := es, idtr_reg := (idtr_reg s)\<lparr>idt_base := idt_addr lay\<rparr>\<rparr>)"

section \<open>The saved frame\<close>

record interrupt_frame =
  f_rsp :: u64
  f_r15 :: u64
  f_r14 :: u64
  f_r13 :: u64
  f_r12 :: u64
  f_r11 :: u64
  f_r10 :: u64
  f_r9 :: u64
  f_r8 :: u64
  f_rbp :: u64
  f_rdi :: u64
  f_rsi :: u64
  f_rdx :: u64
  f_rcx :: u64
  f_rbx :: u64
  f_rax :: u64
  f_vector :: u64
  f_error_code :: u64
  f_rip :: u64
  f_cs :: u64
  f_rflags :: u64
  f_user_rsp :: u64
  f_user_ss :: u64

section \<open>Fault report\<close>

definition EXCEPTION_NAMES :: "string list" where
  "EXCEPTION_NAMES = [
    ''divide error'', ''debug'', ''nmi'', ''breakpoint'', ''overflow'', ''bound range'', ''invalid opcode'',
    ''device not available'', ''double fault'', ''coprocessor overrun'', ''invalid tss'', ''segment not present'',
    ''stack fault'', ''general protection'', ''page fault'', ''reserved'', ''x87 exception'', ''alignment check'',
    ''machine check'', ''simd exception'', ''virtualization'', ''reserved'', ''reserved'', ''reserved'', ''reserved'',
    ''reserved'', ''reserved'', ''reserved'', ''reserved'', ''reserved'', ''reserved'', ''reserved'']"

definition page_fault_reason :: "u64 \<Rightarrow> string" where
  "page_fault_reason code =
    (let c = code AND 0x1F in
     if c = 0 then ''not present, read''
     else if c = 1 then ''protection violation, read''
     else if c = 2 then ''not present, write''
     else if c = 3 then ''protection violation, write''
     else if c = 4 then ''not present, instruction fetch''
     else if c = 5 then ''protection violation, instruction fetch''
     else if c = 6 then ''not present, write, reserved-bit''
     else if c = 10 then ''not present, write, user-mode''
     else if c = 14 then ''not present, write, user-mode, reserved-bit''
     else if c = 18 then ''not present, write, instruction fetch''
     else ''unspecified'')"

text \<open>\<^verbatim>\<open>{}\<close>, \<^verbatim>\<open>{:02}\<close> and \<^verbatim>\<open>{:#x}\<close> of the formatting library.\<close>

definition digit :: "nat \<Rightarrow> char" where
  "digit d = char_of (if d < 10 then 48 + d else 87 + d)"

fun digits :: "nat \<Rightarrow> nat \<Rightarrow> string" where
  "digits base n = (if n < base \<or> base < 2 then [digit n] else digits base (n div base) @ [digit (n mod base)])"

declare digits.simps [simp del]

definition dec :: "'a::len word \<Rightarrow> string" where
  "dec w = digits 10 (unat w)"

definition dec02 :: "'a::len word \<Rightarrow> string" where
  "dec02 w = (let s = dec w in replicate (2 - length s) CHR ''0'' @ s)"

definition hex :: "u64 \<Rightarrow> string" where
  "hex w = ''0x'' @ digits 16 (unat w)"

definition CRLF :: string where
  "CRLF = [CHR 0x0D, CHR 0x0A]"

definition exception_report :: "interrupt_frame \<Rightarrow> u64 \<Rightarrow> string" where
  "exception_report f cr2 =
    (let name = (if unat (f_vector f) < length EXCEPTION_NAMES then EXCEPTION_NAMES ! unat (f_vector f) else ''reserved'')
     in CRLF @ ''EXCEPTION #'' @ dec02 (f_vector f) @ '' '' @ name
      @ (if f_vector f = 14 then '' ('' @ page_fault_reason (f_error_code f) @ ''): cr2='' @ hex cr2
         else if f_error_code f \<noteq> 0 then '': error_code='' @ hex (f_error_code f) else '''')
      @ CRLF @ ''  rip='' @ hex (f_rip f) @ '' cs='' @ hex (f_cs f) @ '' rflags='' @ hex (f_rflags f) @ '' rsp='' @ hex (f_rsp f)
      @ CRLF @ ''  rax='' @ hex (f_rax f) @ '' rbx='' @ hex (f_rbx f) @ '' rbp='' @ hex (f_rbp f) @ '' rdi='' @ hex (f_rdi f) @ CRLF)"

text \<open>
  The registered sink is a function pointer (\<open>None\<close> is the initial 0): what it is given is the
  report, and it may fail to return. The handler then halts the machine.
\<close>

definition set_fault_sink :: "'f option \<Rightarrow> 'f \<Rightarrow> 'f option" where
  "set_fault_sink old sink = Some sink"

definition handle_exception :: "(string \<Rightarrow> 's \<Rightarrow> 's option) option \<Rightarrow> interrupt_frame \<Rightarrow> u64 \<Rightarrow> 's \<Rightarrow> 's option" where
  "handle_exception sink f cr2 s = (case sink of None \<Rightarrow> Some s | Some out \<Rightarrow> out (exception_report f cr2) s)"

section \<open>IRQ dispatch\<close>

text \<open>
  The registry is written and read without a bounds check; an index past its 16 slots is
  undefined behaviour and modelled as a panic.
\<close>

type_synonym 'h irq_handlers = "'h option list"

definition irq_handlers_static :: "'h irq_handlers" where
  "irq_handlers_static = replicate 16 None"

definition set_irq_handler :: "'h irq_handlers \<Rightarrow> u8 \<Rightarrow> 'h option \<Rightarrow> 'h irq_handlers option" where
  "set_irq_handler hs irq handler = store_at hs (ucast irq) handler"

text \<open>\<^verbatim>\<open>handle_irq\<close> up to the call: the acknowledged IRQ and the handler to run, if any.\<close>

definition handle_irq :: "'h irq_handlers \<Rightarrow> bus \<Rightarrow> interrupt_frame \<Rightarrow> (u8 \<times> 'h option \<times> bus) option" where
  "handle_irq hs h f = do {
     n \<leftarrow> usub (f_vector f) (ucast IRQ_BASE);
     let irq = ucast n;
     let h = send_eoi h irq;
     handler \<leftarrow> index hs (ucast irq);
     Some (irq, handler, h)
   }"

section \<open>The gate format\<close>

text \<open>How the processor reads a gate: its handler, whether it is present, and from which ring
  software may enter it.\<close>

definition gate_offset :: "idt_entry \<Rightarrow> u64" where
  "gate_offset e = ucast (offset_low e) OR push_bit 16 (ucast (offset_mid e)) OR push_bit 32 (ucast (offset_high e))"

definition gate_present :: "idt_entry \<Rightarrow> bool" where
  "gate_present e \<longleftrightarrow> bit (attrs e) 7"

definition gate_dpl :: "idt_entry \<Rightarrow> nat" where
  "gate_dpl e = unat (take_bit 2 (drop_bit 5 (attrs e)))"

lemma gate_offset_gate [simp]: "gate_offset (gate offset sel i a) = offset"
proof (rule bit_word_eqI)
  fix k assume "k < LENGTH(64)"
  then show "bit (gate_offset (gate offset sel i a)) k = bit offset k"
    unfolding gate_offset_def gate_def idt_entry.simps bit_or_iff bit_push_bit_iff bit_ucast_iff bit_drop_bit_eq comp_apply possible_bit_word
    by (cases "k < 16"; cases "k < 32") auto
qed

lemma gate_fields [simp]: "selector (gate off sel i a) = sel" "gate_ist (gate off sel i a) = i" "attrs (gate off sel i a) = a"
  by (simp_all add: gate_def)

lemma fold_update_length: "length (fold (\<lambda>(i, x) ys. ys[b + i := f i x]) (enumerate n xs) ys) = length ys"
  by (induction xs arbitrary: n ys) simp_all

lemma fold_update_nth:
  "v < length ys \<Longrightarrow> fold (\<lambda>(i, x) ys. ys[b + i := f i x]) (enumerate n xs) ys ! v =
     (if b + n \<le> v \<and> v < b + n + length xs then f (v - b) (xs ! (v - b - n)) else ys ! v)"
proof (induction xs arbitrary: n ys)
  case (Cons x xs)
  then show ?case using Cons.IH [of "ys[b + n := f n x]" "Suc n"]
    by (cases "v = b + n") (auto simp: nth_Cons')
qed auto

section \<open>Properties\<close>


definition example_idt_layout :: idt_layout where
  "example_idt_layout = \<lparr>isr_addr = (\<lambda>n. 0x1000 + 16 * word_of_nat n), irq_addr = (\<lambda>n. 0x2000 + 16 * word_of_nat n), isr_0x80 = 0x3000, idt_addr = 0x4000\<rparr>"


end
