(* ===== verification/Machine.thy ===== *)
theory Machine
  imports Idt
begin

text \<open>
  The assembly of \<^verbatim>\<open>kernel/src/idt.rs\<close> and \<^verbatim>\<open>kernel/src/sched.rs\<close>: the stubs that save and restore
  an interrupted context. The registers and the kernel's stack memory are a record; each macro is
  a function on it. Interrupt delivery and \<^verbatim>\<open>iretq\<close> are those of 64-bit mode, where the
  processor aligns the stack and always pushes SS and RSP.
\<close>

section \<open>Registers and stack\<close>

record regs = cpu +
  rax :: u64
  rbx :: u64
  rcx :: u64
  rdx :: u64
  rsi :: u64
  rdi :: u64
  rbp :: u64
  r8 :: u64
  r9 :: u64
  r10 :: u64
  r11 :: u64
  r12 :: u64
  r13 :: u64
  r14 :: u64
  r15 :: u64
  rsp :: u64
  rip :: u64
  cs :: u64
  ss :: u64

text \<open>\<open>kmem\<close> maps the address of an 8-byte stack slot to its content.\<close>

record mach = regs +
  kmem :: "u64 \<Rightarrow> u64"

definition push :: "u64 \<Rightarrow> 'a mach_scheme \<Rightarrow> 'a mach_scheme" where
  "push v m = (let a = rsp m - 8 in m\<lparr>rsp := a, kmem := (kmem m)(a := v)\<rparr>)"

definition stack_top :: "'a mach_scheme \<Rightarrow> u64" where
  "stack_top m = kmem m (rsp m)"

definition drop_top :: "'a mach_scheme \<Rightarrow> 'a mach_scheme" where
  "drop_top m = m\<lparr>rsp := rsp m + 8\<rparr>"

section \<open>Stubs\<close>

definition push_frame :: "'a mach_scheme \<Rightarrow> 'a mach_scheme" where
  "push_frame m =
    (let m = push (rax m) m;
         m = push (rbx m) m;
         m = push (rcx m) m;
         m = push (rdx m) m;
         m = push (rsi m) m;
         m = push (rdi m) m;
         m = push (rbp m) m;
         m = push (r8 m) m;
         m = push (r9 m) m;
         m = push (r10 m) m;
         m = push (r11 m) m;
         m = push (r12 m) m;
         m = push (r13 m) m;
         m = push (r14 m) m;
         m = push (r15 m) m;
         m = m\<lparr>rax := rsp m + 160\<rparr>
     in push (rax m) m)"

definition pop_frame :: "'a mach_scheme \<Rightarrow> 'a mach_scheme" where
  "pop_frame m =
    (let m = drop_top (m\<lparr>rax := stack_top m\<rparr>);
         m = drop_top (m\<lparr>r15 := stack_top m\<rparr>);
         m = drop_top (m\<lparr>r14 := stack_top m\<rparr>);
         m = drop_top (m\<lparr>r13 := stack_top m\<rparr>);
         m = drop_top (m\<lparr>r12 := stack_top m\<rparr>);
         m = drop_top (m\<lparr>r11 := stack_top m\<rparr>);
         m = drop_top (m\<lparr>r10 := stack_top m\<rparr>);
         m = drop_top (m\<lparr>r9 := stack_top m\<rparr>);
         m = drop_top (m\<lparr>r8 := stack_top m\<rparr>);
         m = drop_top (m\<lparr>rbp := stack_top m\<rparr>);
         m = drop_top (m\<lparr>rdi := stack_top m\<rparr>);
         m = drop_top (m\<lparr>rsi := stack_top m\<rparr>);
         m = drop_top (m\<lparr>rdx := stack_top m\<rparr>);
         m = drop_top (m\<lparr>rcx := stack_top m\<rparr>);
         m = drop_top (m\<lparr>rbx := stack_top m\<rparr>)
     in drop_top (m\<lparr>rax := stack_top m\<rparr>))"

definition iretq :: "'a mach_scheme \<Rightarrow> 'a mach_scheme" where
  "iretq m =
    (let m = drop_top (m\<lparr>rip := stack_top m\<rparr>);
         m = drop_top (m\<lparr>cs := stack_top m\<rparr>);
         m = drop_top (m\<lparr>rflags := stack_top m\<rparr>);
         new_rsp = stack_top m;
         m = drop_top m
     in m\<lparr>ss := stack_top m, rsp := new_rsp\<rparr>)"

text \<open>The processor enters a gate: it aligns the stack it is going to use, saves the context there and clears IF; coming from
  ring 3 it loads the null stack selector. That stack is \<open>r0\<close>, the RSP0 of the TSS, from ring 3 and the current one from
  ring 0, unless the gate names an entry of the interrupt stack table.\<close>

definition ring3 :: "'a mach_scheme \<Rightarrow> bool" where
  "ring3 m \<longleftrightarrow> cs m AND 3 = 3"

definition enter_on :: "u64 \<Rightarrow> idt_entry \<Rightarrow> 'a mach_scheme \<Rightarrow> 'a mach_scheme" where
  "enter_on stack g m =
    (let old_ss = ss m; old_rsp = rsp m;
         m' = m\<lparr>rsp := stack AND NOT 15\<rparr>;
         m' = push (rip m) (push (cs m) (push (rflags m) (push old_rsp (push old_ss m'))))
     in m'\<lparr>rip := gate_offset g, cs := ucast (selector g), ss := (if ring3 m then 0 else old_ss),
           rflags := rflags m AND NOT RFLAGS_IF\<rparr>)"

definition enter_gate :: "u64 \<Rightarrow> idt_entry \<Rightarrow> 'a mach_scheme \<Rightarrow> 'a mach_scheme" where
  "enter_gate r0 g m = enter_on (if ring3 m then r0 else rsp m) g m"

definition exception_stack :: "tss_state \<Rightarrow> idt_entry \<Rightarrow> 'a mach_scheme \<Rightarrow> u64" where
  "exception_stack t g m =
    (if gate_ist g \<noteq> 0 then ist (tss t) ! (unat (gate_ist g) - 1) else if ring3 m then rsp0 (tss t) else rsp m)"

text \<open>The stubs: an exception stub pushes its vector, behind a dummy error code unless the processor has
  pushed one; IRQ and system call stubs push a dummy error code and the vector.\<close>

definition isr_ec :: "nat \<Rightarrow> bool" where
  "isr_ec num = [False, False, False, False, False, False, False, False, True, False, True, True, True, True, True, False,
     False, True, False, False, False, False, False, False, False, False, False, False, False, False, False, False] ! num"

definition isr_stub :: "nat \<Rightarrow> 'a mach_scheme \<Rightarrow> 'a mach_scheme" where
  "isr_stub num m = (if isr_ec num then push (word_of_nat num) m else push (word_of_nat num) (push 0 m))"

definition irq_stub :: "u64 \<Rightarrow> 'a mach_scheme \<Rightarrow> 'a mach_scheme" where
  "irq_stub vec m = push vec (push 0 m)"

definition syscall_stub :: "u64 \<Rightarrow> 'a mach_scheme \<Rightarrow> 'a mach_scheme" where
  "syscall_stub num m = push num (push 0 m)"

text \<open>The common parts save the registers, pass the frame's address in RDI and align the stack for the
  call. The handler of an exception does not return; the other two keep the address in R12.\<close>

definition isr_common :: "'a mach_scheme \<Rightarrow> 'a mach_scheme" where
  "isr_common m = (let m = push_frame m in m\<lparr>rdi := rsp m, rsp := rsp m AND NOT 15\<rparr>)"

definition irq_common :: "'a mach_scheme \<Rightarrow> 'a mach_scheme" where
  "irq_common m = (let m = push_frame m in m\<lparr>rdi := rsp m, r12 := rsp m, rsp := rsp m AND NOT 15\<rparr>)"

definition stub_entry :: "u64 \<Rightarrow> 'a mach_scheme \<Rightarrow> 'a mach_scheme" where
  "stub_entry vec m = irq_common (if vec = 0x80 then syscall_stub vec m else irq_stub vec m)"

text \<open>The exceptions for which the processor pushes an error code, and the delivery of an exception whose
  error code, if it has one, is \<open>code\<close>.\<close>

definition pushes_code :: "nat \<Rightarrow> bool" where
  "pushes_code num \<longleftrightarrow> num \<in> {8, 10, 11, 12, 13, 14, 17}"

definition exception_entry :: "tss_state \<Rightarrow> idt_entry \<Rightarrow> nat \<Rightarrow> u64 \<Rightarrow> 'a mach_scheme \<Rightarrow> 'a mach_scheme" where
  "exception_entry t g num code m =
    (let m = enter_on (exception_stack t g m) g m;
         m = (if pushes_code num then push code m else m)
     in isr_common (isr_stub num m))"

text \<open>After the handler has returned: \<^verbatim>\<open>mov rsp, r12\<close>, \<^verbatim>\<open>pop_frame\<close>, \<^verbatim>\<open>add rsp, 16\<close>, \<^verbatim>\<open>iretq\<close>. The call
  preserves R12; the other registers are reloaded, so their values at that point do not matter.\<close>

definition stub_exit :: "u64 \<Rightarrow> 'a mach_scheme \<Rightarrow> 'a mach_scheme" where
  "stub_exit frame m = iretq ((\<lambda>m. m\<lparr>rsp := rsp m + 16\<rparr>) (pop_frame (m\<lparr>rsp := frame\<rparr>)))"

text \<open>\<^verbatim>\<open>sched_switch\<close> of \<^verbatim>\<open>sched.rs\<close>: the same tail, on the frame in RDI.\<close>

definition sched_switch :: "u64 \<Rightarrow> 'a mach_scheme \<Rightarrow> 'a mach_scheme" where
  "sched_switch ctx m =
    (let m = m\<lparr>rdi := ctx\<rparr>;
         m = m\<lparr>rsp := rdi m\<rparr>;
         m = drop_top (m\<lparr>rax := stack_top m\<rparr>);
         m = drop_top (m\<lparr>r15 := stack_top m\<rparr>);
         m = drop_top (m\<lparr>r14 := stack_top m\<rparr>);
         m = drop_top (m\<lparr>r13 := stack_top m\<rparr>);
         m = drop_top (m\<lparr>r12 := stack_top m\<rparr>);
         m = drop_top (m\<lparr>r11 := stack_top m\<rparr>);
         m = drop_top (m\<lparr>r10 := stack_top m\<rparr>);
         m = drop_top (m\<lparr>r9 := stack_top m\<rparr>);
         m = drop_top (m\<lparr>r8 := stack_top m\<rparr>);
         m = drop_top (m\<lparr>rbp := stack_top m\<rparr>);
         m = drop_top (m\<lparr>rdi := stack_top m\<rparr>);
         m = drop_top (m\<lparr>rsi := stack_top m\<rparr>);
         m = drop_top (m\<lparr>rdx := stack_top m\<rparr>);
         m = drop_top (m\<lparr>rcx := stack_top m\<rparr>);
         m = drop_top (m\<lparr>rbx := stack_top m\<rparr>);
         m = drop_top (m\<lparr>rax := stack_top m\<rparr>);
         m = m\<lparr>rsp := rsp m + 16\<rparr>
     in iretq m)"

section \<open>Frames in memory\<close>

text \<open>An \<^verbatim>\<open>InterruptFrame\<close> behind a pointer: 23 words, lowest address first.\<close>

definition read_frame :: "(u64 \<Rightarrow> u64) \<Rightarrow> u64 \<Rightarrow> interrupt_frame" where
  "read_frame k a = \<lparr>f_rsp = k a, f_r15 = k (a + 8), f_r14 = k (a + 16), f_r13 = k (a + 24), f_r12 = k (a + 32),
     f_r11 = k (a + 40), f_r10 = k (a + 48), f_r9 = k (a + 56), f_r8 = k (a + 64), f_rbp = k (a + 72), f_rdi = k (a + 80),
     f_rsi = k (a + 88), f_rdx = k (a + 96), f_rcx = k (a + 104), f_rbx = k (a + 112), f_rax = k (a + 120),
     f_vector = k (a + 128), f_error_code = k (a + 136), f_rip = k (a + 144), f_cs = k (a + 152), f_rflags = k (a + 160),
     f_user_rsp = k (a + 168), f_user_ss = k (a + 176)\<rparr>"

definition write_frame :: "(u64 \<Rightarrow> u64) \<Rightarrow> u64 \<Rightarrow> interrupt_frame \<Rightarrow> (u64 \<Rightarrow> u64)" where
  "write_frame k a f = k(a := f_rsp f, a + 8 := f_r15 f, a + 16 := f_r14 f, a + 24 := f_r13 f, a + 32 := f_r12 f,
     a + 40 := f_r11 f, a + 48 := f_r10 f, a + 56 := f_r9 f, a + 64 := f_r8 f, a + 72 := f_rbp f, a + 80 := f_rdi f,
     a + 88 := f_rsi f, a + 96 := f_rdx f, a + 104 := f_rcx f, a + 112 := f_rbx f, a + 120 := f_rax f,
     a + 128 := f_vector f, a + 136 := f_error_code f, a + 144 := f_rip f, a + 152 := f_cs f, a + 160 := f_rflags f,
     a + 168 := f_user_rsp f, a + 176 := f_user_ss f)"

text \<open>The context a frame stands for, put into the registers.\<close>

definition load_regs :: "interrupt_frame \<Rightarrow> 'a mach_scheme \<Rightarrow> 'a mach_scheme" where
  "load_regs f m = m\<lparr>rax := f_rax f, rbx := f_rbx f, rcx := f_rcx f, rdx := f_rdx f, rsi := f_rsi f, rdi := f_rdi f,
     rbp := f_rbp f, r8 := f_r8 f, r9 := f_r9 f, r10 := f_r10 f, r11 := f_r11 f, r12 := f_r12 f, r13 := f_r13 f,
     r14 := f_r14 f, r15 := f_r15 f, rsp := f_user_rsp f, rip := f_rip f, cs := f_cs f, ss := f_user_ss f, rflags := f_rflags f\<rparr>"

definition frame_at :: "u64 \<Rightarrow> u64" where
  "frame_at stack = (stack AND NOT 15) - 184"

text \<open>The frame an interrupt of \<open>m\<close> builds at \<open>a\<close>. Its first word is the address of the slot that holds
  the interrupted RSP.\<close>

definition saved_frame :: "u64 \<Rightarrow> u64 \<Rightarrow> 'a mach_scheme \<Rightarrow> interrupt_frame" where
  "saved_frame vec a m = \<lparr>f_rsp = a + 168, f_r15 = r15 m, f_r14 = r14 m, f_r13 = r13 m, f_r12 = r12 m, f_r11 = r11 m, f_r10 = r10 m,
     f_r9 = r9 m, f_r8 = r8 m, f_rbp = rbp m, f_rdi = rdi m, f_rsi = rsi m, f_rdx = rdx m, f_rcx = rcx m, f_rbx = rbx m, f_rax = rax m,
     f_vector = vec, f_error_code = 0, f_rip = rip m, f_cs = cs m, f_rflags = rflags m, f_user_rsp = rsp m, f_user_ss = ss m\<rparr>"

lemma push_simps [simp]:
  "rsp (push v m) = rsp m - 8" "kmem (push v m) = (kmem m)(rsp m - 8 := v)"
  "rax (push v m) = rax m" "rbx (push v m) = rbx m" "rcx (push v m) = rcx m" "rdx (push v m) = rdx m" "rsi (push v m) = rsi m"
  "rdi (push v m) = rdi m" "rbp (push v m) = rbp m" "r8 (push v m) = r8 m" "r9 (push v m) = r9 m" "r10 (push v m) = r10 m"
  "r11 (push v m) = r11 m" "r12 (push v m) = r12 m" "r13 (push v m) = r13 m" "r14 (push v m) = r14 m" "r15 (push v m) = r15 m"
  by (simp_all add: push_def Let_def)

lemma stub_exit_loads: "stub_exit a m = load_regs (read_frame (kmem m) a) m"
  by (simp add: stub_exit_def pop_frame_def iretq_def drop_top_def stack_top_def load_regs_def read_frame_def Let_def)
    (rule mach.equality, simp_all add: ac_simps)

lemma sched_switch_loads: "sched_switch a m = load_regs (read_frame (kmem m) a) m"
  by (simp add: sched_switch_def iretq_def drop_top_def stack_top_def load_regs_def read_frame_def Let_def)
    (rule mach.equality, simp_all add: ac_simps)

text \<open>The 23 cells of a frame.\<close>

definition frame_cells :: "u64 \<Rightarrow> u64 set" where
  "frame_cells a = (\<lambda>k. a + 8 * word_of_nat k) ` {..<23}"

lemma frame_cells_insert: "frame_cells a = {a, a + 8, a + 16, a + 24, a + 32, a + 40, a + 48, a + 56, a + 64, a + 72, a + 80, a + 88,
    a + 96, a + 104, a + 112, a + 120, a + 128, a + 136, a + 144, a + 152, a + 160, a + 168, a + 176}"
  by (simp add: frame_cells_def lessThan_nat_numeral lessThan_Suc insert_commute)

lemma read_frame_cong: "(\<And>x. x \<in> frame_cells a \<Longrightarrow> k' x = k x) \<Longrightarrow> read_frame k' a = read_frame k a"
  by (simp add: read_frame_def frame_cells_insert)

lemma read_write_frame: "read_frame (write_frame k a f) a = f"
  by (rule interrupt_frame.equality) (simp_all add: read_frame_def write_frame_def)

lemma write_frame_other: "x \<notin> frame_cells a \<Longrightarrow> write_frame k a f x = k x"
  by (simp add: write_frame_def frame_cells_insert)

lemma push_frame_effect:
  "rsp (push_frame m) = rsp m - 128"
  "kmem (push_frame m) = (kmem m)(rsp m - 8 := rax m, rsp m - 16 := rbx m, rsp m - 24 := rcx m, rsp m - 32 := rdx m, rsp m - 40 := rsi m,
     rsp m - 48 := rdi m, rsp m - 56 := rbp m, rsp m - 64 := r8 m, rsp m - 72 := r9 m, rsp m - 80 := r10 m, rsp m - 88 := r11 m,
     rsp m - 96 := r12 m, rsp m - 104 := r13 m, rsp m - 112 := r14 m, rsp m - 120 := r15 m, rsp m - 128 := rsp m + 40)"
  by (simp_all add: push_frame_def Let_def add.commute)

definition gate_stack :: "u64 \<Rightarrow> 'a mach_scheme \<Rightarrow> u64" where
  "gate_stack r0 m = (if ring3 m then r0 else rsp m) AND NOT 15"

lemma enter_on_effect:
  "rsp (enter_on x g m) = (x AND NOT 15) - 40"
  "kmem (enter_on x g m) = (kmem m)((x AND NOT 15) - 8 := ss m, (x AND NOT 15) - 16 := rsp m, (x AND NOT 15) - 24 := rflags m,
     (x AND NOT 15) - 32 := cs m, (x AND NOT 15) - 40 := rip m)"
  "rax (enter_on x g m) = rax m" "rbx (enter_on x g m) = rbx m" "rcx (enter_on x g m) = rcx m" "rdx (enter_on x g m) = rdx m"
  "rsi (enter_on x g m) = rsi m" "rdi (enter_on x g m) = rdi m" "rbp (enter_on x g m) = rbp m" "r8 (enter_on x g m) = r8 m"
  "r9 (enter_on x g m) = r9 m" "r10 (enter_on x g m) = r10 m" "r11 (enter_on x g m) = r11 m" "r12 (enter_on x g m) = r12 m"
  "r13 (enter_on x g m) = r13 m" "r14 (enter_on x g m) = r14 m" "r15 (enter_on x g m) = r15 m"
  by (simp_all add: enter_on_def Let_def)

lemma enter_gate_effect:
  "rsp (enter_gate r0 g m) = gate_stack r0 m - 40"
  "kmem (enter_gate r0 g m) = (kmem m)(gate_stack r0 m - 8 := ss m, gate_stack r0 m - 16 := rsp m, gate_stack r0 m - 24 := rflags m,
     gate_stack r0 m - 32 := cs m, gate_stack r0 m - 40 := rip m)"
  "rax (enter_gate r0 g m) = rax m" "rbx (enter_gate r0 g m) = rbx m" "rcx (enter_gate r0 g m) = rcx m" "rdx (enter_gate r0 g m) = rdx m"
  "rsi (enter_gate r0 g m) = rsi m" "rdi (enter_gate r0 g m) = rdi m" "rbp (enter_gate r0 g m) = rbp m" "r8 (enter_gate r0 g m) = r8 m"
  "r9 (enter_gate r0 g m) = r9 m" "r10 (enter_gate r0 g m) = r10 m" "r11 (enter_gate r0 g m) = r11 m" "r12 (enter_gate r0 g m) = r12 m"
  "r13 (enter_gate r0 g m) = r13 m" "r14 (enter_gate r0 g m) = r14 m" "r15 (enter_gate r0 g m) = r15 m"
  by (simp_all add: enter_gate_def gate_stack_def enter_on_effect)

lemma entry_frame:
  fixes m :: "'a mach_scheme" and r0 vec x :: u64 and g :: idt_entry
  defines "a \<equiv> frame_at (if ring3 m then r0 else rsp m)"
  defines "m' \<equiv> stub_entry vec (enter_gate r0 g m)"
  shows "rdi m' = a" "read_frame (kmem m') a = saved_frame vec a m" "x \<notin> frame_cells a \<Longrightarrow> kmem m' x = kmem m x"
proof -
  have b: "gate_stack r0 m = a + 184" by (simp add: a_def frame_at_def gate_stack_def)
  have k: "kmem m' = (kmem m)(a + 176 := ss m, a + 168 := rsp m, a + 160 := rflags m, a + 152 := cs m, a + 144 := rip m, a + 136 := 0,
     a + 128 := vec, a + 120 := rax m, a + 112 := rbx m, a + 104 := rcx m, a + 96 := rdx m, a + 88 := rsi m, a + 80 := rdi m, a + 72 := rbp m,
     a + 64 := r8 m, a + 56 := r9 m, a + 48 := r10 m, a + 40 := r11 m, a + 32 := r12 m, a + 24 := r13 m, a + 16 := r14 m, a + 8 := r15 m, a := a + 168)"
    by (simp add: m'_def stub_entry_def irq_common_def syscall_stub_def irq_stub_def Let_def push_frame_effect enter_gate_effect b add.commute)
  show "rdi m' = a" by (simp add: m'_def stub_entry_def irq_common_def syscall_stub_def irq_stub_def Let_def push_frame_effect enter_gate_effect b)
  show "read_frame (kmem m') a = saved_frame vec a m" unfolding k by (simp add: read_frame_def saved_frame_def)
  show "x \<notin> frame_cells a \<Longrightarrow> kmem m' x = kmem m x" unfolding k by (simp add: frame_cells_insert)
qed

lemma load_saved: "load_regs (saved_frame vec a m) m = m"
  by (simp add: load_regs_def saved_frame_def)

text \<open>Whether or not the processor pushed an error code, the exception handler sees the same frame.\<close>

lemma isr_ec_hardware: "num < 32 \<Longrightarrow> isr_ec num \<longleftrightarrow> pushes_code num"
  by (simp add: pushes_code_def isr_ec_def less_Suc_eq numeral_eq_Suc) auto

lemma exception_frame:
  fixes m :: "'a mach_scheme" and code :: u64 and g :: idt_entry and t :: tss_state
  assumes n: "num < 32"
  defines "a \<equiv> frame_at (exception_stack t g m)"
  defines "m' \<equiv> exception_entry t g num code m"
  shows "rdi m' = a" "read_frame (kmem m') a = (saved_frame (word_of_nat num) a m)\<lparr>f_error_code := if isr_ec num then code else 0\<rparr>"
proof -
  have b: "exception_stack t g m AND - 16 = a + 184" by (simp add: a_def frame_at_def)
  have k: "kmem m' = (kmem m)(a + 176 := ss m, a + 168 := rsp m, a + 160 := rflags m, a + 152 := cs m, a + 144 := rip m,
     a + 136 := if isr_ec num then code else 0, a + 128 := word_of_nat num, a + 120 := rax m, a + 112 := rbx m, a + 104 := rcx m, a + 96 := rdx m,
     a + 88 := rsi m, a + 80 := rdi m, a + 72 := rbp m, a + 64 := r8 m, a + 56 := r9 m, a + 48 := r10 m, a + 40 := r11 m, a + 32 := r12 m,
     a + 24 := r13 m, a + 16 := r14 m, a + 8 := r15 m, a := a + 168)"
    by (simp add: m'_def exception_entry_def isr_common_def isr_stub_def isr_ec_hardware [OF n, symmetric] Let_def push_frame_effect enter_on_effect b add.commute)
  show "rdi m' = a"
    by (simp add: m'_def exception_entry_def isr_common_def isr_stub_def isr_ec_hardware [OF n, symmetric] Let_def push_frame_effect enter_on_effect b)
  show "read_frame (kmem m') a = (saved_frame (word_of_nat num) a m)\<lparr>f_error_code := if isr_ec num then code else 0\<rparr>"
    unfolding k by (simp add: read_frame_def saved_frame_def)
qed

end
