(* ===== verification/Sched.thy ===== *)
theory Sched
  imports Machine
begin

text \<open>
  \<^verbatim>\<open>kernel/src/sched.rs\<close>: the process table and the round-robin scheduler, on top of the machine. The
  statics are part of the state; the address of \<^verbatim>\<open>KSTACKS\<close> is a parameter. A switch does not
  return to its caller, so an operation that may switch also says whether it did.
\<close>

section \<open>Constants and table\<close>

definition MAX_PROCESSES :: usize where [kconsts]: "MAX_PROCESSES = 16"
definition KSTACK_SIZE :: usize where [kconsts]: "KSTACK_SIZE = 16 * 1024"
definition PROC_BASE :: usize where [kconsts]: "PROC_BASE = 0x80000000"
definition PROC_STRIDE :: usize where [kconsts]: "PROC_STRIDE = 2 * 1024 * 1024"
definition PROC_STACK_OFFSET :: usize where [kconsts]: "PROC_STACK_OFFSET = 1024 * 1024"
definition USER_CODE64 :: u16 where [kconsts]: "USER_CODE64 = USER_CODE64_SELECTOR"
definition USER_DATA :: u16 where [kconsts]: "USER_DATA = USER_DATA_SELECTOR"

definition user_code_va :: "u32 \<Rightarrow> usize option" where
  "user_code_va p = do { d \<leftarrow> umul (ucast p) PROC_STRIDE; uadd PROC_BASE d }"

definition user_stack_top :: "u32 \<Rightarrow> usize option" where
  "user_stack_top p = do {
     d \<leftarrow> umul (ucast p) PROC_STRIDE;
     a \<leftarrow> uadd PROC_BASE d;
     a \<leftarrow> uadd a PROC_STACK_OFFSET;
     uadd a 4096
   }"

datatype state = Unused | Ready | Running | Zombie

record process =
  pid :: u32
  pstate :: state
  kernel_stack_top :: usize
  ctx :: usize
  pname :: "u8 list"

definition UNUSED :: process where
  "UNUSED = \<lparr>pid = 0, pstate = Unused, kernel_stack_top = 0, ctx = 0, pname = replicate 16 0\<rparr>"

record sched = mach +
  procs :: "process list"
  current :: usize
  scheduling :: bool
  tss_s :: tss_state

definition proc_at :: "'a sched_scheme \<Rightarrow> usize \<Rightarrow> process" where
  "proc_at s i = procs s ! unat i"

definition update_proc :: "'a sched_scheme \<Rightarrow> usize \<Rightarrow> (process \<Rightarrow> process) \<Rightarrow> 'a sched_scheme" where
  "update_proc s i f = s\<lparr>procs := (procs s)[unat i := f (proc_at s i)]\<rparr>"

section \<open>Operations\<close>

definition bytes :: "string \<Rightarrow> u8 list" where
  "bytes s = map u8_of_char s"

definition init_idle :: "'a sched_scheme \<Rightarrow> usize \<Rightarrow> 'a sched_scheme" where
  "init_idle s kst = (update_proc s 0 (\<lambda>_. \<lparr>pid = 0, pstate = Ready, kernel_stack_top = kst, ctx = 0,
     pname = bytes ''idle'' @ replicate 12 0\<rparr>))\<lparr>current := 0, scheduling := True\<rparr>"

definition free_slot :: "'a sched_scheme \<Rightarrow> u32 option" where
  "free_slot s = find (\<lambda>i. pstate (proc_at s (ucast i)) \<in> {Unused, Zombie}) (map word_of_nat [1..<unat MAX_PROCESSES])"

definition start_process :: "usize \<Rightarrow> 'a sched_scheme \<Rightarrow> u32 \<Rightarrow> usize \<Rightarrow> u8 list \<Rightarrow> 'a sched_scheme option" where
  "start_process kstacks s p entry name = do {
     let slot = ucast p;
     d \<leftarrow> umul slot KSTACK_SIZE;
     stack_base \<leftarrow> uadd kstacks d;
     stack_top \<leftarrow> uadd stack_base KSTACK_SIZE;
     fa \<leftarrow> usub stack_top 184;
     let frame_addr = fa AND NOT 15;
     usp \<leftarrow> user_stack_top p;
     let f = \<lparr>f_rsp = 0, f_r15 = 0, f_r14 = 0, f_r13 = 0, f_r12 = 0, f_r11 = 0, f_r10 = 0, f_r9 = 0, f_r8 = 0, f_rbp = 0,
              f_rdi = ucast p, f_rsi = 0, f_rdx = 0, f_rcx = 0, f_rbx = 0, f_rax = 0, f_vector = 0, f_error_code = 0,
              f_rip = entry, f_cs = ucast USER_CODE64, f_rflags = 0x202, f_user_rsp = usp, f_user_ss = ucast USER_DATA\<rparr>;
     let s = s\<lparr>kmem := write_frame (kmem s) frame_addr f\<rparr>;
     let nb = take 15 name @ replicate (16 - length (take 15 name)) 0;
     ps \<leftarrow> store_at (procs s) slot \<lparr>pid = p, pstate = Ready, kernel_stack_top = stack_top, ctx = frame_addr, pname = nb\<rparr>;
     Some (s\<lparr>procs := ps\<rparr>)
   }"

definition kill :: "'a sched_scheme \<Rightarrow> u32 \<Rightarrow> bool \<times> 'a sched_scheme" where
  "kill s p =
    (if p = 0 \<or> MAX_PROCESSES \<le> ucast p then (False, s)
     else if pstate (proc_at s (ucast p)) = Zombie \<or> pstate (proc_at s (ucast p)) = Unused then (False, s)
     else (True, update_proc s (ucast p) (\<lambda>q. q\<lparr>pstate := Zombie\<rparr>)))"

definition current_pid :: "'a sched_scheme \<Rightarrow> u32" where
  "current_pid s = pid (proc_at s (current s))"

record proc_desc =
  d_pid :: u32
  d_running :: bool
  d_name :: "u8 list"

text \<open>\<^verbatim>\<open>snapshot\<close> fills at most \<open>n\<close> entries of the caller's buffer.\<close>

definition snapshot :: "'a sched_scheme \<Rightarrow> nat \<Rightarrow> proc_desc list" where
  "snapshot s n = take n (map (\<lambda>p. \<lparr>d_pid = pid p, d_running = (pstate p = Running), d_name = pname p\<rparr>)
     (filter (\<lambda>p. pstate p \<noteq> Unused \<and> pstate p \<noteq> Zombie) (take (unat MAX_PROCESSES) (procs s))))"

fun pick_loop :: "'a sched_scheme \<Rightarrow> nat list \<Rightarrow> usize option option" where
  "pick_loop s [] = Some None"
| "pick_loop s (i # is) = do {
     n \<leftarrow> uadd (current s) (word_of_nat i);
     let idx = n mod MAX_PROCESSES;
     if pstate (proc_at s idx) = Ready then Some (Some idx) else pick_loop s is
   }"

definition pick_next_other :: "'a sched_scheme \<Rightarrow> usize option option" where
  "pick_next_other s = pick_loop s [1..<unat MAX_PROCESSES]"

definition do_switch :: "'a sched_scheme \<Rightarrow> usize \<Rightarrow> 'a sched_scheme" where
  "do_switch s idx =
    (let s = update_proc s idx (\<lambda>p. p\<lparr>pstate := Running\<rparr>);
         s = s\<lparr>current := idx\<rparr>;
         c = ctx (proc_at s idx);
         ktop = kernel_stack_top (proc_at s idx);
         s = s\<lparr>tss_s := set_rsp0 (tss_s s) ktop\<rparr>
     in sched_switch c s)"

text \<open>The result says whether control went to another process.\<close>

definition on_tick :: "'a sched_scheme \<Rightarrow> u64 \<Rightarrow> (bool \<times> 'a sched_scheme) option" where
  "on_tick s frame = do {
     let cur = current s;
     let s = update_proc s cur (\<lambda>p. p\<lparr>pstate := Ready\<rparr>);
     let s = update_proc s cur (\<lambda>p. p\<lparr>ctx := frame\<rparr>);
     r \<leftarrow> pick_next_other s;
     case r of Some nxt \<Rightarrow> Some (True, do_switch s nxt)
     | None \<Rightarrow> Some (False, update_proc s cur (\<lambda>p. p\<lparr>pstate := Running\<rparr>))
   }"

definition yield_now :: "'a sched_scheme \<Rightarrow> u64 \<Rightarrow> (bool \<times> 'a sched_scheme) option" where
  "yield_now s frame = do {
     let cur = current s;
     let s = update_proc s cur (\<lambda>p. p\<lparr>pstate := Ready\<rparr>);
     let s = update_proc s cur (\<lambda>p. p\<lparr>ctx := frame\<rparr>);
     r \<leftarrow> pick_next_other s;
     case r of Some nxt \<Rightarrow> Some (True, do_switch s nxt)
     | None \<Rightarrow> Some (False, update_proc s cur (\<lambda>p. p\<lparr>pstate := Running\<rparr>))
   }"

definition exit_current :: "'a sched_scheme \<Rightarrow> 'a sched_scheme option" where
  "exit_current s = do {
     let cur = current s;
     let s = update_proc s cur (\<lambda>p. p\<lparr>pstate := Zombie\<rparr>);
     r \<leftarrow> pick_next_other s;
     nxt \<leftarrow> r;
     Some (do_switch s nxt)
   }"

text \<open>The end of a handler: through the frame it was called with, unless a switch has already left through
  another one.\<close>

definition leave :: "u64 \<Rightarrow> bool \<times> 'a mach_scheme \<Rightarrow> 'a mach_scheme" where
  "leave frame r = (if fst r then snd r else stub_exit frame (snd r))"

end
