(* ===== verification/Keyboard.thy ===== *)
theory Keyboard
  imports Ports Interfaces
begin

text \<open>
  \<^verbatim>\<open>kernel/src/keyboard.rs\<close>: the PS/2 keyboard driver. The ring buffer and the key state are a
  record; the 8042 is the \<open>device\<close> parameter behind the ports.
\<close>

section \<open>Constants\<close>

definition PS2_DATA :: u16 where [kconsts]: "PS2_DATA = 0x60"
definition PS2_STATUS :: u16 where [kconsts]: "PS2_STATUS = 0x64"
definition PS2_CMD :: u16 where [kconsts]: "PS2_CMD = 0x64"
definition CMD_DISABLE_KBD :: u8 where [kconsts]: "CMD_DISABLE_KBD = 0xAD"
definition CMD_ENABLE_KBD :: u8 where [kconsts]: "CMD_ENABLE_KBD = 0xAE"
definition CMD_CONTROLLER_SELF_TEST :: u8 where [kconsts]: "CMD_CONTROLLER_SELF_TEST = 0xAA"
definition CMD_READ_CONFIG :: u8 where [kconsts]: "CMD_READ_CONFIG = 0x20"
definition CMD_WRITE_CONFIG :: u8 where [kconsts]: "CMD_WRITE_CONFIG = 0x60"
definition CONFIG_KBD_INT :: u8 where [kconsts]: "CONFIG_KBD_INT = 0x01"
definition CONFIG_TRANSLATE :: u8 where [kconsts]: "CONFIG_TRANSLATE = 0x40"
definition KC_RESET :: u8 where [kconsts]: "KC_RESET = 0xFF"
definition KC_ENABLE_SCANNING :: u8 where [kconsts]: "KC_ENABLE_SCANNING = 0xF4"
definition KC_SET_SCANCODE_SET :: u8 where [kconsts]: "KC_SET_SCANCODE_SET = 0xF0"
definition SCANCODE_SET_1 :: u8 where [kconsts]: "SCANCODE_SET_1 = 0x01"
definition STATUS_OUTPUT_FULL :: u8 where [kconsts]: "STATUS_OUTPUT_FULL = 0x01"
definition STATUS_INPUT_FULL :: u8 where [kconsts]: "STATUS_INPUT_FULL = 0x02"
definition SC_E0 :: u8 where [kconsts]: "SC_E0 = 0xE0"
definition SC_LSHIFT :: u8 where [kconsts]: "SC_LSHIFT = 0x2A"
definition SC_RSHIFT :: u8 where [kconsts]: "SC_RSHIFT = 0x36"
definition SC_CAPS :: u8 where [kconsts]: "SC_CAPS = 0x3A"
definition BREAK_BIT :: u8 where [kconsts]: "BREAK_BIT = 0x80"
definition RING_SIZE :: usize where [kconsts]: "RING_SIZE = 64"

section \<open>Ring buffer\<close>

record kbd =
  ring :: "u8 list"
  ring_head :: usize
  ring_tail :: usize
  extended :: bool
  shift :: bool
  caps :: bool

definition kbd_statics :: kbd where
  "kbd_statics = \<lparr>ring = replicate (unat RING_SIZE) 0, ring_head = 0, ring_tail = 0, extended = False, shift = False, caps = False\<rparr>"

text \<open>Both run with interrupts off and put the saved flags back.\<close>

definition poll_char :: "'a cpu_scheme \<Rightarrow> kbd \<Rightarrow> (char option \<times> 'a cpu_scheme \<times> kbd) option" where
  "poll_char cpu k = do {
     let (flags, cpu) = irq_save cpu;
     (c, k) \<leftarrow> (if ring_head k \<noteq> ring_tail k then do {
         c \<leftarrow> index (ring k) (ring_tail k);
         t \<leftarrow> uadd (ring_tail k) 1;
         Some (Some c, k\<lparr>ring_tail := t mod RING_SIZE\<rparr>)
       } else Some (None, k));
     let cpu = irq_restore cpu flags;
     Some (map_option char_of_u8 c, cpu, k)
   }"

definition push_char :: "'a cpu_scheme \<Rightarrow> kbd \<Rightarrow> u8 \<Rightarrow> ('a cpu_scheme \<times> kbd) option" where
  "push_char cpu k c = do {
     let (flags, cpu) = irq_save cpu;
     let head = ring_head k;
     t \<leftarrow> uadd head 1;
     let nxt = t mod RING_SIZE;
     k \<leftarrow> (if nxt \<noteq> ring_tail k then do {
         r \<leftarrow> store_at (ring k) head c;
         Some (k\<lparr>ring := r, ring_head := nxt\<rparr>)
       } else Some k);
     Some (irq_restore cpu flags, k)
   }"

section \<open>Scancodes\<close>

definition BASE_CHARS :: "(u8 \<times> char) list" where
  "BASE_CHARS = [
    (0x02, CHR ''1''), (0x03, CHR ''2''), (0x04, CHR ''3''), (0x05, CHR ''4''), (0x06, CHR ''5''),
    (0x07, CHR ''6''), (0x08, CHR ''7''), (0x09, CHR ''8''), (0x0A, CHR ''9''), (0x0B, CHR ''0''),
    (0x1E, CHR ''a''), (0x30, CHR ''b''), (0x2E, CHR ''c''), (0x20, CHR ''d''), (0x12, CHR ''e''),
    (0x21, CHR ''f''), (0x22, CHR ''g''), (0x23, CHR ''h''), (0x17, CHR ''i''), (0x24, CHR ''j''),
    (0x25, CHR ''k''), (0x26, CHR ''l''), (0x32, CHR ''m''), (0x31, CHR ''n''), (0x18, CHR ''o''),
    (0x19, CHR ''p''), (0x10, CHR ''q''), (0x13, CHR ''r''), (0x1F, CHR ''s''), (0x14, CHR ''t''),
    (0x16, CHR ''u''), (0x2F, CHR ''v''), (0x11, CHR ''w''), (0x2D, CHR ''x''), (0x15, CHR ''y''),
    (0x2C, CHR ''z''), (0x0C, CHR ''-''), (0x0D, CHR ''=''), (0x1A, CHR ''[''), (0x1B, CHR '']''),
    (0x2B, CHR 0x5C), (0x27, CHR '';''), (0x28, CHR 0x27), (0x29, CHR 0x60), (0x33, CHR '',''),
    (0x34, CHR ''.''), (0x35, CHR ''/''), (0x0E, CHR 0x08), (0x0F, CHR 0x09), (0x1C, CHR 0x0A),
    (0x39, CHR '' ''), (0x01, CHR 0x1B)]"

definition is_ascii_lowercase :: "char \<Rightarrow> bool" where
  "is_ascii_lowercase c \<longleftrightarrow> 97 \<le> (of_char c :: nat) \<and> (of_char c :: nat) \<le> 122"

definition shifted_symbol :: "char \<Rightarrow> char option" where
  "shifted_symbol ch = map_of [
    (CHR ''1'', CHR ''!''), (CHR ''2'', CHR ''@''), (CHR ''3'', CHR ''#''), (CHR ''4'', CHR ''$''),
    (CHR ''5'', CHR ''%''), (CHR ''6'', CHR 0x5E), (CHR ''7'', CHR ''&''), (CHR ''8'', CHR ''*''),
    (CHR ''9'', CHR ''(''), (CHR ''0'', CHR '')''), (CHR ''-'', CHR ''_''), (CHR ''='', CHR ''+''),
    (CHR ''['', CHR ''{''), (CHR '']'', CHR ''}''), (CHR 0x5C, CHR ''|''), (CHR '';'', CHR '':''),
    (CHR 0x27, CHR 0x22), (CHR 0x60, CHR ''~''), (CHR '','', CHR ''<''), (CHR ''.'', CHR ''>''),
    (CHR ''/'', CHR ''?'')] ch"

definition kbd_translate :: "u8 \<Rightarrow> bool \<Rightarrow> bool \<Rightarrow> char option option" where
  "kbd_translate code shifted cap =
    (case find (\<lambda>(c, _). c = code) BASE_CHARS of
       None \<Rightarrow> Some None
     | Some (_, ch) \<Rightarrow>
         if is_ascii_lowercase ch then
           (if shifted \<noteq> cap then do { u \<leftarrow> usub (u8_of_char ch) 32; Some (Some (char_of_u8 u)) } else Some (Some ch))
         else if shifted then Some (Some (case shifted_symbol ch of Some d \<Rightarrow> d | None \<Rightarrow> ch))
         else Some (Some ch))"

definition kbd_irq_handler :: "device \<Rightarrow> 'a cpu_scheme \<Rightarrow> bus \<Rightarrow> kbd \<Rightarrow> ('a cpu_scheme \<times> bus \<times> kbd) option" where
  "kbd_irq_handler dev cpu h k = do {
     let (code, h) = inb dev h PS2_DATA;
     if extended k then Some (cpu, h, k\<lparr>extended := False\<rparr>)
     else if code = SC_E0 then Some (cpu, h, k\<lparr>extended := True\<rparr>)
     else if code AND BREAK_BIT \<noteq> 0 then
       (if code AND NOT BREAK_BIT = SC_LSHIFT \<or> code AND NOT BREAK_BIT = SC_RSHIFT
        then Some (cpu, h, k\<lparr>shift := False\<rparr>) else Some (cpu, h, k))
     else if code = SC_LSHIFT \<or> code = SC_RSHIFT then Some (cpu, h, k\<lparr>shift := True\<rparr>)
     else if code = SC_CAPS then Some (cpu, h, k\<lparr>caps := \<not> caps k\<rparr>)
     else do {
       r \<leftarrow> kbd_translate code (shift k) (caps k);
       case r of None \<Rightarrow> Some (cpu, h, k)
       | Some c \<Rightarrow> do { (cpu, k) \<leftarrow> push_char cpu k (u8_of_char c); Some (cpu, h, k) }
     }
   }"

section \<open>8042 and keyboard initialisation\<close>

definition kbd_status :: "device \<Rightarrow> bus \<Rightarrow> u8 \<times> bus" where
  "kbd_status dev h = inb dev h PS2_STATUS"

fun wait_clear_loop :: "device \<Rightarrow> bus \<Rightarrow> nat \<Rightarrow> bool \<times> bus" where
  "wait_clear_loop dev h 0 = (False, h)"
| "wait_clear_loop dev h (Suc n) =
    (case kbd_status dev h of (s, h) \<Rightarrow> if s AND STATUS_INPUT_FULL = 0 then (True, h) else wait_clear_loop dev h n)"

definition wait_input_clear :: "device \<Rightarrow> bus \<Rightarrow> bool \<times> bus" where
  "wait_input_clear dev h = wait_clear_loop dev h 100000"

fun read_byte_loop :: "device \<Rightarrow> bus \<Rightarrow> nat \<Rightarrow> u8 option \<times> bus" where
  "read_byte_loop dev h 0 = (None, h)"
| "read_byte_loop dev h (Suc n) =
    (case kbd_status dev h of (s, h) \<Rightarrow>
       if s AND STATUS_OUTPUT_FULL \<noteq> 0 then (case inb dev h PS2_DATA of (b, h) \<Rightarrow> (Some b, h))
       else read_byte_loop dev h n)"

definition read_byte :: "device \<Rightarrow> bus \<Rightarrow> u8 option \<times> bus" where
  "read_byte dev h = read_byte_loop dev h 100000"

text \<open>The flush loop has no bound.\<close>

partial_function (option) flush_output :: "device \<Rightarrow> bus \<Rightarrow> bus option" where
  "flush_output dev h =
    (case kbd_status dev h of (s, h) \<Rightarrow>
       if s AND STATUS_OUTPUT_FULL \<noteq> 0 then flush_output dev (snd (inb dev h PS2_DATA)) else Some h)"

text \<open>
  \<^verbatim>\<open>if !wait_input_clear() { return false; }\<close> and \<^verbatim>\<open>if read_byte() != Some(b) { return false; }\<close>
  in front of the rest of the function.
\<close>

definition when_clear :: "device \<Rightarrow> bus \<Rightarrow> (bus \<Rightarrow> (bool \<times> bus) option) \<Rightarrow> (bool \<times> bus) option" where
  "when_clear dev h rest = (case wait_input_clear dev h of (ok, h) \<Rightarrow> if \<not> ok then Some (False, h) else rest h)"

definition when_byte :: "device \<Rightarrow> bus \<Rightarrow> u8 \<Rightarrow> (bus \<Rightarrow> (bool \<times> bus) option) \<Rightarrow> (bool \<times> bus) option" where
  "when_byte dev h b rest = (case read_byte dev h of (r, h) \<Rightarrow> if r \<noteq> Some b then Some (False, h) else rest h)"

definition kbd_init :: "device \<Rightarrow> bus \<Rightarrow> (bool \<times> bus) option" where
  "kbd_init dev h =
    when_clear dev h (\<lambda>h.
    when_clear dev (outb h PS2_CMD CMD_DISABLE_KBD) (\<lambda>h.
    do {
      h \<leftarrow> flush_output dev h;
      when_byte dev (outb h PS2_CMD CMD_CONTROLLER_SELF_TEST) 0x55 (\<lambda>h.
      when_clear dev h (\<lambda>h.
      case read_byte dev (outb h PS2_CMD CMD_READ_CONFIG) of
        (None, h) \<Rightarrow> Some (False, h)
      | (Some cfg, h) \<Rightarrow>
          when_clear dev h (\<lambda>h.
          when_clear dev (outb h PS2_CMD CMD_WRITE_CONFIG) (\<lambda>h.
          when_clear dev (outb h PS2_DATA ((cfg OR CONFIG_KBD_INT) AND NOT CONFIG_TRANSLATE)) (\<lambda>h.
          when_clear dev (outb h PS2_CMD CMD_ENABLE_KBD) (\<lambda>h.
          when_byte dev (outb h PS2_DATA KC_RESET) 0xFA (\<lambda>h.
          case read_byte dev h of (_, h) \<Rightarrow>
          when_clear dev h (\<lambda>h.
          when_byte dev (outb h PS2_DATA KC_SET_SCANCODE_SET) 0xFA (\<lambda>h.
          when_clear dev h (\<lambda>h.
          when_byte dev (outb h PS2_DATA SCANCODE_SET_1) 0xFA (\<lambda>h.
          when_clear dev h (\<lambda>h.
          case read_byte dev (outb h PS2_DATA KC_ENABLE_SCANNING) of (r, h) \<Rightarrow> Some (r = Some 0xFA, h))))))))))))) 
    }))"

section \<open>The ring as a bounded queue\<close>

definition kbd_ok :: "kbd \<Rightarrow> bool" where
  "kbd_ok k \<longleftrightarrow> length (ring k) = 64 \<and> unat (ring_head k) < 64 \<and> unat (ring_tail k) < 64"

definition fill :: "kbd \<Rightarrow> nat" where
  "fill k = (unat (ring_head k) + 64 - unat (ring_tail k)) mod 64"

definition queued :: "kbd \<Rightarrow> u8 list" where
  "queued k = map (\<lambda>i. ring k ! ((unat (ring_tail k) + i) mod 64)) [0..<fill k]"

lemma irq_flags_back [simp]: "irq_restore (snd (irq_save c)) (fst (irq_save c)) = c"
  by (simp add: irq_save_def irq_restore_def)

lemma succ_mod:
  fixes x :: usize
  assumes "unat x < 64"
  shows "uadd x 1 = Some (x + 1)" "unat ((x + 1) mod RING_SIZE) = Suc (unat x) mod 64"
proof -
  have u: "unat (x + 1) = Suc (unat x)" using assms by (simp add: unat_add_no_wrap)
  show "uadd x 1 = Some (x + 1)" using assms by (simp add: uadd_def)
  show "unat ((x + 1) mod RING_SIZE) = Suc (unat x) mod 64" by (simp add: unat_mod u RING_SIZE_def)
qed

text \<open>Index arithmetic modulo the ring size.\<close>

lemma fill_if: "h < 64 \<Longrightarrow> t < 64 \<Longrightarrow> (h + 64 - t) mod 64 = (if t \<le> h then h - t else h + 64 - t)" for h t :: nat
  by (auto simp: le_mod_geq)

lemma succ_if: "h < 64 \<Longrightarrow> Suc h mod 64 = (if h = 63 then 0 else Suc h)" for h :: nat
  by auto

lemma fill_push:
  fixes h t :: nat
  assumes "h < 64" "t < 64"
  shows "Suc h mod 64 = t \<Longrightarrow> (h + 64 - t) mod 64 = 63"
    "Suc h mod 64 \<noteq> t \<Longrightarrow> (Suc h mod 64 + 64 - t) mod 64 = Suc ((h + 64 - t) mod 64)"
    "(t + (h + 64 - t) mod 64) mod 64 = h"
    "i < (h + 64 - t) mod 64 \<Longrightarrow> (t + i) mod 64 \<noteq> h"
    "h \<noteq> t \<Longrightarrow> (h + 64 - t) mod 64 = Suc ((h + 64 - Suc t mod 64) mod 64)"
proof -
  have s: "Suc h mod 64 < 64" "Suc t mod 64 < 64" by simp_all
  show "Suc h mod 64 = t \<Longrightarrow> (h + 64 - t) mod 64 = 63"
    "Suc h mod 64 \<noteq> t \<Longrightarrow> (Suc h mod 64 + 64 - t) mod 64 = Suc ((h + 64 - t) mod 64)"
    "h \<noteq> t \<Longrightarrow> (h + 64 - t) mod 64 = Suc ((h + 64 - Suc t mod 64) mod 64)"
    using assms by (auto simp: fill_if [OF s(1)] fill_if [OF _ s(2)] fill_if succ_if split: if_splits)
  show "(t + (h + 64 - t) mod 64) mod 64 = h" using assms by (auto simp: fill_if)
  show "i < (h + 64 - t) mod 64 \<Longrightarrow> (t + i) mod 64 \<noteq> h"
    using assms by (cases "t + i < 64") (auto simp: fill_if le_mod_geq split: if_splits)
qed

lemma next_index: "(Suc t mod 64 + j) mod 64 = (t + Suc j) mod 64" for t j :: nat
  by (simp add: mod_add_left_eq)

lemma push_char_queued:
  assumes ok: "kbd_ok k"
  shows "\<exists>k'. push_char cpu k c = Some (cpu, k') \<and> kbd_ok k' \<and> queued k' = take 63 (queued k @ [c]) \<and>
    extended k' = extended k \<and> shift k' = shift k \<and> caps k' = caps k"
proof -
  let ?h = "unat (ring_head k)" and ?t = "unat (ring_tail k)"
  have b: "?h < 64" "?t < 64" "length (ring k) = 64" using ok by (simp_all add: kbd_ok_def)
  note s = succ_mod [OF b(1)]
  have save: "irq_save cpu = (fst (irq_save cpu), snd (irq_save cpu))" by simp
  show ?thesis
  proof (cases "(ring_head k + 1) mod RING_SIZE = ring_tail k")
    case True
    then have "Suc ?h mod 64 = ?t" using s(2) by simp
    then have "length (queued k) = 63" using fill_push(1) [OF b(1,2)] by (simp add: queued_def fill_def)
    moreover have "push_char cpu k c = Some (cpu, k)" using True s(1) by (simp add: push_char_def case_prod_beta)
    ultimately show ?thesis using ok by auto
  next
    case False
    then have ne: "Suc ?h mod 64 \<noteq> ?t" using s(2) by (simp add: word_unat_eq_iff)
    let ?k = "k\<lparr>ring := (ring k)[?h := c], ring_head := (ring_head k + 1) mod RING_SIZE\<rparr>"
    have p: "push_char cpu k c = Some (cpu, ?k)"
      using False s(1) b by (simp add: push_char_def case_prod_beta store_at_def Let_def)
    have f: "fill ?k = Suc (fill k)" using fill_push(2) [OF b(1,2) ne] s(2) by (simp add: fill_def)
    have "fill ?k < 64" by (simp add: fill_def)
    then have room: "fill k < 63" using f by simp
    have old: "((ring k)[?h := c]) ! ((?t + i) mod 64) = ring k ! ((?t + i) mod 64)" if "i < fill k" for i
      using fill_push(4) [OF b(1,2), of i] that b(3) by (simp add: fill_def)
    have new: "((ring k)[?h := c]) ! ((?t + fill k) mod 64) = c" using fill_push(3) [OF b(1,2)] b by (simp add: fill_def)
    have "queued ?k = queued k @ [c]" unfolding queued_def f using old new by simp
    moreover have "length (queued k) < 63" using room by (simp add: queued_def)
    ultimately have "queued ?k = take 63 (queued k @ [c])" by simp
    moreover have "kbd_ok ?k" using b s(2) by (simp add: kbd_ok_def)
    ultimately show ?thesis using p by (intro exI [of _ ?k]) simp
  qed
qed

lemma poll_char_queued:
  assumes ok: "kbd_ok k"
  shows "\<exists>k'. poll_char cpu k = Some (map_option char_of_u8 (case queued k of [] \<Rightarrow> None | c # _ \<Rightarrow> Some c), cpu, k') \<and>
    kbd_ok k' \<and> queued k' = tl (queued k)"
proof -
  let ?h = "unat (ring_head k)" and ?t = "unat (ring_tail k)"
  have b: "?h < 64" "?t < 64" "length (ring k) = 64" using ok by (simp_all add: kbd_ok_def)
  note s = succ_mod [OF b(2)]
  show ?thesis
  proof (cases "ring_head k = ring_tail k")
    case True
    then have "queued k = []" by (simp add: queued_def fill_def)
    then show ?thesis using True ok by (simp add: poll_char_def case_prod_beta)
  next
    case False
    then have "?h \<noteq> ?t" by (simp add: word_unat_eq_iff)
    note f = fill_push(5) [OF b(1,2) this]
    let ?k = "k\<lparr>ring_tail := (ring_tail k + 1) mod RING_SIZE\<rparr>"
    obtain n where n: "fill k = Suc n" "fill ?k = n" using f s(2) by (simp add: fill_def)
    have "queued k = ring k ! ?t # queued ?k"
      unfolding queued_def n upt_conv_Cons [OF zero_less_Suc] using b(2) s(2)
      by (simp add: map_Suc_upt [symmetric] next_index del: map_Suc_upt upt_Suc)
    moreover have "poll_char cpu k = Some (Some (char_of_u8 (ring k ! ?t)), cpu, ?k)"
      using False s(1) b by (simp add: poll_char_def case_prod_beta index_def)
    moreover have "kbd_ok ?k" using b s(2) by (simp add: kbd_ok_def)
    ultimately show ?thesis by (intro exI [of _ ?k]) simp
  qed
qed

definition ring_push :: "'a cpu_scheme \<times> kbd \<Rightarrow> char \<Rightarrow> ('a cpu_scheme \<times> kbd) option" where
  "ring_push w c = push_char (fst w) (snd w) (u8_of_char c)"

definition ring_pop :: "'a cpu_scheme \<times> kbd \<Rightarrow> (char option \<times> 'a cpu_scheme \<times> kbd) option" where
  "ring_pop w = poll_char (fst w) (snd w)"

definition chars :: "kbd \<Rightarrow> char list" where
  "chars k = map char_of_u8 (queued k)"

interpretation ring_fifo: bounded_fifo "\<lambda>w. kbd_ok (snd w)" "\<lambda>w. chars (snd w)" 63 ring_push ring_pop
proof unfold_locales
  fix w :: "'a cpu_scheme \<times> kbd" and c
  assume ok: "kbd_ok (snd w)"
  show "\<exists>w'. ring_push w c = Some w' \<and> kbd_ok (snd w') \<and> chars (snd w') = take 63 (chars (snd w) @ [c])"
    using push_char_queued [OF ok, of "fst w" "u8_of_char c"] by (auto simp: ring_push_def chars_def take_map [symmetric])
  show "\<exists>w'. ring_pop w = Some (case chars (snd w) of [] \<Rightarrow> None | x # _ \<Rightarrow> Some x, w') \<and> kbd_ok (snd w') \<and> chars (snd w') = tl (chars (snd w))"
    using poll_char_queued [OF ok, of "fst w"] by (cases "queued (snd w)") (auto simp: ring_pop_def chars_def)
  have "fill (snd w) < 64" by (simp add: fill_def)
  then show "length (chars (snd w)) \<le> 63" by (simp add: chars_def queued_def)
qed

section \<open>Scancodes and typed characters\<close>

text \<open>
  The stream of scancodes as key events, with every byte behind an \<open>0xE0\<close> prefix skipped, and the
  characters a stream of events types.
\<close>

datatype key_event = Press u8 | Release u8

fun key_events :: "u8 list \<Rightarrow> key_event list" where
  "key_events [] = []"
| "key_events (c # cs) = (if c = SC_E0 then key_events (tl cs)
     else (if bit c 7 then Release (c AND 0x7F) else Press c) # key_events cs)"

definition is_shift :: "u8 \<Rightarrow> bool" where
  "is_shift c \<longleftrightarrow> c = SC_LSHIFT \<or> c = SC_RSHIFT"

fun typed :: "bool \<Rightarrow> bool \<Rightarrow> key_event list \<Rightarrow> char list" where
  "typed s c [] = []"
| "typed s c (Release x # es) = typed (s \<and> \<not> is_shift x) c es"
| "typed s c (Press x # es) =
    (if is_shift x then typed True c es
     else if x = SC_CAPS then typed s (\<not> c) es
     else (case kbd_translate x s c of Some (Some ch) \<Rightarrow> ch # typed s c es | _ \<Rightarrow> typed s c es))"

lemma kbd_translate_returns: "\<exists>r. kbd_translate code s c = Some r"
proof -
  have "32 \<le> u8_of_char ch" if "is_ascii_lowercase ch" for ch
    using that by (simp add: is_ascii_lowercase_def word_le_nat_alt unat_u8_of_char)
  then show ?thesis by (auto simp: kbd_translate_def usub_def split: option.split)
qed

lemma break_bits: "(c AND BREAK_BIT \<noteq> 0) = bit c 7" "c AND NOT BREAK_BIT = c AND 0x7F" for c :: u8
proof -
  have b: "BREAK_BIT = push_bit 7 1" by (simp add: BREAK_BIT_def)
  show "(c AND BREAK_BIT \<noteq> 0) = bit c 7" unfolding b and_flag_len by simp
  have m: "0x7F = (mask 7 :: u8)" by (simp add: mask_eq_exp_minus_1)
  show "c AND NOT BREAK_BIT = c AND 0x7F" unfolding b m
  proof (rule bit_word_eqI)
    fix n assume n: "n < LENGTH(8)"
    show "bit (c AND NOT (push_bit 7 1)) n = bit (c AND mask 7) n"
      unfolding bit_and_iff bit_not_iff bit_flag_len bit_mask_word using n by (auto simp: less_Suc_eq numeral_eq_Suc)
  qed
qed

text \<open>One interrupt: what it types, and the key state it leaves.\<close>

definition types :: "kbd \<Rightarrow> u8 \<Rightarrow> char list" where
  "types k c = (if extended k \<or> c = SC_E0 \<or> bit c 7 \<or> is_shift c \<or> c = SC_CAPS then []
     else case kbd_translate c (shift k) (caps k) of Some (Some ch) \<Rightarrow> [ch] | _ \<Rightarrow> [])"

definition keyed :: "kbd \<Rightarrow> u8 \<Rightarrow> kbd \<Rightarrow> bool" where
  "keyed k c k' \<longleftrightarrow> extended k' = (\<not> extended k \<and> c = SC_E0) \<and>
     shift k' = (if extended k \<or> c = SC_E0 then shift k else if bit c 7 then shift k \<and> \<not> is_shift (c AND 0x7F) else shift k \<or> is_shift c) \<and>
     caps k' = (if extended k \<or> c = SC_E0 \<or> bit c 7 \<or> c \<noteq> SC_CAPS then caps k else \<not> caps k)"

definition stream :: "kbd \<Rightarrow> u8 list \<Rightarrow> char list" where
  "stream k cs = typed (shift k) (caps k) (key_events (if extended k then tl cs else cs))"

lemma stream_step:
  assumes "keyed k c k'"
  shows "stream k (c # cs) = types k c @ stream k' cs"
proof -
  have "\<not> is_shift SC_CAPS" by (simp add: is_shift_def kconsts)
  then show ?thesis using assms kbd_translate_returns [of c "shift k" "caps k"]
    by (auto simp: stream_def types_def keyed_def split: option.splits)
qed

lemma queue_same: "ring k' = ring k \<Longrightarrow> ring_head k' = ring_head k \<Longrightarrow> ring_tail k' = ring_tail k \<Longrightarrow> kbd_ok k' = kbd_ok k \<and> chars k' = chars k"
  by (simp add: kbd_ok_def chars_def queued_def fill_def)

lemma chars_cap: "take 63 (chars k) = chars k"
proof -
  have "fill k < 64" by (simp add: fill_def)
  then show ?thesis by (simp add: chars_def queued_def)
qed

lemma irq_quiet:
  assumes "kbd_irq_handler dev cpu h k = Some (cpu, h', k')" "kbd_ok k" "types k c = []"
    "ring k' = ring k" "ring_head k' = ring_head k" "ring_tail k' = ring_tail k"
  shows "kbd_ok k' \<and> chars k' = take 63 (chars k @ types k c)"
  using assms queue_same [of k' k] by (simp add: chars_cap)

lemma kbd_irq_step:
  assumes ok: "kbd_ok k"
  shows "\<exists>k'. kbd_irq_handler dev cpu h k = Some (cpu, h @ [In PS2_DATA (dev h PS2_DATA)], k') \<and> kbd_ok k' \<and>
    keyed k (dev h PS2_DATA) k' \<and> chars k' = take 63 (chars k @ types k (dev h PS2_DATA))"
proof -
  define c where "c = dev h PS2_DATA"
  have i: "inb dev h PS2_DATA = (c, h @ [In PS2_DATA c])" by (simp add: inb_def Let_def c_def)
  have noE0: "SC_E0 \<noteq> SC_CAPS" "\<not> is_shift SC_CAPS" by (simp_all add: is_shift_def kconsts)
  let ?h = "kbd_irq_handler dev cpu h k"
  have ex: "?thesis" if "?h = Some (cpu, h @ [In PS2_DATA c], k')" "keyed k c k'" "types k c = []"
    "ring k' = ring k" "ring_head k' = ring_head k" "ring_tail k' = ring_tail k" for k'
    using that irq_quiet [OF that(1) ok that(3-6)] unfolding c_def by blast
  note sh = break_bits [of c] is_shift_def [symmetric]
  consider "extended k" | "\<not> extended k" "c = SC_E0" | "\<not> extended k" "c \<noteq> SC_E0" "bit c 7"
    | "\<not> extended k" "c \<noteq> SC_E0" "\<not> bit c 7" "is_shift c" | "\<not> extended k" "c \<noteq> SC_E0" "\<not> bit c 7" "\<not> is_shift c" "c = SC_CAPS"
    | "\<not> extended k" "c \<noteq> SC_E0" "\<not> bit c 7" "\<not> is_shift c" "c \<noteq> SC_CAPS" by blast
  then show ?thesis
  proof cases
    case 1
    then show ?thesis by (intro ex [of "k\<lparr>extended := False\<rparr>"]) (simp_all add: kbd_irq_handler_def i keyed_def types_def)
  next
    case 2
    then show ?thesis by (intro ex [of "k\<lparr>extended := True\<rparr>"]) (simp_all add: kbd_irq_handler_def i keyed_def types_def)
  next
    case 3
    then show ?thesis
      by (intro ex [of "if is_shift (c AND 0x7F) then k\<lparr>shift := False\<rparr> else k"]) (simp_all add: kbd_irq_handler_def i sh keyed_def types_def)
  next
    case 4
    then show ?thesis using noE0
      by (intro ex [of "k\<lparr>shift := True\<rparr>"]) (auto simp: kbd_irq_handler_def i sh keyed_def types_def)
  next
    case 5
    then have "c AND BREAK_BIT = 0" using sh(1) by blast
    then show ?thesis using 5 by (intro ex [of "k\<lparr>caps := \<not> caps k\<rparr>"]) (simp_all add: kbd_irq_handler_def i sh(3) keyed_def types_def)
  next
    case 6
    obtain r where r: "kbd_translate c (shift k) (caps k) = Some r" using kbd_translate_returns by blast
    show ?thesis
    proof (cases r)
      case None
      then show ?thesis using 6 r by (intro ex [of k]) (simp_all add: kbd_irq_handler_def i sh keyed_def types_def)
    next
      case (Some ch)
      obtain k' where k': "push_char cpu k (u8_of_char ch) = Some (cpu, k')" "kbd_ok k'" "queued k' = take 63 (queued k @ [u8_of_char ch])"
        "extended k' = extended k" "shift k' = shift k" "caps k' = caps k"
        using push_char_queued [OF ok] by blast
      have "?h = Some (cpu, h @ [In PS2_DATA c], k')" using 6 r Some k'(1) by (simp add: kbd_irq_handler_def i sh)
      moreover have "keyed k c k'" using 6 k'(4-6) by (simp add: keyed_def)
      moreover have "chars k' = take 63 (chars k @ types k c)" using 6 r Some k'(3) by (simp add: types_def chars_def take_map [symmetric])
      ultimately show ?thesis using k'(2) unfolding c_def by blast
    qed
  qed
qed

fun kbd_irqs :: "device \<Rightarrow> nat \<Rightarrow> 'a cpu_scheme \<times> bus \<times> kbd \<Rightarrow> ('a cpu_scheme \<times> bus \<times> kbd) option" where
  "kbd_irqs dev 0 w = Some w"
| "kbd_irqs dev (Suc n) (cpu, h, k) = do { w \<leftarrow> kbd_irq_handler dev cpu h k; kbd_irqs dev n w }"

lemma take_take_append: "take n (take n xs @ ys) = take n (xs @ ys)"
  by (cases "length xs \<le> n") simp_all

lemma kbd_irqs_stream:
  "kbd_ok k \<Longrightarrow> \<exists>codes k'. kbd_irqs dev n (cpu, h, k) = Some (cpu, h @ map (In PS2_DATA) codes, k') \<and> length codes = n \<and>
    kbd_ok k' \<and> chars k' = take 63 (chars k @ stream k codes)"
proof (induction n arbitrary: h k)
  case 0
  then show ?case by (intro exI [of _ "[]"] exI [of _ k]) (simp add: stream_def chars_cap)
next
  case (Suc n)
  let ?c = "dev h PS2_DATA"
  obtain k1 where k1: "kbd_irq_handler dev cpu h k = Some (cpu, h @ [In PS2_DATA ?c], k1)" "kbd_ok k1" "keyed k ?c k1"
    "chars k1 = take 63 (chars k @ types k ?c)" using kbd_irq_step [OF Suc.prems] by blast
  obtain codes k' where IH: "kbd_irqs dev n (cpu, h @ [In PS2_DATA ?c], k1) = Some (cpu, (h @ [In PS2_DATA ?c]) @ map (In PS2_DATA) codes, k')"
    "length codes = n" "kbd_ok k'" "chars k' = take 63 (chars k1 @ stream k1 codes)" using Suc.IH [OF k1(2)] by blast
  have "chars k' = take 63 (chars k @ stream k (?c # codes))"
    unfolding IH(4) k1(4) take_take_append stream_step [OF k1(3)] by simp
  then show ?case using k1(1) IH(1-3) by (intro exI [of _ "?c # codes"] exI [of _ k']) simp
qed

section \<open>Initialisation\<close>

text \<open>The waits and reads of the status port write nothing.\<close>

lemma wait_clear_outs: "outs p (snd (wait_clear_loop dev h n)) = outs p h"
  by (induction n arbitrary: h) (auto simp: kbd_status_def inb_def Let_def)

lemma read_byte_outs: "outs p (snd (read_byte_loop dev h n)) = outs p h"
  by (induction n arbitrary: h) (auto simp: kbd_status_def inb_def Let_def)

text \<open>\<open>fine P m\<close>: the rest of the initialisation returns, and if it reports success then \<open>P\<close>.\<close>

definition fine :: "(bus \<Rightarrow> bool) \<Rightarrow> (bool \<times> bus) option \<Rightarrow> bool" where
  "fine P m \<longleftrightarrow> (\<exists>ok h. m = Some (ok, h) \<and> (ok \<longrightarrow> P h))"

lemma fine_clear: "(\<And>g. \<forall>p. outs p g = outs p h \<Longrightarrow> fine P (rest g)) \<Longrightarrow> fine P (when_clear dev h rest)"
  using wait_clear_outs [of _ dev h 100000] by (auto simp: when_clear_def wait_input_clear_def fine_def split: prod.splits)

lemma fine_byte: "(\<And>g. \<forall>p. outs p g = outs p h \<Longrightarrow> fine P (rest g)) \<Longrightarrow> fine P (when_byte dev h b rest)"
  using read_byte_outs [of _ dev h 100000] by (auto simp: when_byte_def read_byte_def fine_def split: prod.splits)

lemma fine_read: "(\<And>r g. \<forall>p. outs p g = outs p h \<Longrightarrow> fine P (rest r g)) \<Longrightarrow> fine P (case read_byte dev h of (r, g) \<Rightarrow> rest r g)"
  using read_byte_outs [of _ dev h 100000] by (auto simp: read_byte_def split: prod.splits)

lemma fine_option: "(\<And>x. fine P (rest x)) \<Longrightarrow> fine P (case r of None \<Rightarrow> Some (False, g) | Some x \<Rightarrow> rest x)"
  by (auto simp: fine_def split: option.splits)

lemma fine_return: "P g \<Longrightarrow> fine P (Some (b, g))"
  by (simp add: fine_def)

text \<open>The documented controller: reading the data port often enough empties its output buffer.\<close>

fun flushed :: "device \<Rightarrow> bus \<Rightarrow> nat \<Rightarrow> bus" where
  "flushed dev h 0 = h"
| "flushed dev h (Suc n) = flushed dev (snd (inb dev (snd (kbd_status dev h)) PS2_DATA)) n"

definition output_empties :: "device \<Rightarrow> bool" where
  "output_empties dev \<longleftrightarrow> (\<forall>h. \<exists>n. fst (kbd_status dev (flushed dev h n)) AND STATUS_OUTPUT_FULL = 0)"

lemma flush_returns:
  "fst (kbd_status dev (flushed dev h n)) AND STATUS_OUTPUT_FULL = 0 \<Longrightarrow> \<exists>g. flush_output dev h = Some g \<and> (\<forall>p. outs p g = outs p h)"
proof (induction n arbitrary: h)
  case 0
  then show ?case by (subst flush_output.simps) (simp add: kbd_status_def inb_def Let_def)
next
  case (Suc n)
  let ?h = "snd (inb dev (snd (kbd_status dev h)) PS2_DATA)"
  obtain g where "flush_output dev ?h = Some g" "\<forall>p. outs p g = outs p ?h"
    using Suc.IH [of ?h] Suc.prems by auto
  then show ?case by (subst flush_output.simps) (auto simp: kbd_status_def inb_def Let_def)
qed

lemma fine_flush:
  assumes "output_empties dev" "\<And>g. \<forall>p. outs p g = outs p h \<Longrightarrow> fine P (rest g)"
  shows "fine P (do { g \<leftarrow> flush_output dev h; rest g })"
proof -
  obtain g where "flush_output dev h = Some g" "\<forall>p. outs p g = outs p h"
    using assms(1) flush_returns [of dev h] unfolding output_empties_def by blast
  then show ?thesis using assms(2) by simp
qed

lemma config_bits: "bit ((cfg OR CONFIG_KBD_INT) AND NOT CONFIG_TRANSLATE) 0" "\<not> bit ((cfg OR CONFIG_KBD_INT) AND NOT CONFIG_TRANSLATE) 6" for cfg :: u8
proof -
  have c: "CONFIG_KBD_INT = push_bit 0 1" "CONFIG_TRANSLATE = push_bit 6 1" by (simp_all add: kconsts)
  show "bit ((cfg OR CONFIG_KBD_INT) AND NOT CONFIG_TRANSLATE) 0" "\<not> bit ((cfg OR CONFIG_KBD_INT) AND NOT CONFIG_TRANSLATE) 6"
    unfolding c bit_and_iff bit_or_iff bit_not_iff bit_flag_len by simp_all
qed

section \<open>Properties\<close>


definition example_kbd :: device where
  "example_kbd h p = [0x2A, 0x1E, 0xAA, 0xE0, 0x48, 0x02] ! (length h mod 6)"


text \<open>C37: Keyboard initialisation always returns, however the controller answers, as long as its output buffer
  can be emptied. If it reports success, the controller and keyboard were sent exactly the documented
  command sequence, and the configuration written enables the keyboard interrupt and disables the
  scancode translation.\<close>

theorem kbd_init_correct:
  assumes "output_empties dev"
  shows "\<exists>ok h'. kbd_init dev h = Some (ok, h') \<and> (ok \<longrightarrow> (\<exists>cfg. bit cfg 0 \<and> \<not> bit cfg 6 \<and>
    outs 0x64 h' = outs 0x64 h @ [0xAD, 0xAA, 0x20, 0x60, 0xAE] \<and> outs 0x60 h' = outs 0x60 h @ [cfg, 0xFF, 0xF0, 0x01, 0xF4]))"
proof -
  let ?P = "\<lambda>h'. \<exists>cfg. bit cfg 0 \<and> \<not> bit cfg 6 \<and>
    outs PS2_CMD h' = outs PS2_CMD h @ [CMD_DISABLE_KBD, CMD_CONTROLLER_SELF_TEST, CMD_READ_CONFIG, CMD_WRITE_CONFIG, CMD_ENABLE_KBD] \<and>
    outs PS2_DATA h' = outs PS2_DATA h @ [cfg, KC_RESET, KC_SET_SCANCODE_SET, SCANCODE_SET_1, KC_ENABLE_SCANNING]"
  have ports: "PS2_CMD \<noteq> PS2_DATA" "PS2_DATA \<noteq> PS2_CMD" by (simp_all add: kconsts)
  have "fine ?P (kbd_init dev h)"
    unfolding kbd_init_def
    apply (intro fine_clear fine_byte fine_flush [OF assms] fine_read fine_option fine_return)
    subgoal for g1 g2 g3 g4 g5 r g6 cfg
      by (intro exI [of _ "(cfg OR CONFIG_KBD_INT) AND NOT CONFIG_TRANSLATE"] conjI config_bits) (simp_all add: ports)
    done
  then show ?thesis unfolding fine_def by (simp add: kconsts)
qed

definition idle_device :: device where
  "idle_device h p = 0"

theorem kbd_init_correct_witness:
  "\<exists>ok h'. kbd_init idle_device [] = Some (ok, h')"
proof -
  have "output_empties idle_device" by (simp add: output_empties_def kbd_status_def inb_def idle_device_def Let_def)
  from kbd_init_correct [OF this, of "[]"] show ?thesis by blast
qed

end
