(* ===== verification/User.thy ===== *)
theory User
  imports Sched Keyboard
begin

text \<open>
  \<^verbatim>\<open>kernel/src/user.rs\<close> and the paths through the interrupt gates: the state of the running kernel, the
  system calls, and what happens from the delivery of an IRQ or an \<^verbatim>\<open>int 0x80\<close> to the \<^verbatim>\<open>iretq\<close> that
  ends it. The console sink is a parameter (the boot harness registers COM1).
\<close>

section \<open>System calls\<close>

definition SYS_PUTC :: u64 where [kconsts]: "SYS_PUTC = 0"
definition SYS_GETC :: u64 where [kconsts]: "SYS_GETC = 1"
definition SYS_EXIT :: u64 where [kconsts]: "SYS_EXIT = 2"
definition SYS_GETPID :: u64 where [kconsts]: "SYS_GETPID = 3"
definition SYS_YIELD :: u64 where [kconsts]: "SYS_YIELD = 4"

text \<open>The handlers the boot harness registers, as names for the function pointers.\<close>

datatype irq_fn = Timer_handler | Kbd_handler

record kernel = sched +
  kbd_s :: kbd
  io_bus :: bus
  console :: bool
  irq_handlers :: "irq_fn irq_handlers"
  idt_s :: idt_state
  ticks :: usize

type_synonym console_sink = "u8 \<Rightarrow> bus \<Rightarrow> bus option"

definition set_console :: "'a kernel_scheme \<Rightarrow> 'a kernel_scheme" where
  "set_console s = s\<lparr>console := True\<rparr>"

definition user_emit :: "console_sink \<Rightarrow> 'a kernel_scheme \<Rightarrow> u8 \<Rightarrow> 'a kernel_scheme option" where
  "user_emit sink s c = (if console s then do { b \<leftarrow> sink c (io_bus s); Some (s\<lparr>io_bus := b\<rparr>) } else Some s)"

text \<open>\<^verbatim>\<open>frame.rax = v\<close> through the frame's address.\<close>

definition set_rax :: "'a kernel_scheme \<Rightarrow> u64 \<Rightarrow> u64 \<Rightarrow> 'a kernel_scheme" where
  "set_rax s frame v = s\<lparr>kmem := (kmem s)(frame + 120 := v)\<rparr>"

definition handle_syscall :: "console_sink \<Rightarrow> 'a kernel_scheme \<Rightarrow> u64 \<Rightarrow> (bool \<times> 'a kernel_scheme) option" where
  "handle_syscall sink s frame = do {
     let f = read_frame (kmem s) frame;
     if f_rax f = SYS_PUTC then do { s \<leftarrow> user_emit sink s (ucast (f_rdi f)); Some (False, s) }
     else if f_rax f = SYS_GETC then do {
       (c, s, k) \<leftarrow> poll_char s (kbd_s s);
       let s = s\<lparr>kbd_s := k\<rparr>;
       Some (False, set_rax s frame (case c of Some c \<Rightarrow> ucast (u8_of_char c) | None \<Rightarrow> - 1))
     }
     else if f_rax f = SYS_EXIT then do { s \<leftarrow> exit_current s; Some (True, s) }
     else if f_rax f = SYS_GETPID then Some (False, set_rax s frame (ucast (current_pid s)))
     else if f_rax f = SYS_YIELD then yield_now s frame
     else Some (False, set_rax s frame (- 1))
   }"

section \<open>Through the gates\<close>

text \<open>\<^verbatim>\<open>timer_handler\<close> of the boot harness: count the tick and let the scheduler preempt.\<close>

definition timer_handler :: "'a kernel_scheme \<Rightarrow> u64 \<Rightarrow> (bool \<times> 'a kernel_scheme) option" where
  "timer_handler s frame = on_tick (s\<lparr>ticks := ticks s + 1\<rparr>) frame"

definition run_handler :: "device \<Rightarrow> irq_fn \<Rightarrow> 'a kernel_scheme \<Rightarrow> u64 \<Rightarrow> (bool \<times> 'a kernel_scheme) option" where
  "run_handler dev h s frame =
    (case h of Timer_handler \<Rightarrow> timer_handler s frame
     | Kbd_handler \<Rightarrow> do {
         (s, b, k) \<leftarrow> kbd_irq_handler dev s (io_bus s) (kbd_s s);
         Some (False, s\<lparr>io_bus := b, kbd_s := k\<rparr>)
       })"

text \<open>Through the gate of a vector into its stub.\<close>

definition enter :: "nat \<Rightarrow> 'a kernel_scheme \<Rightarrow> 'a kernel_scheme" where
  "enter vec s = stub_entry (word_of_nat vec) (enter_gate (rsp0 (tss (tss_s s))) (entries (idt_s s) ! vec) s)"

definition irq_path :: "device \<Rightarrow> nat \<Rightarrow> 'a kernel_scheme \<Rightarrow> 'a kernel_scheme option" where
  "irq_path dev irq s = do {
     let s = enter (32 + irq) s;
     let frame = rdi s;
     (_, h, b) \<leftarrow> handle_irq (irq_handlers s) (io_bus s) (read_frame (kmem s) frame);
     let s = s\<lparr>io_bus := b\<rparr>;
     r \<leftarrow> (case h of None \<Rightarrow> Some (False, s) | Some h \<Rightarrow> run_handler dev h s frame);
     Some (leave frame r)
   }"

definition syscall_path :: "console_sink \<Rightarrow> 'a kernel_scheme \<Rightarrow> 'a kernel_scheme option" where
  "syscall_path sink s = do {
     let s = enter 0x80 s;
     let frame = rdi s;
     r \<leftarrow> handle_syscall sink s frame;
     Some (leave frame r)
   }"

end
