(* ===== verification/Kstacks.thy ===== *)
theory Kstacks
  imports Sched
begin

text \<open>
  The stacks the scheduler switches between, and its invariant. \<^verbatim>\<open>KSTACKS\<close> gives process \<open>i\<close> its own
  16 KiB; the idle process is the boot flow and keeps the boot stack. A ready process is parked: its
  saved frame lies on its own stack. The current one is in the registers, or in the frame of the handler
  that runs on its behalf.
\<close>

section \<open>Layout\<close>

text \<open>The kernel stacks of processes 1..15 and the boot stack, on which the idle process runs.\<close>

record stack_layout =
  kstacks :: usize
  boot_lo :: nat
  boot_hi :: nat

definition slot_lo :: "stack_layout \<Rightarrow> nat \<Rightarrow> nat" where
  "slot_lo lay i = unat (kstacks lay) + i * 16384"

definition layout_ok :: "stack_layout \<Rightarrow> bool" where
  "layout_ok lay \<longleftrightarrow> slot_lo lay 16 < 2 ^ 64 \<and> boot_hi lay < 2 ^ 64 \<and> (boot_hi lay \<le> slot_lo lay 0 \<or> slot_lo lay 16 \<le> boot_lo lay)"

definition own :: "stack_layout \<Rightarrow> nat \<Rightarrow> u64 set" where
  "own lay i = (if i = 0 then {x. boot_lo lay \<le> unat x \<and> unat x < boot_hi lay}
     else {x. slot_lo lay i \<le> unat x \<and> unat x < slot_lo lay (Suc i)})"

lemma own_disjoint:
  assumes "layout_ok lay" "i < 16" "j < 16" "i \<noteq> j"
  shows "own lay i \<inter> own lay j = {}"
proof -
  have mono: "slot_lo lay a \<le> slot_lo lay b" if "a \<le> b" for a b using that by (simp add: slot_lo_def)
  have *: "own lay a \<inter> own lay b = {}" if ab: "a < b" "b < 16" for a b
  proof (cases "a = 0")
    case True
    then show ?thesis using assms(1) ab mono [of 0 b] mono [of "Suc b" 16] unfolding own_def layout_ok_def by (auto simp: Suc_le_eq)
  next
    case False
    then show ?thesis using ab mono [of "Suc a" b] by (auto simp: own_def)
  qed
  show ?thesis using * [of i j] * [of j i] assms by (cases i j rule: linorder_cases) auto
qed

lemma frame_cells_range:
  assumes "unat a + 184 \<le> hi" "hi < 2 ^ 64" "lo \<le> unat a" "x \<in> frame_cells a"
  shows "lo \<le> unat x" "unat x < hi"
proof -
  obtain k where k: "k < 23" "x = a + 8 * word_of_nat k" using assms(4) by (auto simp: frame_cells_def)
  have w: "unat (8 * word_of_nat k :: u64) = 8 * k"
    using k(1) unat_mult_no_wrap [of "8 :: u64" "word_of_nat k"] by (simp add: unat_of_nat)
  then have "unat x = unat a + 8 * k" unfolding k(2) using assms(1,2) k(1) by (subst unat_add_no_wrap) auto
  then show "lo \<le> unat x" "unat x < hi" using assms k(1) by simp_all
qed

lemma and_not_15: "unat (x AND NOT 15) = unat x div 16 * 16" for x :: u64
  using and_not_low_bits [of 4 x] by simp

lemma frame_at_bounds:
  assumes "lo + 200 \<le> unat stack" "unat stack \<le> hi"
  shows "lo \<le> unat (frame_at stack)" "unat (frame_at stack) + 184 \<le> hi"
proof -
  have d: "unat stack div 16 * 16 + unat stack mod 16 = unat stack" "unat stack mod 16 < 16" by simp_all
  have "184 \<le> stack AND NOT 15" unfolding word_le_nat_alt and_not_15 using assms(1) d by simp
  then have "unat (frame_at stack) = unat (stack AND NOT 15) - unat (184 :: u64)" unfolding frame_at_def by (rule unat_sub)
  then have "unat (frame_at stack) = unat stack div 16 * 16 - 184" unfolding and_not_15 by simp
  then show "lo \<le> unat (frame_at stack)" "unat (frame_at stack) + 184 \<le> hi" using assms d by linarith+
qed

section \<open>Invariant\<close>

text \<open>The context in the registers, and the one a frame stands for.\<close>

definition context_of :: "'a mach_scheme \<Rightarrow> interrupt_frame" where
  "context_of m = saved_frame 0 0 m"

definition frame_context :: "interrupt_frame \<Rightarrow> interrupt_frame" where
  "frame_context f = f\<lparr>f_rsp := 168, f_vector := 0, f_error_code := 0\<rparr>"

lemma context_load [simp]: "context_of (load_regs f m) = frame_context f"
  by (simp add: context_of_def load_regs_def frame_context_def saved_frame_def)

lemma frame_context_saved [simp]: "frame_context (saved_frame v a m) = context_of m"
  by (simp add: context_of_def frame_context_def saved_frame_def)

definition live :: "process \<Rightarrow> bool" where
  "live p \<longleftrightarrow> pstate p = Ready \<or> pstate p = Running"

abbreviation cur :: "'a sched_scheme \<Rightarrow> nat" where
  "cur s \<equiv> unat (current s)"

text \<open>What code process \<open>i\<close> may be interrupted in: the idle process runs in ring 0 with room on the boot
  stack, every other process in ring 3.\<close>

definition frame_fits :: "stack_layout \<Rightarrow> nat \<Rightarrow> interrupt_frame \<Rightarrow> bool" where
  "frame_fits lay i f \<longleftrightarrow> (if i = 0 then f_cs f AND 3 \<noteq> 3 \<and> boot_lo lay + 200 \<le> unat (f_user_rsp f) \<and> unat (f_user_rsp f) \<le> boot_hi lay
     else f_cs f AND 3 = 3)"

definition parked :: "stack_layout \<Rightarrow> 'a sched_scheme \<Rightarrow> nat \<Rightarrow> bool" where
  "parked lay s i \<longleftrightarrow> frame_cells (ctx (procs s ! i)) \<subseteq> own lay i \<and> frame_fits lay i (read_frame (kmem s) (ctx (procs s ! i)))"

definition procs_ok :: "stack_layout \<Rightarrow> 'a sched_scheme \<Rightarrow> bool" where
  "procs_ok lay s \<longleftrightarrow> length (procs s) = 16 \<and> cur s < 16 \<and> live (procs s ! 0) \<and>
     (\<forall>i<16. i \<noteq> 0 \<longrightarrow> live (procs s ! i) \<longrightarrow> unat (kernel_stack_top (procs s ! i)) = slot_lo lay (Suc i)) \<and>
     (\<forall>i<16. i \<noteq> cur s \<longrightarrow> pstate (procs s ! i) \<noteq> Running \<and> (pstate (procs s ! i) = Ready \<longrightarrow> parked lay s i))"

definition on_cpu :: "stack_layout \<Rightarrow> 'a sched_scheme \<Rightarrow> bool" where
  "on_cpu lay s \<longleftrightarrow> frame_fits lay (cur s) (context_of s) \<and> (cur s \<noteq> 0 \<longrightarrow> rsp0 (tss (tss_s s)) = kernel_stack_top (procs s ! cur s))"

definition sched_inv :: "stack_layout \<Rightarrow> 'a sched_scheme \<Rightarrow> bool" where
  "sched_inv lay s \<longleftrightarrow> procs_ok lay s \<and> live (procs s ! cur s) \<and> on_cpu lay s"

lemma ring3_context: "ring3 s \<longleftrightarrow> f_cs (context_of s) AND 3 = 3"
  by (simp add: ring3_def context_of_def saved_frame_def)

definition gate_frame :: "'a sched_scheme \<Rightarrow> u64" where
  "gate_frame s = frame_at (if ring3 s then rsp0 (tss (tss_s s)) else rsp s)"

text \<open>An interrupt builds its frame on the stack of the process it interrupts.\<close>

lemma gate_frame_own:
  assumes lay: "layout_ok lay" and inv: "sched_inv lay s"
  shows "frame_cells (gate_frame s) \<subseteq> own lay (cur s)"
proof (cases "cur s = 0")
  case True
  have f: "frame_fits lay 0 (context_of s)" using inv True by (simp add: sched_inv_def on_cpu_def)
  then have r: "\<not> ring3 s" "boot_lo lay + 200 \<le> unat (rsp s)" "unat (rsp s) \<le> boot_hi lay"
    unfolding ring3_context by (simp_all add: frame_fits_def) (simp_all add: context_of_def saved_frame_def)
  have g: "gate_frame s = frame_at (rsp s)" using r(1) by (simp add: gate_frame_def)
  show ?thesis unfolding g True own_def
    using frame_cells_range [OF frame_at_bounds(2) [OF r(2,3)] _ frame_at_bounds(1) [OF r(2,3)]] lay by (auto simp: layout_ok_def)
next
  case False
  let ?t = "kernel_stack_top (procs s ! cur s)"
  have c: "cur s < 16" and top: "unat ?t = slot_lo lay (Suc (cur s))"
    using inv False by (auto simp: sched_inv_def procs_ok_def)
  have "ring3 s" "rsp0 (tss (tss_s s)) = ?t" using inv False by (simp_all add: sched_inv_def on_cpu_def frame_fits_def ring3_context)
  then have g: "gate_frame s = frame_at ?t" by (simp add: gate_frame_def)
  have b: "slot_lo lay (cur s) + 200 \<le> unat ?t" "unat ?t \<le> slot_lo lay (Suc (cur s))" unfolding top by (simp_all add: slot_lo_def)
  have "slot_lo lay (Suc (cur s)) \<le> slot_lo lay 16" using c by (simp add: slot_lo_def)
  then have "slot_lo lay (Suc (cur s)) < 2 ^ 64" using lay by (simp add: layout_ok_def)
  then show ?thesis unfolding g own_def
    using frame_cells_range [OF frame_at_bounds(2) [OF b] _ frame_at_bounds(1) [OF b]] False by auto
qed

section \<open>Inside the kernel\<close>

text \<open>A handler runs on behalf of the current process, whose context is in the frame at \<open>a\<close>.\<close>

definition in_kernel :: "stack_layout \<Rightarrow> 'a sched_scheme \<Rightarrow> u64 \<Rightarrow> bool" where
  "in_kernel lay s a \<longleftrightarrow> procs_ok lay s \<and> live (procs s ! cur s) \<and> frame_cells a \<subseteq> own lay (cur s) \<and>
     frame_fits lay (cur s) (read_frame (kmem s) a) \<and> (cur s \<noteq> 0 \<longrightarrow> rsp0 (tss (tss_s s)) = kernel_stack_top (procs s ! cur s))"

text \<open>The context of a process: in the registers, in the frame of the handler, or in its parked frame.\<close>

definition parked_context :: "'a sched_scheme \<Rightarrow> nat \<Rightarrow> interrupt_frame" where
  "parked_context s i = frame_context (read_frame (kmem s) (ctx (procs s ! i)))"

definition proc_context :: "'a sched_scheme \<Rightarrow> nat \<Rightarrow> interrupt_frame" where
  "proc_context s i = (if i = cur s then context_of s else parked_context s i)"

definition kernel_context :: "'a sched_scheme \<Rightarrow> u64 \<Rightarrow> nat \<Rightarrow> interrupt_frame" where
  "kernel_context s a i = (if i = cur s then frame_context (read_frame (kmem s) a) else parked_context s i)"

text \<open>Between saving one context and loading the next, every live process is parked.\<close>

definition all_parked :: "stack_layout \<Rightarrow> 'a sched_scheme \<Rightarrow> bool" where
  "all_parked lay s \<longleftrightarrow> procs_ok lay s \<and> pstate (procs s ! cur s) \<noteq> Running \<and> (pstate (procs s ! cur s) = Ready \<longrightarrow> parked lay s (cur s))"

lemma frame_fits_context [simp]: "frame_fits lay i (frame_context f) = frame_fits lay i f"
  by (simp add: frame_fits_def frame_context_def)

lemma load_regs_fields [simp]:
  "procs (load_regs f s) = procs s" "current (load_regs f s) = current s" "tss_s (load_regs f s) = tss_s s" "kmem (load_regs f s) = kmem s"
  by (simp_all add: load_regs_def)

lemma procs_ok_cong:
  assumes "procs_ok lay s" "procs t = procs s" "current t = current s"
    "\<And>i x. i < 16 \<Longrightarrow> i \<noteq> cur s \<Longrightarrow> x \<in> own lay i \<Longrightarrow> kmem t x = kmem s x"
  shows "procs_ok lay t" "i < 16 \<Longrightarrow> i \<noteq> cur s \<Longrightarrow> live (procs s ! i) \<Longrightarrow> parked_context t i = parked_context s i"
proof -
  have r: "read_frame (kmem t) (ctx (procs s ! i)) = read_frame (kmem s) (ctx (procs s ! i))" if "i < 16" "i \<noteq> cur s" "parked lay s i" for i
    using that assms(4) by (intro read_frame_cong) (auto simp: parked_def)
  show "procs_ok lay t" using assms(1-3) r by (simp add: procs_ok_def parked_def)
  show "parked_context t i = parked_context s i" if "i < 16" "i \<noteq> cur s" "live (procs s ! i)" for i
    using that assms(1-3) r by (auto simp: procs_ok_def parked_context_def live_def)
qed

lemma exit_kernel:
  assumes "in_kernel lay s a"
  shows "sched_inv lay (stub_exit a s)" "proc_context (stub_exit a s) i = kernel_context s a i"
proof -
  have "procs_ok lay (stub_exit a s)"
    by (rule procs_ok_cong(1) [of lay s]) (use assms in \<open>simp_all add: in_kernel_def stub_exit_loads\<close>)
  then show "sched_inv lay (stub_exit a s)" using assms by (simp add: sched_inv_def in_kernel_def on_cpu_def stub_exit_loads)
  show "proc_context (stub_exit a s) i = kernel_context s a i"
    by (simp add: proc_context_def kernel_context_def stub_exit_loads parked_context_def)
qed

lemma enter_kernel:
  assumes lay: "layout_ok lay" and inv: "sched_inv lay s"
    and e: "procs e = procs s" "current e = current s" "tss_s e = tss_s s"
      "read_frame (kmem e) (gate_frame s) = saved_frame vec (gate_frame s) s" "\<And>x. x \<notin> frame_cells (gate_frame s) \<Longrightarrow> kmem e x = kmem s x"
  shows "in_kernel lay e (gate_frame s)" "i < 16 \<Longrightarrow> live (procs s ! i) \<Longrightarrow> kernel_context e (gate_frame s) i = proc_context s i"
proof -
  have c: "cur s < 16" and t: "procs_ok lay s" using inv by (simp_all add: sched_inv_def procs_ok_def)
  have own: "frame_cells (gate_frame s) \<subseteq> own lay (cur s)" by (rule gate_frame_own [OF lay inv])
  have other: "kmem e x = kmem s x" if "i < 16" "i \<noteq> cur s" "x \<in> own lay i" for i x
    using own_disjoint [OF lay that(1) c that(2)] that(3) own e(5) by blast
  have f: "frame_fits lay (cur s) (saved_frame vec (gate_frame s) s)"
    using inv by (metis frame_fits_context frame_context_saved sched_inv_def on_cpu_def)
  show "in_kernel lay e (gate_frame s)"
    using procs_ok_cong(1) [OF t e(1,2) other] own inv f by (simp add: in_kernel_def e sched_inv_def on_cpu_def)
  show "kernel_context e (gate_frame s) i = proc_context s i" if "i < 16" "live (procs s ! i)" for i
    using procs_ok_cong(2) [OF t e(1,2) _ that(1) _ that(2)] other by (simp add: kernel_context_def proc_context_def e)
qed

section \<open>Scheduling decisions\<close>

text \<open>The specification of \<^verbatim>\<open>pick_next_other\<close>: the first ready process after the current one, cyclically.\<close>

definition next_ready :: "'a sched_scheme \<Rightarrow> nat option" where
  "next_ready s = find (\<lambda>i. pstate (procs s ! i) = Ready) (map (\<lambda>k. (cur s + k) mod 16) [1..<16])"

definition next_cur :: "'a sched_scheme \<Rightarrow> nat" where
  "next_cur s = (case next_ready s of None \<Rightarrow> cur s | Some i \<Rightarrow> i)"

lemma next_cur_cong: "procs t = procs s \<Longrightarrow> current t = current s \<Longrightarrow> next_cur t = next_cur s"
  by (simp add: next_cur_def next_ready_def split: option.split)

lemma pick_loop_find:
  assumes "cur s < 16" "\<forall>k\<in>set ks. k < 16"
  shows "pick_loop s ks = Some (map_option word_of_nat (find (\<lambda>i. pstate (procs s ! i) = Ready) (map (\<lambda>k. (cur s + k) mod 16) ks)))"
  using assms(2)
proof (induction ks)
  case (Cons k ks)
  have k: "unat (word_of_nat k :: usize) = k" using Cons(2) by (simp add: unat_of_nat)
  then have s: "unat (current s) + unat (word_of_nat k :: usize) < 2 ^ LENGTH(64)" using assms(1) Cons(2) by simp
  then have u: "uadd (current s) (word_of_nat k) = Some (current s + word_of_nat k)" by (rule uadd_SomeI)
  have m: "unat ((current s + word_of_nat k) mod MAX_PROCESSES) = (cur s + k) mod 16"
    using unat_add_no_wrap [OF s] k by (simp add: unat_mod kconsts)
  then have "(current s + word_of_nat k) mod MAX_PROCESSES = word_of_nat ((cur s + k) mod 16)" by (simp flip: m)
  then show ?case using Cons u m by (simp add: proc_at_def)
qed simp

lemma pick_next_other_spec: "cur s < 16 \<Longrightarrow> pick_next_other s = Some (map_option word_of_nat (next_ready s))"
  unfolding pick_next_other_def next_ready_def by (subst pick_loop_find) (simp_all add: kconsts)

lemma next_ready_Some:
  assumes "next_ready s = Some i"
  obtains k where "0 < k" "k < 16" "i = (cur s + k) mod 16" "pstate (procs s ! i) = Ready"
    "\<And>j. 0 < j \<Longrightarrow> j < k \<Longrightarrow> pstate (procs s ! ((cur s + j) mod 16)) \<noteq> Ready"
proof -
  obtain n where n: "n < 15" "i = (cur s + Suc n) mod 16" "pstate (procs s ! i) = Ready" "\<forall>j<n. pstate (procs s ! ((cur s + Suc j) mod 16)) \<noteq> Ready"
    using assms by (auto simp: next_ready_def find_Some_iff)
  show thesis
  proof (rule that [of "Suc n"])
    fix j assume "0 < j" "j < Suc n"
    then show "pstate (procs s ! ((cur s + j) mod 16)) \<noteq> Ready" using n(4) by (cases j) auto
  qed (use n in auto)
qed

lemma next_ready_None: "next_ready s = None \<longleftrightarrow> (\<forall>k\<in>{1..<16}. pstate (procs s ! ((cur s + k) mod 16)) \<noteq> Ready)"
  by (auto simp: next_ready_def find_None_iff)


end
