(* ===== verification/Switching.thy ===== *)
theory Switching
  imports Kstacks
begin

text \<open>
  What the operations of \<^verbatim>\<open>sched.rs\<close> do to the invariant of \<open>Kstacks\<close> and to the contexts of the
  processes: each returns, and moves contexts between registers and frames without changing them.
\<close>

section \<open>Switching\<close>

text \<open>What one operation does to the table, seen from outside: who is live, and whose context changed.\<close>

definition lives :: "'a sched_scheme \<Rightarrow> nat set" where
  "lives s = {i. i < 16 \<and> live (procs s ! i)}"

lemma update_proc_simps [simp]:
  "procs (update_proc s i f) = (procs s)[unat i := f (proc_at s i)]" "current (update_proc s i f) = current s"
  "kmem (update_proc s i f) = kmem s" "tss_s (update_proc s i f) = tss_s s"
  by (simp_all add: update_proc_def)

lemma parked_cong: "kmem t = kmem s \<Longrightarrow> ctx (procs t ! i) = ctx (procs s ! i) \<Longrightarrow> parked lay t i = parked lay s i \<and> parked_context t i = parked_context s i"
  by (simp add: parked_def parked_context_def)

lemma do_switch_fields:
  assumes "length (procs s) = 16" "unat idx < 16"
  defines "s' \<equiv> do_switch s idx"
  shows "procs s' = (procs s)[unat idx := (procs s ! unat idx)\<lparr>pstate := Running\<rparr>]" "current s' = idx" "kmem s' = kmem s"
    "rsp0 (tss (tss_s s')) = kernel_stack_top (procs s ! unat idx)" "context_of s' = parked_context s (unat idx)"
  using assms by (simp_all add: do_switch_def Let_def sched_switch_loads proc_at_def set_rsp0_def parked_context_def)

lemma do_switch_inv:
  assumes ok: "all_parked lay s" and idx: "unat idx < 16" "pstate (procs s ! unat idx) = Ready"
  shows "sched_inv lay (do_switch s idx)" "proc_context (do_switch s idx) i = parked_context s i" "lives (do_switch s idx) = lives s"
    "cur (do_switch s idx) = unat idx"
proof -
  let ?t = "do_switch s idx"
  have len: "length (procs s) = 16" and c: "cur s < 16" using ok by (simp_all add: all_parked_def procs_ok_def)
  note f = do_switch_fields [OF len idx(1)]
  have p: "parked lay s j" if "j < 16" "pstate (procs s ! j) = Ready" for j
    using ok that by (cases "j = cur s") (simp_all add: all_parked_def procs_ok_def)
  have nr: "pstate (procs s ! j) \<noteq> Running" if "j < 16" for j
    using ok that by (cases "j = cur s") (simp_all add: all_parked_def procs_ok_def)
  have lv: "live (procs ?t ! j) = live (procs s ! j)" if "j < 16" for j
    using that idx len by (auto simp: f live_def nth_list_update)
  have k: "kernel_stack_top (procs ?t ! j) = kernel_stack_top (procs s ! j)" "ctx (procs ?t ! j) = ctx (procs s ! j)" for j
    using idx(1) len by (simp_all add: f nth_list_update)
  have o: "procs ?t ! j = procs s ! j" if "j \<noteq> unat idx" for j using that by (simp add: f)
  have pk: "parked lay ?t j = parked lay s j" "parked_context ?t j = parked_context s j" for j
    using parked_cong [of ?t s j lay] k(2) f(3) by simp_all
  have "live (procs s ! 0)" "\<forall>j<16. j \<noteq> 0 \<longrightarrow> live (procs s ! j) \<longrightarrow> unat (kernel_stack_top (procs s ! j)) = slot_lo lay (Suc j)"
    using ok by (simp_all add: all_parked_def procs_ok_def)
  then have "procs_ok lay ?t" unfolding procs_ok_def f(2) using len idx(1) lv k o p pk nr by (simp add: f(1))
  moreover have "live (procs ?t ! unat idx)" using idx len by (simp add: f live_def)
  moreover have "frame_fits lay (unat idx) (parked_context s (unat idx))" using p [OF idx] by (simp add: parked_def parked_context_def)
  ultimately show "sched_inv lay ?t" unfolding sched_inv_def on_cpu_def f(2) using k(1) by (simp add: f(4,5))
  show "proc_context ?t i = parked_context s i" by (simp add: proc_context_def f(2,5) pk)
  show "lives ?t = lives s" using lv by (auto simp: lives_def)
  show "cur ?t = unat idx" by (simp add: f)
qed

text \<open>A change of the current process's own entry.\<close>

lemma own_entry:
  assumes ok: "procs_ok lay s" "live (procs s ! cur s)"
    and t: "procs t = (procs s)[cur s := q]" "current t = current s" "kmem t = kmem s"
    and q: "kernel_stack_top q = kernel_stack_top (procs s ! cur s)"
  shows "procs t ! cur s = q" "live q \<Longrightarrow> lives t = lives s" "j \<noteq> cur s \<Longrightarrow> parked_context t j = parked_context s j"
    "live q \<or> cur s \<noteq> 0 \<Longrightarrow> procs_ok lay t"
proof -
  have len: "length (procs s) = 16" and c: "cur s < 16" using ok(1) by (simp_all add: procs_ok_def)
  show e: "procs t ! cur s = q" using c len by (simp add: t)
  have o: "procs t ! j = procs s ! j" if "j \<noteq> cur s" for j using that by (simp add: t)
  have pk: "parked lay t j = parked lay s j \<and> parked_context t j = parked_context s j" if "j \<noteq> cur s" for j
    using parked_cong [of t s j lay] o [OF that] t(3) by simp
  then show "j \<noteq> cur s \<Longrightarrow> parked_context t j = parked_context s j" by simp
  show "lives t = lives s" if "live q"
  proof -
    have "live (procs t ! j) = live (procs s ! j)" for j by (cases "j = cur s") (use that ok in \<open>simp_all add: e o\<close>)
    then show ?thesis by (simp add: lives_def)
  qed
  have k: "kernel_stack_top (procs t ! j) = kernel_stack_top (procs s ! j)" for j by (cases "j = cur s") (simp_all add: e o q)
  have lv: "live (procs t ! j) \<Longrightarrow> live (procs s ! j)" for j by (cases "j = cur s") (use ok in \<open>simp_all add: o\<close>)
  show "procs_ok lay t" if "live q \<or> cur s \<noteq> 0"
  proof -
    have "live (procs t ! 0)" using that ok e o [of 0] by (cases "cur s = 0") (auto simp: procs_ok_def)
    then show ?thesis using ok(1) lv unfolding procs_ok_def t(2) k by (simp add: t(1) o pk)
  qed
qed

text \<open>Saving the context of the current process and picking another, as \<^verbatim>\<open>on_tick\<close> and \<^verbatim>\<open>yield_now\<close> do.\<close>

definition park :: "'a sched_scheme \<Rightarrow> u64 \<Rightarrow> 'a sched_scheme" where
  "park s a = update_proc (update_proc s (current s) (\<lambda>p. p\<lparr>pstate := Ready\<rparr>)) (current s) (\<lambda>p. p\<lparr>ctx := a\<rparr>)"

lemma in_kernelD:
  assumes "in_kernel lay s a"
  shows "procs_ok lay s" "live (procs s ! cur s)" "length (procs s) = 16" "cur s < 16" "frame_cells a \<subseteq> own lay (cur s)"
    "frame_fits lay (cur s) (read_frame (kmem s) a)" "cur s \<noteq> 0 \<Longrightarrow> rsp0 (tss (tss_s s)) = kernel_stack_top (procs s ! cur s)"
  using assms by (simp_all add: in_kernel_def procs_ok_def)

lemma park_fields:
  assumes "in_kernel lay s a"
  shows "procs (park s a) = (procs s)[cur s := (procs s ! cur s)\<lparr>pstate := Ready, ctx := a\<rparr>]" "current (park s a) = current s"
    "kmem (park s a) = kmem s" "tss_s (park s a) = tss_s s"
  using in_kernelD [OF assms] by (simp_all add: park_def proc_at_def)

lemma park_parks:
  assumes "in_kernel lay s a"
  shows "all_parked lay (park s a)" "parked_context (park s a) i = kernel_context s a i" "lives (park s a) = lives s"
proof -
  note f = park_fields [OF assms] and d = in_kernelD [OF assms]
  note o = own_entry [OF d(1,2) f(1-3), simplified, unfolded live_def, simplified]
  show "all_parked lay (park s a)" using d(5,6) o(1,4) by (simp add: all_parked_def parked_def f(2,3))
  show "parked_context (park s a) i = kernel_context s a i"
    by (cases "i = cur s") (simp_all add: kernel_context_def o(3), simp add: parked_context_def f(3) o(1))
  show "lives (park s a) = lives s" by (rule o(2))
qed

text \<open>With nothing else ready the current process stays: the parked state with it Running again.\<close>

lemma park_stay:
  assumes "in_kernel lay s a"
  defines "t \<equiv> update_proc (park s a) (current s) (\<lambda>p. p\<lparr>pstate := Running\<rparr>)"
  shows "in_kernel lay t a" "kernel_context t a i = kernel_context s a i" "lives t = lives s" "current t = current s"
proof -
  note f = park_fields [OF assms(1)] and d = in_kernelD [OF assms(1)]
  have p: "procs t = (procs s)[cur s := (procs s ! cur s)\<lparr>ctx := a, pstate := Running\<rparr>]" "current t = current s" "kmem t = kmem s" "tss_s t = tss_s s"
    using d by (simp_all add: t_def f proc_at_def)
  note o = own_entry [OF d(1,2) p(1-3), simplified, unfolded live_def, simplified]
  show "in_kernel lay t a" using d o(1,4) by (simp add: in_kernel_def p(2-4) live_def)
  show "kernel_context t a i = kernel_context s a i" by (simp add: kernel_context_def p(2,3) o(3))
  show "lives t = lives s" by (rule o(2))
  show "current t = current s" by (rule p)
qed

section \<open>Operations of the scheduler\<close>

lemma yield_is_tick: "yield_now = on_tick"
  by (intro ext) (simp add: yield_now_def on_tick_def)

lemma next_ready_other:
  assumes "cur s < 16" "current t = current s" "\<And>i. i \<noteq> cur s \<Longrightarrow> procs t ! i = procs s ! i"
  shows "next_ready t = next_ready s"
proof -
  have "procs t ! ((cur s + k) mod 16) = procs s ! ((cur s + k) mod 16)" if "k \<in> {1..<16}" for k
  proof (rule assms(3))
    show "(cur s + k) mod 16 \<noteq> cur s" using that assms(1) by (cases "cur s + k < 16") (auto simp: mod_if)
  qed
  then show ?thesis unfolding next_ready_def assms(2) by (intro find_cong) auto
qed

lemma next_ready_park: "in_kernel lay s a \<Longrightarrow> next_ready (park s a) = next_ready s"
  by (rule next_ready_other) (simp_all add: in_kernelD(4) park_fields)

lemma next_ready_less: "next_ready s = Some i \<Longrightarrow> i < 16 \<and> pstate (procs s ! i) = Ready"
  by (erule next_ready_Some) simp

lemma unat_slot [simp]: "i < 16 \<Longrightarrow> unat (word_of_nat i :: usize) = i"
  by (simp add: unat_of_nat)

lemma on_tick_returns:
  assumes k: "in_kernel lay s a"
  obtains r where "on_tick s a = Some r" "sched_inv lay (leave a r)" "\<And>i. proc_context (leave a r) i = kernel_context s a i"
    "lives (leave a r) = lives s" "cur (leave a r) = next_cur s"
proof -
  have c: "cur (park s a) < 16" using in_kernelD(4) [OF k] by (simp add: park_fields [OF k])
  have t: "on_tick s a = (case next_ready s of None \<Rightarrow> Some (False, update_proc (park s a) (current s) (\<lambda>p. p\<lparr>pstate := Running\<rparr>))
      | Some i \<Rightarrow> Some (True, do_switch (park s a) (word_of_nat i)))"
    using pick_next_other_spec [OF c] unfolding on_tick_def Let_def park_def [symmetric] next_ready_park [OF k]
    by (simp split: option.splits)
  show thesis
  proof (cases "next_ready s")
    case None
    note p = park_stay [OF k]
    show thesis by (rule that [OF t [unfolded None option.case]])
        (use exit_kernel [OF p(1)] p(2-4) None in \<open>simp_all add: leave_def stub_exit_loads lives_def next_cur_def\<close>)
  next
    case (Some i)
    have i: "i < 16" "pstate (procs (park s a) ! i) = Ready"
      using next_ready_less [of "park s a"] Some next_ready_park [OF k] by simp_all
    note d = do_switch_inv [OF park_parks(1) [OF k], of "word_of_nat i", unfolded unat_slot [OF i(1)], OF i]
    show thesis by (rule that [OF t [unfolded Some option.case]]) (use d park_parks(2,3) [OF k] Some in \<open>simp_all add: leave_def next_cur_def\<close>)
  qed
qed

lemma exit_current_returns:
  assumes k: "in_kernel lay s a" and c: "cur s \<noteq> 0"
  obtains t where "exit_current s = Some t" "sched_inv lay t" "\<And>i. i \<noteq> cur s \<Longrightarrow> proc_context t i = kernel_context s a i"
    "lives t = lives s - {cur s}" "cur t = next_cur s"
proof -
  note d = in_kernelD [OF k]
  define z where "z = update_proc s (current s) (\<lambda>p. p\<lparr>pstate := Zombie\<rparr>)"
  have z: "procs z = (procs s)[cur s := (procs s ! cur s)\<lparr>pstate := Zombie\<rparr>]" "current z = current s" "kmem z = kmem s"
    by (simp_all add: z_def proc_at_def)
  note o = own_entry [OF d(1,2) z, simplified]
  have ap: "all_parked lay z" using o(1) o(4) c by (simp add: all_parked_def z(2))
  have other: "procs z ! j = procs s ! j" if "j \<noteq> cur s" for j using that by (simp add: z)
  have "\<not> live (procs z ! cur s)" using o(1) by (simp add: live_def)
  then have "j \<in> lives z \<longleftrightarrow> j \<in> lives s - {cur s}" for j by (cases "j = cur s") (simp_all add: lives_def other)
  then have lz: "lives z = lives s - {cur s}" by blast
  have nz: "next_ready z = next_ready s" by (rule next_ready_other [OF d(4) z(2) other])
  have "pstate (procs s ! 0) = Ready" using d(1) c by (auto simp: procs_ok_def live_def)
  moreover have "0 = (cur s + (16 - cur s)) mod 16" "16 - cur s \<in> {1..<16}" using d(4) c by simp_all
  ultimately have "next_ready s \<noteq> None" unfolding next_ready_None by metis
  then obtain i where i: "next_ready s = Some i" by blast
  have r: "i < 16" "pstate (procs z ! i) = Ready" using next_ready_less [of z] i nz by simp_all
  note w = do_switch_inv [OF ap, of "word_of_nat i", unfolded unat_slot [OF r(1)], OF r]
  have "pick_next_other z = Some (Some (word_of_nat i))" using pick_next_other_spec [of z] d(4) i nz z(2) by simp
  then have x: "exit_current s = Some (do_switch z (word_of_nat i))" by (simp add: exit_current_def Let_def flip: z_def)
  show thesis by (rule that [OF x w(1)]) (simp_all add: w lz o(3) i kernel_context_def next_cur_def)
qed

lemma read_rax: "read_frame (k(a + 120 := v)) a = (read_frame k a)\<lparr>f_rax := v\<rparr>"
  by (simp add: read_frame_def)

lemma own_write:
  assumes lay: "layout_ok lay" and k: "in_kernel lay s a"
    and t: "procs t = procs s" "current t = current s" "tss_s t = tss_s s" "\<And>x. x \<notin> frame_cells a \<Longrightarrow> kmem t x = kmem s x"
      "frame_fits lay (cur s) (read_frame (kmem t) a)"
  shows "in_kernel lay t a" "i \<in> lives s \<Longrightarrow> i \<noteq> cur s \<Longrightarrow> kernel_context t a i = kernel_context s a i"
proof -
  note d = in_kernelD [OF k]
  have o: "kmem t x = kmem s x" if "i < 16" "i \<noteq> cur s" "x \<in> own lay i" for i x
    using own_disjoint [OF lay that(1) d(4) that(2)] that(3) d(5) t(4) by blast
  show "in_kernel lay t a" using procs_ok_cong(1) [OF d(1) t(1,2) o] d t by (simp add: in_kernel_def)
  show "kernel_context t a i = kernel_context s a i" if "i \<in> lives s" "i \<noteq> cur s" for i
    using procs_ok_cong(2) [OF d(1) t(1,2), of i] o that by (simp add: kernel_context_def t lives_def)
qed

text \<open>A new process, from a free slot.\<close>

lemma free_slot_Some:
  assumes "free_slot s = Some p" "length (procs s) = 16"
  shows "0 < unat p" "unat p < 16" "unat p \<notin> lives s" "unat (ucast p :: usize) = unat p"
proof -
  obtain i where i: "i < 15" "p = word_of_nat (Suc i)" "pstate (proc_at s (ucast p)) \<in> {Unused, Zombie}"
    using assms(1) by (auto simp: free_slot_def find_Some_iff kconsts nth_upt)
  have u: "unat p = Suc i" using i(1) unfolding i(2) by (simp add: unat_of_nat del: of_nat_Suc)
  show "0 < unat p" "unat p < 16" using u i(1) by simp_all
  show c: "unat (ucast p :: usize) = unat p" by (simp add: unat_ucast_up)
  show "unat p \<notin> lives s" using i(3) by (auto simp: lives_def live_def proc_at_def c)
qed

definition initial_frame :: "u32 \<Rightarrow> usize \<Rightarrow> interrupt_frame" where
  "initial_frame p entry = \<lparr>f_rsp = 168, f_r15 = 0, f_r14 = 0, f_r13 = 0, f_r12 = 0, f_r11 = 0, f_r10 = 0, f_r9 = 0, f_r8 = 0, f_rbp = 0,
     f_rdi = ucast p, f_rsi = 0, f_rdx = 0, f_rcx = 0, f_rbx = 0, f_rax = 0, f_vector = 0, f_error_code = 0,
     f_rip = entry, f_cs = ucast USER_CODE64, f_rflags = 0x202, f_user_rsp = PROC_BASE + ucast p * PROC_STRIDE + PROC_STACK_OFFSET + 4096,
     f_user_ss = ucast USER_DATA\<rparr>"

lemma user_stack_top_Some:
  assumes p: "unat p < 16"
  shows "user_stack_top p = Some (PROC_BASE + ucast p * PROC_STRIDE + PROC_STACK_OFFSET + 4096)"
proof -
  have c: "unat (ucast p :: usize) = unat p" by (simp add: unat_ucast_up)
  have k: "unat PROC_STRIDE = 2097152" "unat PROC_BASE = 2147483648" "unat PROC_STACK_OFFSET = 1048576" by (simp_all add: kconsts)
  have m: "unat (ucast p * PROC_STRIDE) = unat p * 2097152" using p by (subst unat_mult_no_wrap) (simp_all add: c k)
  have a: "unat (PROC_BASE + ucast p * PROC_STRIDE) = 2147483648 + unat p * 2097152" using p by (subst unat_add_no_wrap) (simp_all add: m k)
  have b: "unat (PROC_BASE + ucast p * PROC_STRIDE + PROC_STACK_OFFSET) = 2148532224 + unat p * 2097152" using p by (subst unat_add_no_wrap) (simp_all add: a k)
  show ?thesis unfolding user_stack_top_def using p by (simp add: umul_SomeI uadd_SomeI c k m a b)
qed

lemma start_process_effect:
  assumes lay: "layout_ok lay" and len: "length (procs s) = 16" and p: "0 < unat p" "unat p < 16"
  obtains t a q where "start_process (kstacks lay) s p entry name = Some t" "procs t = (procs s)[unat p := q]" "current t = current s"
    "tss_s t = tss_s s" "context_of t = context_of s" "pstate q = Ready" "unat (kernel_stack_top q) = slot_lo lay (Suc (unat p))" "ctx q = a"
    "frame_cells a \<subseteq> own lay (unat p)" "frame_context (read_frame (kmem t) a) = initial_frame p entry" "\<And>x. x \<notin> frame_cells a \<Longrightarrow> kmem t x = kmem s x"
proof -
  let ?c = "ucast p :: usize"
  have c: "unat ?c = unat p" by (simp add: unat_ucast_up)
  have hi: "unat (kstacks lay) + 16 * 16384 < 2 ^ 64" using lay by (simp add: layout_ok_def slot_lo_def)
  have k: "unat KSTACK_SIZE = 16384" by (simp add: kconsts)
  have mu: "unat (?c * KSTACK_SIZE) = unat p * 16384" using p by (subst unat_mult_no_wrap) (simp_all add: c k)
  have bu: "unat (kstacks lay + ?c * KSTACK_SIZE) = slot_lo lay (unat p)" using p hi by (subst unat_add_no_wrap) (simp_all add: mu slot_lo_def)
  define st where "st = kstacks lay + ?c * KSTACK_SIZE + KSTACK_SIZE"
  have tu: "unat st = slot_lo lay (Suc (unat p))" unfolding st_def using p hi by (subst unat_add_no_wrap) (simp_all add: bu k slot_lo_def)
  have m: "umul ?c KSTACK_SIZE = Some (?c * KSTACK_SIZE)" using p by (intro umul_SomeI) (simp add: c k)
  have b: "uadd (kstacks lay) (?c * KSTACK_SIZE) = Some (kstacks lay + ?c * KSTACK_SIZE)" using p hi by (intro uadd_SomeI) (simp add: mu)
  have t: "uadd (kstacks lay + ?c * KSTACK_SIZE) KSTACK_SIZE = Some st" unfolding st_def using p hi by (intro uadd_SomeI) (simp add: bu k slot_lo_def)
  have f: "usub st 184 = Some (st - 184)" "unat (st - 184) = unat st - 184" using tu by (simp_all add: usub_SomeI unat_sub word_le_nat_alt slot_lo_def)
  have u: "user_stack_top p = Some (PROC_BASE + ?c * PROC_STRIDE + PROC_STACK_OFFSET + 4096)" by (rule user_stack_top_Some [OF p(2)])
  define a where "a = (st - 184) AND NOT 15"
  have "unat a = unat (st - 184) div 16 * 16" unfolding a_def by (rule and_not_15)
  moreover have "unat (st - 184) div 16 * 16 + unat (st - 184) mod 16 = unat (st - 184)" "unat (st - 184) mod 16 < 16" by simp_all
  ultimately have r: "slot_lo lay (unat p) \<le> unat a" "unat a + 184 \<le> slot_lo lay (Suc (unat p))" using f(2) tu by (simp_all add: slot_lo_def)
  have "slot_lo lay (Suc (unat p)) < 2 ^ 64" using hi p by (simp add: slot_lo_def)
  note fr = frame_cells_range [OF r(2) this r(1)]
  have o: "frame_cells a \<subseteq> own lay (unat p)" unfolding own_def using fr p(1) by auto
  define nb where "nb = take 15 name @ replicate (16 - length (take 15 name)) 0"
  show thesis
  proof (rule that [where a = a])
    show "start_process (kstacks lay) s p entry name = Some (s\<lparr>kmem := write_frame (kmem s) a (initial_frame p entry\<lparr>f_rsp := 0\<rparr>),
        procs := (procs s)[unat p := \<lparr>pid = p, pstate = Ready, kernel_stack_top = st, ctx = a, pname = nb\<rparr>]\<rparr>)"
      using p len by (simp add: start_process_def Let_def m b t f(1) u store_at_def c a_def nb_def initial_frame_def)
  qed (use o tu write_frame_other in \<open>simp_all add: read_write_frame\<close>, simp_all add: context_of_def saved_frame_def frame_context_def initial_frame_def)
qed

text \<open>Only the idle process, in shell context, starts and kills processes.\<close>

lemma start_process_inv:
  assumes lay: "layout_ok lay" and inv: "sched_inv lay s" and idle: "cur s = 0" and p: "free_slot s = Some p"
  obtains t where "start_process (kstacks lay) s p entry name = Some t" "sched_inv lay t" "lives t = insert (unat p) (lives s)" "current t = current s"
    "\<And>i. i \<in> lives s \<Longrightarrow> proc_context t i = proc_context s i" "proc_context t (unat p) = initial_frame p entry"
proof -
  have tab: "procs_ok lay s" and len: "length (procs s) = 16" using inv by (simp_all add: sched_inv_def procs_ok_def)
  note fs = free_slot_Some [OF p len]
  obtain t a q where t: "start_process (kstacks lay) s p entry name = Some t" "procs t = (procs s)[unat p := q]" "current t = current s"
    "tss_s t = tss_s s" "context_of t = context_of s" "pstate q = Ready" "unat (kernel_stack_top q) = slot_lo lay (Suc (unat p))" "ctx q = a"
    "frame_cells a \<subseteq> own lay (unat p)" "frame_context (read_frame (kmem t) a) = initial_frame p entry" "\<And>x. x \<notin> frame_cells a \<Longrightarrow> kmem t x = kmem s x"
    by (rule start_process_effect [OF lay len fs(1,2)]) blast
  have e: "procs t ! unat p = q" using fs(2) len by (simp add: t(2))
  have o: "procs t ! i = procs s ! i" if "i \<noteq> unat p" for i using that by (simp add: t(2))
  have r: "read_frame (kmem t) (ctx (procs s ! i)) = read_frame (kmem s) (ctx (procs s ! i))" if i: "i < 16" "i \<noteq> unat p" "parked lay s i" for i
  proof (rule read_frame_cong)
    fix x assume "x \<in> frame_cells (ctx (procs s ! i))"
    then have "x \<in> own lay i" using i(3) by (auto simp: parked_def)
    then show "kmem t x = kmem s x" using own_disjoint [OF lay i(1) fs(2) i(2)] t(9,11) by blast
  qed
  have pk: "parked lay t i" if "i < 16" "i \<noteq> unat p" "parked lay s i" for i using r [OF that] that o by (simp add: parked_def)
  have "frame_fits lay (unat p) (initial_frame p entry)" using fs(1) by (simp add: frame_fits_def initial_frame_def kconsts)
  then have "frame_fits lay (unat p) (read_frame (kmem t) a)" unfolding t(10) [symmetric] by simp
  then have pp: "parked lay t (unat p)" using t(9) by (simp add: parked_def e t(8))
  have c: "unat p \<noteq> cur s" using idle fs(1) by simp
  have "procs_ok lay t" unfolding procs_ok_def
  proof (intro conjI allI impI)
    fix i :: nat assume i: "i < 16"
    show "unat (kernel_stack_top (procs t ! i)) = slot_lo lay (Suc i)" if "i \<noteq> 0" "live (procs t ! i)"
      using that i tab t(7) by (cases "i = unat p") (simp_all add: e o procs_ok_def)
    show "pstate (procs t ! i) \<noteq> Running" "pstate (procs t ! i) = Ready \<Longrightarrow> parked lay t i" if "i \<noteq> cur t"
      using that i tab pk pp t(3,6) by (cases "i = unat p"; simp add: e o procs_ok_def)+
  qed (use len tab fs(1) o in \<open>simp_all add: t(2,3) procs_ok_def\<close>)
  then have "sched_inv lay t" using inv c o by (simp add: sched_inv_def on_cpu_def t(3-5))
  moreover have "lives t = insert (unat p) (lives s)"
  proof -
    have "i \<in> lives t \<longleftrightarrow> i \<in> insert (unat p) (lives s)" for i by (cases "i = unat p") (use fs(2) t(6) e o in \<open>simp_all add: lives_def live_def\<close>)
    then show ?thesis by blast
  qed
  moreover have "proc_context t i = proc_context s i" if "i \<in> lives s" for i
  proof -
    have n: "i \<noteq> unat p" "i < 16" using that fs(3) by (auto simp: lives_def)
    have "parked lay s i" if "i \<noteq> cur s" using that \<open>i \<in> lives s\<close> tab by (auto simp: procs_ok_def lives_def live_def)
    then show ?thesis using r [OF n(2,1)] o [OF n(1)] by (simp add: proc_context_def parked_context_def t(3,5))
  qed
  moreover have "proc_context t (unat p) = initial_frame p entry" using c t(10) by (simp add: proc_context_def parked_context_def t(3) e t(8))
  ultimately show thesis using that t(1,3) by blast
qed

lemma kill_inv:
  assumes inv: "sched_inv lay s" and idle: "cur s = 0"
  shows "sched_inv lay (snd (kill s p))" "lives (snd (kill s p)) \<subseteq> lives s" "current (snd (kill s p)) = current s"
    "proc_context (snd (kill s p)) i = proc_context s i"
proof -
  let ?t = "snd (kill s p)"
  have u: "unat (ucast p :: usize) = unat p" by (simp add: unat_ucast_up)
  have len: "length (procs s) = 16" using inv by (simp add: sched_inv_def procs_ok_def)
  have "?t = s \<or> (\<exists>q. 0 < unat p \<and> unat p < 16 \<and> ?t = s\<lparr>procs := (procs s)[unat p := q]\<rparr> \<and> q = (procs s ! unat p)\<lparr>pstate := Zombie\<rparr>)"
    unfolding kill_def by (simp add: update_proc_def proc_at_def u word_le_nat_alt kconsts unat_gt_0)
  then consider "?t = s" | q where "0 < unat p" "unat p < 16" "?t = s\<lparr>procs := (procs s)[unat p := q]\<rparr>" "q = (procs s ! unat p)\<lparr>pstate := Zombie\<rparr>"
    by blast
  then have "sched_inv lay ?t \<and> lives ?t \<subseteq> lives s \<and> current ?t = current s \<and> proc_context ?t i = proc_context s i"
  proof cases
    case 1
    then show ?thesis using inv by simp
  next
    case (2 q)
    have e: "procs ?t ! unat p = q" using 2 len by simp
    have o: "procs ?t ! j = procs s ! j" if "j \<noteq> unat p" for j using that 2 by simp
    have q: "\<not> live q" "pstate q \<noteq> Running" "pstate q \<noteq> Ready" "ctx q = ctx (procs s ! unat p)" using 2 by (simp_all add: live_def)
    have k: "kmem ?t = kmem s" "current ?t = current s" "context_of ?t = context_of s" "tss_s ?t = tss_s s" using 2 by (simp_all add: context_of_def saved_frame_def)
    have c: "ctx (procs ?t ! j) = ctx (procs s ! j)" for j by (cases "j = unat p") (simp_all add: e o q)
    then have pk: "parked lay ?t j = parked lay s j \<and> parked_context ?t j = parked_context s j" for j using parked_cong k(1) by blast
    have lv: "live (procs ?t ! j) \<Longrightarrow> live (procs s ! j) \<and> j \<noteq> unat p" for j by (cases "j = unat p") (simp_all add: e o q)
    have tab: "procs_ok lay s" using inv by (simp add: sched_inv_def)
    have "procs_ok lay ?t" unfolding procs_ok_def
    proof (intro conjI allI impI)
      fix j :: nat assume j: "j < 16"
      show "unat (kernel_stack_top (procs ?t ! j)) = slot_lo lay (Suc j)" if "j \<noteq> 0" "live (procs ?t ! j)"
        using that j tab lv [OF that(2)] by (simp add: o procs_ok_def)
      show "pstate (procs ?t ! j) \<noteq> Running" "pstate (procs ?t ! j) = Ready \<Longrightarrow> parked lay ?t j" if "j \<noteq> cur ?t"
        using that j tab q(2,3) pk k(2) by (cases "j = unat p"; simp add: e o procs_ok_def)+
    qed (use len tab 2(1) o k in \<open>simp_all add: procs_ok_def 2(3)\<close>)
    then have "sched_inv lay ?t" using inv idle 2(1) o [of 0] k by (simp add: sched_inv_def on_cpu_def)
    moreover have "lives ?t \<subseteq> lives s" using lv by (auto simp: lives_def)
    ultimately show ?thesis using k pk by (simp add: proc_context_def)
  qed
  then show "sched_inv lay ?t" "lives ?t \<subseteq> lives s" "current ?t = current s" "proc_context ?t i = proc_context s i" by simp_all
qed

end
