(* ===== verification/Kernel_Paths.thy ===== *)
theory Kernel_Paths
  imports User Switching
begin

text \<open>
  The paths of \<open>User\<close> - an IRQ or a system call from the gate to the \<^verbatim>\<open>iretq\<close> - under the invariant of
  \<open>Kstacks\<close>: each returns, keeps the invariant, and changes no context but by the result of a system call.
\<close>

section \<open>Steps of the running kernel\<close>

lemma push_kernel [simp]:
  "procs (push v s) = procs s" "current (push v s) = current s" "tss_s (push v s) = tss_s s"
  "kbd_s (push v k) = kbd_s k" "io_bus (push v k) = io_bus k" "console (push v k) = console k" "irq_handlers (push v k) = irq_handlers k"
  "idt_s (push v k) = idt_s k" "ticks (push v k) = ticks k"
  by (simp_all add: push_def Let_def)

lemma push_frame_kernel [simp]:
  "procs (push_frame s) = procs s" "current (push_frame s) = current s" "tss_s (push_frame s) = tss_s s"
  "kbd_s (push_frame k) = kbd_s k" "io_bus (push_frame k) = io_bus k" "console (push_frame k) = console k" "irq_handlers (push_frame k) = irq_handlers k"
  "idt_s (push_frame k) = idt_s k" "ticks (push_frame k) = ticks k"
  by (simp_all add: push_frame_def Let_def)

lemma enter_gate_kernel [simp]:
  "procs (enter_gate r g s) = procs s" "current (enter_gate r g s) = current s" "tss_s (enter_gate r g s) = tss_s s"
  "kbd_s (enter_gate r g k) = kbd_s k" "io_bus (enter_gate r g k) = io_bus k" "console (enter_gate r g k) = console k" "irq_handlers (enter_gate r g k) = irq_handlers k"
  "idt_s (enter_gate r g k) = idt_s k" "ticks (enter_gate r g k) = ticks k"
  by (simp_all add: enter_gate_def enter_on_def Let_def)

lemma enter_fields [simp]:
  "procs (enter vec s) = procs s" "current (enter vec s) = current s" "tss_s (enter vec s) = tss_s s"
  "kbd_s (enter vec s) = kbd_s s" "io_bus (enter vec s) = io_bus s" "console (enter vec s) = console s" "irq_handlers (enter vec s) = irq_handlers s"
  "idt_s (enter vec s) = idt_s s" "ticks (enter vec s) = ticks s"
  by (simp_all add: enter_def stub_entry_def irq_common_def irq_stub_def syscall_stub_def Let_def)

lemma enter_memory:
  "rdi (enter vec s) = gate_frame s" "read_frame (kmem (enter vec s)) (gate_frame s) = saved_frame (word_of_nat vec) (gate_frame s) s"
  "x \<notin> frame_cells (gate_frame s) \<Longrightarrow> kmem (enter vec s) x = kmem s x"
  unfolding enter_def gate_frame_def by (rule entry_frame; assumption)+

lemma enter_in_kernel:
  assumes "layout_ok lay" "sched_inv lay s"
  shows "in_kernel lay (enter vec s) (gate_frame s)" "i \<in> lives s \<Longrightarrow> kernel_context (enter vec s) (gate_frame s) i = proc_context s i"
  using enter_kernel [OF assms enter_fields(1-3) enter_memory(2,3)] by (auto simp: lives_def)

definition kernel_inv :: "stack_layout \<Rightarrow> kernel \<Rightarrow> bool" where
  "kernel_inv lay s \<longleftrightarrow> sched_inv lay s \<and> kbd_ok (kbd_s s) \<and> length (irq_handlers s) = 16"

text \<open>One step, with who made it: the current process runs, an IRQ comes in, a user process makes a system
  call, or the shell in the idle process polls the keyboard, starts or kills a process. Running code
  does not write to the kernel stacks of other processes; a user process stays in ring 3 and the idle
  process keeps room for a frame on its stack.\<close>

datatype act = Run | Irq nat | Syscall | Poll | Spawn u32 | Kill u32

inductive kstep :: "device \<Rightarrow> console_sink \<Rightarrow> stack_layout \<Rightarrow> act \<Rightarrow> kernel \<Rightarrow> kernel \<Rightarrow> bool" for dev sink lay where
  run: "procs s' = procs s \<Longrightarrow> current s' = current s \<Longrightarrow> tss_s s' = tss_s s \<Longrightarrow> kbd_s s' = kbd_s s \<Longrightarrow> irq_handlers s' = irq_handlers s \<Longrightarrow>
    (\<And>i x. i < 16 \<Longrightarrow> i \<noteq> cur s \<Longrightarrow> x \<in> own lay i \<Longrightarrow> kmem s' x = kmem s x) \<Longrightarrow> on_cpu lay s' \<Longrightarrow> kstep dev sink lay Run s s'"
| irq: "n < 16 \<Longrightarrow> interrupts_enabled s \<Longrightarrow> irq_path dev n s = Some s' \<Longrightarrow> kstep dev sink lay (Irq n) s s'"
| syscall: "cur s \<noteq> 0 \<Longrightarrow> syscall_path sink s = Some s' \<Longrightarrow> kstep dev sink lay Syscall s s'"
| poll: "cur s = 0 \<Longrightarrow> poll_char s (kbd_s s) = Some (c, s', k) \<Longrightarrow> kstep dev sink lay Poll s (s'\<lparr>kbd_s := k\<rparr>)"
| spawn: "cur s = 0 \<Longrightarrow> free_slot s = Some p \<Longrightarrow> start_process (kstacks lay) s p entry name = Some s' \<Longrightarrow> kstep dev sink lay (Spawn p) s s'"
| kill: "cur s = 0 \<Longrightarrow> kstep dev sink lay (Kill p) s (snd (kill s p))"

inductive_cases kstep_cases: "kstep dev sink lay l s s'"

section \<open>IRQs\<close>

text \<open>The part of the state a path may change besides the processes.\<close>

definition same_rest :: "kernel \<Rightarrow> kernel \<Rightarrow> bool" where
  "same_rest s t \<longleftrightarrow> irq_handlers t = irq_handlers s \<and> (kbd_ok (kbd_s s) \<longrightarrow> kbd_ok (kbd_s t))"

lemma do_switch_rest:
  "kbd_s (do_switch s i) = kbd_s s" "irq_handlers (do_switch s i) = irq_handlers s" "io_bus (do_switch s i) = io_bus s" for s :: kernel
  by (simp_all add: do_switch_def Let_def sched_switch_loads load_regs_def update_proc_def)

lemma update_proc_rest:
  "kbd_s (update_proc s i f) = kbd_s s" "irq_handlers (update_proc s i f) = irq_handlers s" "io_bus (update_proc s i f) = io_bus s" for s :: kernel
  by (simp_all add: update_proc_def)

lemma stub_exit_rest:
  "kbd_s (stub_exit a s) = kbd_s s" "irq_handlers (stub_exit a s) = irq_handlers s" "io_bus (stub_exit a s) = io_bus s" for s :: kernel
  by (simp_all add: stub_exit_loads load_regs_def)

lemma stub_exit_procs [simp]: "procs (stub_exit a s) = procs s" "current (stub_exit a s) = current s" "lives (stub_exit a s) = lives s"
  by (simp_all add: stub_exit_loads lives_def)

lemma lives_enter [simp]: "lives (enter vec s) = lives s"
  by (simp add: lives_def)

lemmas rest_simps = do_switch_rest update_proc_rest stub_exit_rest

lemma on_tick_rest:
  fixes s :: kernel
  assumes "on_tick s a = Some r"
  shows "kbd_s (leave a r) = kbd_s s" "irq_handlers (leave a r) = irq_handlers s" "io_bus (leave a r) = io_bus s"
  using assms by (auto simp: on_tick_def leave_def rest_simps Let_def bind_eq_Some_conv split: option.splits)

lemma exit_current_rest:
  fixes s :: kernel
  assumes "exit_current s = Some t"
  shows "kbd_s t = kbd_s s" "irq_handlers t = irq_handlers s" "io_bus t = io_bus s"
  using assms by (auto simp: exit_current_def rest_simps Let_def bind_eq_Some_conv)

lemma in_kernel_cong:
  assumes "in_kernel lay s a" "procs t = procs s" "current t = current s" "tss_s t = tss_s s" "kmem t = kmem s"
  shows "in_kernel lay t a" "kernel_context t a i = kernel_context s a i" "lives t = lives s"
proof -
  have "procs_ok lay t" by (rule procs_ok_cong(1) [OF in_kernelD(1) [OF assms(1)] assms(2,3)]) (simp add: assms)
  then show "in_kernel lay t a" using assms by (simp add: in_kernel_def)
  show "kernel_context t a i = kernel_context s a i" by (simp add: kernel_context_def parked_context_def assms)
  show "lives t = lives s" by (simp add: lives_def assms)
qed

lemma handle_irq_returns:
  assumes "length hs = 16" "n < 16" "f_vector f = word_of_nat (32 + n)"
  shows "handle_irq hs b f = Some (word_of_nat n, hs ! n, send_eoi b (word_of_nat n))"
proof -
  have u: "unat (word_of_nat (32 + n) :: u64) = 32 + n" using assms(2) by (simp add: unat_of_nat del: of_nat_add)
  have "usub (f_vector f) (ucast IRQ_BASE) = Some (word_of_nat n)" unfolding assms(3)
    by (simp add: usub_def kconsts word_le_nat_alt u del: of_nat_add) (simp add: of_nat_add)
  moreover have "(ucast (word_of_nat n :: u64) :: u8) = word_of_nat n" by transfer simp
  moreover have "unat (ucast (word_of_nat n :: u8) :: usize) = n" using assms(2) by (simp add: unat_ucast_up unat_of_nat)
  ultimately show ?thesis using assms(1,2) by (simp add: handle_irq_def index_def Let_def)
qed

lemma irq_path_returns:
  assumes lay: "layout_ok lay" and inv: "kernel_inv lay s" and n: "n < 16"
  obtains t where "irq_path dev n s = Some t" "kernel_inv lay t" "irq_handlers t = irq_handlers s" "lives t = lives s"
    "\<And>i. i \<in> lives s \<Longrightarrow> proc_context t i = proc_context s i"
    "cur t = (if irq_handlers s ! n = Some Timer_handler then next_cur s else cur s)"
proof -
  note ret = that
  let ?e = "enter (32 + n) s" and ?a = "gate_frame s"
  have si: "sched_inv lay s" and kb: "kbd_ok (kbd_s s)" and len: "length (irq_handlers s) = 16" using inv by (simp_all add: kernel_inv_def)
  note k = enter_in_kernel [OF lay si, where vec = "32 + n"]
  have h: "handle_irq (irq_handlers s) (io_bus s) (read_frame (kmem ?e) ?a) = Some (word_of_nat n, irq_handlers s ! n, send_eoi (io_bus s) (word_of_nat n))"
    by (rule handle_irq_returns [OF len n]) (simp add: enter_memory saved_frame_def)
  let ?b = "send_eoi (io_bus s) (word_of_nat n)"
  have p: "irq_path dev n s = map_option (leave ?a) (case irq_handlers s ! n of None \<Rightarrow> Some (False, ?e\<lparr>io_bus := ?b\<rparr>) | Some h \<Rightarrow> run_handler dev h (?e\<lparr>io_bus := ?b\<rparr>) ?a)"
    by (simp add: irq_path_def enter_memory(1) h Let_def map_conv_bind_option comp_def split: option.split)
  have stay: thesis if "irq_path dev n s = Some (leave ?a (False, t))" "procs t = procs ?e" "current t = current ?e" "tss_s t = tss_s ?e" "kmem t = kmem ?e"
    "irq_handlers t = irq_handlers s" "kbd_ok (kbd_s t)" "irq_handlers s ! n \<noteq> Some Timer_handler" for t
  proof -
    note c = in_kernel_cong [OF k(1) that(2-5)]
    note x = exit_kernel [OF c(1)]
    show thesis
      by (rule ret [OF that(1)])
        (use x that(3,6-8) c k(2) len in \<open>simp_all add: leave_def kernel_inv_def rest_simps\<close>)
  qed
  show thesis
  proof (cases "irq_handlers s ! n")
    case None
    show thesis by (rule stay [of "?e\<lparr>io_bus := ?b\<rparr>"]) (use p kb None in simp_all)
  next
    case (Some h)
    show thesis
    proof (cases h)
      case Timer_handler
      let ?s = "?e\<lparr>io_bus := ?b, ticks := ticks s + 1\<rparr>"
      have ks: "in_kernel lay ?s ?a" "\<And>i. kernel_context ?s ?a i = kernel_context ?e ?a i" "lives ?s = lives s"
        using in_kernel_cong [OF k(1), of ?s] by (simp_all add: lives_def)
      obtain r where r: "on_tick ?s ?a = Some r" "sched_inv lay (leave ?a r)" "\<And>i. proc_context (leave ?a r) i = kernel_context ?s ?a i"
        "lives (leave ?a r) = lives ?s" "cur (leave ?a r) = next_cur ?s"
        using on_tick_returns [OF ks(1)] by blast
      have q: "irq_path dev n s = Some (leave ?a r)" using p r(1) Some Timer_handler by (simp add: run_handler_def timer_handler_def)
      show thesis by (rule that [OF q]) (use r ks k(2) kb len Some Timer_handler in \<open>simp_all add: kernel_inv_def on_tick_rest [OF r(1)] next_cur_cong [of ?s s]\<close>)
    next
      case Kbd_handler
      obtain k' where k': "kbd_irq_handler dev (?e\<lparr>io_bus := ?b\<rparr>) ?b (kbd_s s) = Some (?e\<lparr>io_bus := ?b\<rparr>, ?b @ [In PS2_DATA (dev ?b PS2_DATA)], k')" "kbd_ok k'"
        using kbd_irq_step [OF kb] by blast
      show thesis by (rule stay [of "?e\<lparr>io_bus := ?b @ [In PS2_DATA (dev ?b PS2_DATA)], kbd_s := k'\<rparr>"])
          (use p k' Some Kbd_handler in \<open>simp_all add: run_handler_def\<close>)
    qed
  qed
qed

section \<open>System calls\<close>

definition syscall_result :: "kernel \<Rightarrow> u64" where
  "syscall_result s = (if rax s = SYS_PUTC \<or> rax s = SYS_YIELD then rax s
     else if rax s = SYS_GETC then (case queued (kbd_s s) of [] \<Rightarrow> - 1 | c # _ \<Rightarrow> ucast c)
     else if rax s = SYS_GETPID then ucast (current_pid s) else - 1)"

definition putc_ok :: "console_sink \<Rightarrow> kernel \<Rightarrow> bool" where
  "putc_ok sink s \<longleftrightarrow> (rax s = SYS_PUTC \<and> console s \<longrightarrow> sink (ucast (rdi s)) (io_bus s) \<noteq> None)"

text \<open>The state \<open>t\<close> after a system call made in \<open>s\<close>.\<close>

definition syscall_done :: "console_sink \<Rightarrow> stack_layout \<Rightarrow> kernel \<Rightarrow> kernel \<Rightarrow> bool" where
  "syscall_done sink lay s t \<longleftrightarrow> kernel_inv lay t \<and> irq_handlers t = irq_handlers s \<and>
     lives t = (if rax s = SYS_EXIT then lives s - {cur s} else lives s) \<and>
     (\<forall>i\<in>lives s - {cur s}. proc_context t i = proc_context s i) \<and>
     (rax s \<noteq> SYS_EXIT \<longrightarrow> proc_context t (cur s) = (context_of s)\<lparr>f_rax := syscall_result s\<rparr>) \<and>
     cur t = (if rax s = SYS_EXIT \<or> rax s = SYS_YIELD then next_cur s else cur s) \<and>
     queued (kbd_s t) = (if rax s = SYS_GETC then tl (queued (kbd_s s)) else queued (kbd_s s)) \<and>
     (if rax s = SYS_PUTC \<and> console s then sink (ucast (rdi s)) (io_bus s) = Some (io_bus t) else io_bus t = io_bus s)"

lemma syscall_numbers: "SYS_PUTC \<noteq> SYS_GETC" "SYS_PUTC \<noteq> SYS_EXIT" "SYS_PUTC \<noteq> SYS_GETPID" "SYS_PUTC \<noteq> SYS_YIELD" "SYS_GETC \<noteq> SYS_EXIT"
  "SYS_GETC \<noteq> SYS_GETPID" "SYS_GETC \<noteq> SYS_YIELD" "SYS_EXIT \<noteq> SYS_GETPID" "SYS_EXIT \<noteq> SYS_YIELD" "SYS_GETPID \<noteq> SYS_YIELD"
  by (simp_all add: kconsts)

lemmas syscall_distinct [simp] = syscall_numbers syscall_numbers [symmetric]

text \<open>A call that does not switch: it leaves the frame as it is, or puts its result into RAX.\<close>

lemma syscall_stays:
  assumes lay: "layout_ok lay" and inv: "kernel_inv lay s" and no: "rax s \<noteq> SYS_EXIT" "rax s \<noteq> SYS_YIELD"
    and t: "procs t = procs s" "current t = current s" "tss_s t = tss_s s" "irq_handlers t = irq_handlers s" "kbd_ok (kbd_s t)"
      "kmem t = (kmem (enter 0x80 s))(gate_frame s + 120 := syscall_result s)"
      "queued (kbd_s t) = (if rax s = SYS_GETC then tl (queued (kbd_s s)) else queued (kbd_s s))"
      "if rax s = SYS_PUTC \<and> console s then sink (ucast (rdi s)) (io_bus s) = Some (io_bus t) else io_bus t = io_bus s"
  shows "syscall_done sink lay s (stub_exit (gate_frame s) t)"
proof -
  let ?e = "enter 0x80 s" and ?a = "gate_frame s"
  have si: "sched_inv lay s" and len: "length (irq_handlers s) = 16" using inv by (simp_all add: kernel_inv_def)
  note k = enter_in_kernel [OF lay si, where vec = "0x80"]
  have rf: "read_frame (kmem t) ?a = (saved_frame 0x80 ?a s)\<lparr>f_rax := syscall_result s\<rparr>" unfolding t(6) read_rax by (simp add: enter_memory)
  have "frame_fits lay (cur s) (saved_frame 0x80 ?a s)" using in_kernelD(6) [OF k(1)] by (simp add: enter_memory)
  then have "frame_fits lay (cur s) (read_frame (kmem t) ?a)" unfolding rf by (simp add: frame_fits_def)
  then have w: "in_kernel lay t ?a" "\<And>i. i \<in> lives s \<Longrightarrow> i \<noteq> cur s \<Longrightarrow> kernel_context t ?a i = kernel_context ?e ?a i"
    using own_write [OF lay k(1), of t] t(1-3,6) by (simp_all add: frame_cells_insert)
  note x = exit_kernel [OF w(1)]
  have "kernel_context t ?a (cur s) = (context_of s)\<lparr>f_rax := syscall_result s\<rparr>"
    by (simp add: kernel_context_def t(2) rf frame_context_def context_of_def saved_frame_def)
  then show ?thesis unfolding syscall_done_def using x w(2) k(2) t(1,2,4,5,7,8) len no
    by (simp add: kernel_inv_def rest_simps lives_def)
qed

lemma syscall_path_done:
  assumes lay: "layout_ok lay" and inv: "kernel_inv lay s" and user: "cur s \<noteq> 0" and putc: "putc_ok sink s"
  obtains t where "syscall_path sink s = Some t" "syscall_done sink lay s t"
proof -
  note ret = that
  let ?e = "enter 0x80 s" and ?a = "gate_frame s"
  have si: "sched_inv lay s" and kb: "kbd_ok (kbd_s s)" and len: "length (irq_handlers s) = 16" using inv by (simp_all add: kernel_inv_def)
  note k = enter_in_kernel [OF lay si, where vec = "0x80"]
  have f: "f_rax (read_frame (kmem ?e) ?a) = rax s" "f_rdi (read_frame (kmem ?e) ?a) = rdi s" by (simp_all add: enter_memory saved_frame_def)
  have p: "syscall_path sink s = map_option (leave ?a) (handle_syscall sink ?e ?a)"
    by (simp add: syscall_path_def enter_memory(1) Let_def map_conv_bind_option comp_def)
  have "kmem ?e (?a + 120) = rax s" using f(1) by (simp add: read_frame_def)
  then have same: "(kmem ?e)(?a + 120 := rax s) = kmem ?e" by (rule fun_upd_idem)
  have stay: thesis if "handle_syscall sink ?e ?a = Some (False, t)" "syscall_done sink lay s (stub_exit ?a t)" for t
    by (rule ret [OF _ that(2)]) (simp add: p that(1) leave_def)
  consider "rax s = SYS_PUTC" | "rax s = SYS_GETC" | "rax s = SYS_EXIT" | "rax s = SYS_GETPID" | "rax s = SYS_YIELD"
    | "rax s \<notin> {SYS_PUTC, SYS_GETC, SYS_EXIT, SYS_GETPID, SYS_YIELD}" by blast
  then show thesis
  proof cases
    case 1
    obtain b where b: "if console s then sink (ucast (rdi s)) (io_bus s) = Some b else b = io_bus s"
      using putc 1 by (cases "console s") (auto simp: putc_ok_def)
    let ?t = "?e\<lparr>io_bus := b\<rparr>"
    have "user_emit sink ?e (ucast (rdi s)) = Some ?t"
      using b by (cases "console s") (simp_all add: user_emit_def)
    then have "handle_syscall sink ?e ?a = Some (False, ?t)" using 1 by (simp add: handle_syscall_def f)
    moreover have "syscall_done sink lay s (stub_exit ?a ?t)"
      by (rule syscall_stays [OF lay inv]) (use 1 b kb same in \<open>simp_all add: syscall_result_def split: if_splits\<close>)
    ultimately show thesis by (rule stay)
  next
    case 2
    obtain k' where k': "poll_char ?e (kbd_s s) = Some (map_option char_of_u8 (case queued (kbd_s s) of [] \<Rightarrow> None | c # _ \<Rightarrow> Some c), ?e, k')"
      "kbd_ok k'" "queued k' = tl (queued (kbd_s s))" using poll_char_queued [OF kb] by blast
    let ?t = "set_rax (?e\<lparr>kbd_s := k'\<rparr>) ?a (syscall_result s)"
    have "handle_syscall sink ?e ?a = Some (False, ?t)" using 2 k'(1) by (simp add: handle_syscall_def f syscall_result_def split: list.splits)
    moreover have "syscall_done sink lay s (stub_exit ?a ?t)"
      by (rule syscall_stays [OF lay inv]) (use 2 k' in \<open>simp_all add: set_rax_def\<close>)
    ultimately show thesis by (rule stay)
  next
    case 3
    have "cur ?e \<noteq> 0" using user by simp
    then obtain t where t: "exit_current ?e = Some t" "sched_inv lay t" "\<And>i. i \<noteq> cur ?e \<Longrightarrow> proc_context t i = kernel_context ?e ?a i"
      "lives t = lives ?e - {cur ?e}" "cur t = next_cur ?e" using exit_current_returns [OF k(1)] by blast
    have "syscall_path sink s = Some t" using 3 t(1) by (simp add: p handle_syscall_def f leave_def)
    moreover have "syscall_done sink lay s t"
      using 3 t(2-5) k(2) kb len next_cur_cong [of ?e s] exit_current_rest [OF t(1)] by (simp add: syscall_done_def kernel_inv_def)
    ultimately show thesis by (rule that)
  next
    case 4
    let ?t = "set_rax ?e ?a (syscall_result s)"
    have "handle_syscall sink ?e ?a = Some (False, ?t)" using 4 by (simp add: handle_syscall_def f syscall_result_def current_pid_def proc_at_def)
    moreover have "syscall_done sink lay s (stub_exit ?a ?t)" by (rule syscall_stays [OF lay inv]) (use 4 kb in \<open>simp_all add: set_rax_def\<close>)
    ultimately show thesis by (rule stay)
  next
    case 5
    obtain r where r: "on_tick ?e ?a = Some r" "sched_inv lay (leave ?a r)" "\<And>i. proc_context (leave ?a r) i = kernel_context ?e ?a i"
      "lives (leave ?a r) = lives ?e" "cur (leave ?a r) = next_cur ?e" using on_tick_returns [OF k(1)] by blast
    have "syscall_path sink s = Some (leave ?a r)" using 5 r(1) by (simp add: p handle_syscall_def f yield_is_tick)
    moreover have "cur s \<in> lives s" using si by (simp add: sched_inv_def procs_ok_def lives_def)
    then have "proc_context (leave ?a r) (cur s) = (context_of s)\<lparr>f_rax := syscall_result s\<rparr>"
      using 5 r(3) k(2) by (simp add: proc_context_def syscall_result_def context_of_def saved_frame_def)
    then have "syscall_done sink lay s (leave ?a r)"
      using 5 r(2-5) k(2) kb len next_cur_cong [of ?e s] on_tick_rest [OF r(1)] by (simp add: syscall_done_def kernel_inv_def)
    ultimately show thesis by (rule that)
  next
    case 6
    let ?t = "set_rax ?e ?a (syscall_result s)"
    have "handle_syscall sink ?e ?a = Some (False, ?t)" using 6 by (simp add: handle_syscall_def f syscall_result_def)
    moreover have "syscall_done sink lay s (stub_exit ?a ?t)" by (rule syscall_stays [OF lay inv]) (use 6 kb in \<open>simp_all add: set_rax_def\<close>)
    ultimately show thesis by (rule stay)
  qed
qed

end
