(* ===== verification/Preemption.thy ===== *)
theory Preemption
  imports Kernel_Paths Interfaces
begin

text \<open>
  The running kernel as a transition system, and what holds along its runs: no path gets stuck, preemption
  is transparent to the preempted process, waiting for the CPU is bounded, and system calls do what
  they are specified to.
\<close>

section \<open>The system\<close>

text \<open>What every step keeps: the invariant, the handlers, and the context of every process that lives on,
  except that the current one may run and make system calls.\<close>

lemma current_live: "sched_inv lay s \<Longrightarrow> cur s \<in> lives s"
  by (simp add: sched_inv_def procs_ok_def lives_def)

definition steady :: "stack_layout \<Rightarrow> act \<Rightarrow> kernel \<Rightarrow> kernel \<Rightarrow> bool" where
  "steady lay l s t \<longleftrightarrow> kernel_inv lay t \<and> irq_handlers t = irq_handlers s \<and>
     (\<forall>i\<in>lives s \<inter> lives t. (l = Run \<or> l = Syscall) \<and> i = cur s \<or> proc_context t i = proc_context s i) \<and>
     (cur t = cur s \<or> cur t = next_cur s) \<and> (\<forall>n. l = Irq n \<longrightarrow> irq_handlers s ! n = Some Timer_handler \<longrightarrow> cur t = next_cur s)"

lemma syscall_done_step:
  assumes lay: "layout_ok lay" and inv: "kernel_inv lay s" and user: "cur s \<noteq> 0" and t: "syscall_path sink s = Some t"
  shows "syscall_done sink lay s t"
proof -
  have "putc_ok sink s"
    using t by (auto simp: putc_ok_def syscall_path_def handle_syscall_def user_emit_def enter_memory saved_frame_def Let_def bind_eq_Some_conv)
  then obtain t' where "syscall_path sink s = Some t'" "syscall_done sink lay s t'" using syscall_path_done [OF lay inv user] by blast
  then show ?thesis using t by simp
qed

lemma kstep_steady:
  assumes lay: "layout_ok lay" and inv: "kernel_inv lay s" and step: "kstep dev sink lay l s t"
  shows "steady lay l s t"
proof -
  have si: "sched_inv lay s" and kb: "kbd_ok (kbd_s s)" and len: "length (irq_handlers s) = 16" using inv by (simp_all add: kernel_inv_def)
  show ?thesis using step
  proof cases
    case run
    have po: "procs_ok lay s" using si by (simp add: sched_inv_def)
    have "procs_ok lay t" by (rule procs_ok_cong(1) [OF po run(2,3)]) (use run(7) in blast)
    then have "sched_inv lay t" using si run by (simp add: sched_inv_def)
    moreover have "proc_context t i = proc_context s i" if "i \<in> lives s" "i \<noteq> cur s" for i
      using procs_ok_cong(2) [OF po run(2,3), of i] run(7) that run(3) by (simp add: proc_context_def lives_def)
    ultimately show ?thesis using kb len run by (auto simp: steady_def kernel_inv_def)
  next
    case (irq n)
    obtain t' where "irq_path dev n s = Some t'" "kernel_inv lay t'" "irq_handlers t' = irq_handlers s"
      "\<And>i. i \<in> lives s \<Longrightarrow> proc_context t' i = proc_context s i"
      "cur t' = (if irq_handlers s ! n = Some Timer_handler then next_cur s else cur s)"
      using irq_path_returns [OF lay inv irq(2)] by blast
    then show ?thesis using irq by (simp add: steady_def)
  next
    case syscall
    have "syscall_done sink lay s t" by (rule syscall_done_step [OF lay inv syscall(2,3)])
    then show ?thesis using syscall(1) by (auto simp: steady_def syscall_done_def)
  next
    case (poll c s' k)
    then have s: "s' = s" "kbd_ok k" using poll_char_queued [OF kb, of s] by auto
    have p: "procs t = procs s" "current t = current s" "tss_s t = tss_s s" "kmem t = kmem s" "context_of t = context_of s"
      by (simp_all add: poll(2) s context_of_def saved_frame_def)
    have po: "procs_ok lay s" using si by (simp add: sched_inv_def)
    have "procs_ok lay t" by (rule procs_ok_cong(1) [OF po p(1,2)]) (simp add: p)
    then show ?thesis using si len s by (simp add: steady_def kernel_inv_def sched_inv_def on_cpu_def p proc_context_def parked_context_def poll(1)) (simp add: poll(2) s)
  next
    case (spawn p entry name)
    obtain t' where t': "start_process (kstacks lay) s p entry name = Some t'" "sched_inv lay t'" "current t' = current s"
      "\<And>i. i \<in> lives s \<Longrightarrow> proc_context t' i = proc_context s i"
      using start_process_inv [OF lay si spawn(2,3)] by metis
    have "kbd_s t = kbd_s s" "irq_handlers t = irq_handlers s" using spawn(4) by (auto simp: start_process_def Let_def bind_eq_Some_conv)
    then show ?thesis using t' spawn kb len by (simp add: steady_def kernel_inv_def)
  next
    case (kill p)
    have "kbd_s t = kbd_s s" "irq_handlers t = irq_handlers s" by (simp_all add: kill(2) kill_def update_proc_rest)
    then show ?thesis using kill_inv [OF si kill(3)] kb len by (simp add: steady_def kernel_inv_def kill(1,2))
  qed
qed

definition ksteps :: "device \<Rightarrow> console_sink \<Rightarrow> stack_layout \<Rightarrow> kernel \<Rightarrow> kernel \<Rightarrow> bool" where
  "ksteps dev sink lay s t \<longleftrightarrow> (\<exists>l. kstep dev sink lay l s t)"

lemma kstep_run: "(ksteps dev sink lay)\<^sup>*\<^sup>* s t \<Longrightarrow> kstep dev sink lay l t u \<Longrightarrow> (ksteps dev sink lay)\<^sup>*\<^sup>* s u"
  by (rule rtranclp.rtrancl_into_rtrancl) (auto simp: ksteps_def)

definition kernel_good :: "stack_layout \<Rightarrow> kernel \<Rightarrow> bool" where
  "kernel_good lay s \<longleftrightarrow> layout_ok lay \<and> kernel_inv lay s"

text \<open>The kernel when the boot flow has become the idle process: no other process has been started, an empty keyboard
  buffer, the handlers registered, and room on the boot stack.\<close>

definition kernel_boot :: "stack_layout \<Rightarrow> kernel \<Rightarrow> bool" where
  "kernel_boot lay s \<longleftrightarrow> layout_ok lay \<and> (\<exists>s0 ktop. s = init_idle s0 ktop \<and> length (procs s0) = 16 \<and> (\<forall>i<16. 0 < i \<longrightarrow> procs s0 ! i = UNUSED) \<and> kbd_s s0 = kbd_statics \<and>
     length (irq_handlers s0) = 16 \<and> frame_fits lay 0 (context_of s0))"

lemma kernel_boot_good:
  assumes "kernel_boot lay s"
  shows "kernel_good lay s"
proof -
  obtain s0 ktop where s: "s = init_idle s0 ktop" "length (procs s0) = 16" "\<forall>i<16. 0 < i \<longrightarrow> procs s0 ! i = UNUSED" "kbd_s s0 = kbd_statics" "length (irq_handlers s0) = 16"
    "frame_fits lay 0 (context_of s0)" and lay: "layout_ok lay" using assms by (auto simp: kernel_boot_def)
  have p: "procs s = (procs s0)[0 := \<lparr>pid = 0, pstate = Ready, kernel_stack_top = ktop, ctx = 0, pname = bytes ''idle'' @ replicate 12 0\<rparr>]"
    "current s = 0" by (simp_all add: s init_idle_def)
  have "\<not> live (procs s ! i) \<and> pstate (procs s ! i) = Unused" if "0 < i" "i < 16" for i
    using that s(3) by (simp add: p UNUSED_def live_def)
  then have "procs_ok lay s" unfolding procs_ok_def using s(2) by (auto simp: p live_def)
  moreover have "context_of s = context_of s0" by (simp add: s init_idle_def context_of_def saved_frame_def update_proc_def)
  ultimately have "sched_inv lay s" using s(2,6) by (simp add: sched_inv_def on_cpu_def p(2)) (simp add: p(1) live_def)
  then show ?thesis using lay s by (simp add: kernel_good_def kernel_inv_def init_idle_def update_proc_rest kbd_ok_def kbd_statics_def kconsts)
qed

interpretation kernel_sys: safe_system "kernel_boot lay" "ksteps dev sink lay" "kernel_good lay" for lay dev sink
proof
  show "kernel_good lay t" if "kernel_good lay s" "ksteps dev sink lay s t" for s t
    using that kstep_steady by (auto simp: kernel_good_def ksteps_def steady_def)
qed (rule kernel_boot_good)

section \<open>Fairness\<close>

text \<open>How many slots the current process is away from \<open>i\<close>, going round.\<close>

definition dist :: "nat \<Rightarrow> 'a sched_scheme \<Rightarrow> nat" where
  "dist i s = (i + 16 - cur s) mod 16"

lemma dist_closer:
  assumes inv: "sched_inv lay s" and i: "i \<in> lives s" "i \<noteq> cur s" and t: "cur t = next_cur s"
  shows "dist i t < dist i s"
proof -
  have c: "cur s < 16" and i16: "i < 16" and r: "pstate (procs s ! i) = Ready"
    using inv i by (auto simp: sched_inv_def procs_ok_def lives_def live_def)
  define d where "d = dist i s"
  have d: "d = (if cur s \<le> i then i - cur s else i + 16 - cur s)" using c i16 by (auto simp: d_def dist_def mod_if)
  have di: "(cur s + d) mod 16 = i" "0 < d" "d < 16" using c i16 i(2) by (auto simp: d mod_if)
  then have "next_ready s \<noteq> None" using r unfolding next_ready_None by (metis One_nat_def Suc_leI atLeastLessThan_iff)
  then obtain j where j: "next_ready s = Some j" by blast
  obtain k where k: "0 < k" "k < 16" "j = (cur s + k) mod 16" "\<And>m. 0 < m \<Longrightarrow> m < k \<Longrightarrow> pstate (procs s ! ((cur s + m) mod 16)) \<noteq> Ready"
    using next_ready_Some [OF j] by metis
  have "k \<le> d" using k(4) [of d] di r by (meson leI)
  have "cur t = (cur s + k) mod 16" using t j k(3) by (simp add: next_cur_def)
  moreover have "(i + 16 - (cur s + k) mod 16) mod 16 = d - k"
    using \<open>k \<le> d\<close> c i16 k(2) di(3) by (auto simp: d mod_if split: if_splits)
  ultimately show ?thesis using k(1) di(2) by (simp add: dist_def flip: d_def) (simp add: d_def [unfolded dist_def, symmetric])
qed

text \<open>A run during which process \<open>i\<close> stays live and does not get the CPU, with the number of timer
  interrupts in it.\<close>

inductive waits :: "device \<Rightarrow> console_sink \<Rightarrow> stack_layout \<Rightarrow> nat \<Rightarrow> kernel \<Rightarrow> nat \<Rightarrow> kernel \<Rightarrow> bool" for dev sink lay i s where
  none: "waits dev sink lay i s 0 s"
| tick: "waits dev sink lay i s n t \<Longrightarrow> kstep dev sink lay (Irq 0) t u \<Longrightarrow> i \<in> lives u \<Longrightarrow> cur u \<noteq> i \<Longrightarrow> waits dev sink lay i s (Suc n) u"
| other: "waits dev sink lay i s n t \<Longrightarrow> kstep dev sink lay l t u \<Longrightarrow> l \<noteq> Irq 0 \<Longrightarrow> i \<in> lives u \<Longrightarrow> cur u \<noteq> i \<Longrightarrow> waits dev sink lay i s n u"

text \<open>A run during which process \<open>i\<close> stays live and neither runs nor makes a system call.\<close>

inductive undisturbed :: "device \<Rightarrow> console_sink \<Rightarrow> stack_layout \<Rightarrow> nat \<Rightarrow> kernel \<Rightarrow> kernel \<Rightarrow> bool" for dev sink lay i s where
  none: "undisturbed dev sink lay i s s"
| step: "undisturbed dev sink lay i s t \<Longrightarrow> kstep dev sink lay l t u \<Longrightarrow> i \<in> lives u \<Longrightarrow> \<not> ((l = Run \<or> l = Syscall) \<and> i = cur t) \<Longrightarrow>
    undisturbed dev sink lay i s u"

lemma waits_closer:
  assumes "waits dev sink lay i s n t" "kernel_good lay s" "i \<in> lives s" "cur s \<noteq> i" "irq_handlers s ! 0 = Some Timer_handler"
  shows "kernel_good lay t \<and> i \<in> lives t \<and> cur t \<noteq> i \<and> irq_handlers t ! 0 = Some Timer_handler \<and> n + dist i t \<le> dist i s"
  using assms
proof (induction rule: waits.induct)
  case (tick n t u)
  then have g: "kernel_inv lay t" "layout_ok lay" by (simp_all add: kernel_good_def)
  note st = kstep_steady [OF g(2,1) tick(2), unfolded steady_def]
  have "dist i u < dist i t" by (rule dist_closer [of lay t i u]) (use tick st g in \<open>auto simp: kernel_inv_def\<close>)
  then show ?case using tick st g by (simp add: kernel_good_def)
next
  case (other n t l u)
  then have g: "kernel_inv lay t" "layout_ok lay" by (simp_all add: kernel_good_def)
  note st = kstep_steady [OF g(2,1) other(2), unfolded steady_def]
  have "dist i u \<le> dist i t"
  proof (cases "cur u = cur t")
    case True
    then show ?thesis by (simp add: dist_def)
  next
    case False
    have "dist i u < dist i t" by (rule dist_closer [of lay t i u]) (use other st g False in \<open>auto simp: kernel_inv_def\<close>)
    then show ?thesis by simp
  qed
  then show ?case using other st g by (simp add: kernel_good_def)
qed simp

lemma undisturbed_context:
  assumes "undisturbed dev sink lay i s t" "kernel_good lay s" "i \<in> lives s"
  shows "kernel_good lay t \<and> i \<in> lives t \<and> proc_context t i = proc_context s i"
  using assms
proof (induction rule: undisturbed.induct)
  case (step t l u)
  then have g: "kernel_inv lay t" "layout_ok lay" by (simp_all add: kernel_good_def)
  show ?case using step kstep_steady [OF g(2,1) step(2), unfolded steady_def] g by (auto simp: kernel_good_def)
qed simp

definition example_stacks :: stack_layout where
  "example_stacks = \<lparr>kstacks = 0x200000, boot_lo = 0x80000, boot_hi = 0x90000\<rparr>"

definition example_kernel :: kernel where
  "example_kernel = \<lparr>rflags = 0x202, cr3 = 0, rax = 0, rbx = 0, rcx = 0, rdx = 0, rsi = 0, rdi = 0, rbp = 0, r8 = 0, r9 = 0, r10 = 0, r11 = 0,
     r12 = 0, r13 = 0, r14 = 0, r15 = 0, rsp = 0x8F000, rip = 0x100000, cs = 8, ss = 16, kmem = (\<lambda>_. 0), procs = replicate 16 UNUSED,
     current = 0, scheduling = False, tss_s = tss_statics, kbd_s = kbd_statics, io_bus = [], console = True,
     irq_handlers = [Some Timer_handler, Some Kbd_handler] @ replicate 14 None, idt_s = idt_statics, ticks = 0\<rparr>"

definition example_booted :: kernel where
  "example_booted = init_idle example_kernel 0x90000"

definition example_sink :: console_sink where
  "example_sink c b = Some (b @ [Out 0x3F8 c])"

lemma frame_fits_rax [simp]: "frame_fits lay i (f\<lparr>f_rax := v\<rparr>) = frame_fits lay i f"
  by (simp add: frame_fits_def)

lemma example_kernel_boots: "kernel_boot example_stacks example_booted"
  unfolding kernel_boot_def example_booted_def
  by (intro conjI exI [of _ example_kernel] exI [of _ "0x90000 :: usize"])
    (simp_all add: layout_ok_def slot_lo_def example_stacks_def example_kernel_def frame_fits_def context_of_def saved_frame_def)

lemma example_slot: "free_slot example_booted = Some 1"
  by (simp add: free_slot_def example_booted_def init_idle_def update_proc_def proc_at_def example_kernel_def UNUSED_def kconsts upt_rec)

text \<open>One process is started and the next timer interrupt switches to it.\<close>

lemma example_run:
  obtains s t where "kstep dev sink example_stacks (Spawn 1) example_booted s" "kstep dev sink example_stacks (Irq 0) s t"
    "lives s = {0, 1}" "cur s = 0" "lives t = {0, 1}" "cur t = 1" "irq_handlers s ! 0 = Some Timer_handler"
proof -
  have g: "layout_ok example_stacks" "kernel_inv example_stacks example_booted" using kernel_boot_good [OF example_kernel_boots] by (simp_all add: kernel_good_def)
  have si: "sched_inv example_stacks example_booted" using g(2) by (simp add: kernel_inv_def)
  have b: "cur example_booted = 0" "lives example_booted = {0}" "irq_handlers example_booted ! 0 = Some Timer_handler" "rflags example_booted = 0x202"
    by (auto simp: example_booted_def init_idle_def update_proc_def example_kernel_def lives_def UNUSED_def live_def nth_list_update)
  obtain s where s: "start_process (kstacks example_stacks) example_booted 1 0x80200000 [] = Some s" "sched_inv example_stacks s" "lives s = {0, 1}" "cur s = 0"
    by (rule start_process_inv [OF g(1) si b(1) example_slot, of "0x80200000" "[]"]) (use b in auto)
  have st: "kstep dev sink example_stacks (Spawn 1) example_booted s" by (rule kstep.spawn [OF b(1) example_slot s(1)])
  have k: "kernel_inv example_stacks s" "irq_handlers s = irq_handlers example_booted"
    using kstep_steady [OF g st] by (simp_all add: steady_def)
  have "rflags s = 0x202" using s(1) b(4) by (auto simp: start_process_def Let_def bind_eq_Some_conv)
  then have e: "interrupts_enabled s" by (simp add: interrupts_enabled_def RFLAGS_IF_def)
  obtain t where t: "irq_path dev 0 s = Some t" "lives t = lives s" "cur t = (if irq_handlers s ! 0 = Some Timer_handler then next_cur s else cur s)"
    by (rule irq_path_returns [OF g(1) k(1), of 0 dev]) (simp, blast)
  have "pstate (procs s ! 1) = Ready" using s(2-4) by (auto simp: lives_def live_def sched_inv_def procs_ok_def)
  then have "next_cur s = 1" using s(4) by (simp add: next_cur_def next_ready_def upt_rec)
  then have "cur t = 1" "lives t = {0, 1}" "irq_handlers s ! 0 = Some Timer_handler" using t s k(2) b(3) by simp_all
  moreover have "kstep dev sink example_stacks (Irq 0) s t" by (rule kstep.irq [OF _ e t(1)]) simp
  ultimately show thesis using that st s(3,4) by blast
qed

section \<open>Properties\<close>

text \<open>C5: No path through the kernel panics or hangs: in every state the system reaches from boot, each
  IRQ is handled to its end, and so is each system call of a user process when the console takes every byte. The idle
  process is always there to fall back on, only the current process can be marked as running, and every
  ready process has its saved frame on its own kernel stack.\<close>

theorem kernel_never_stuck:
  assumes "kernel_boot lay s0" "(ksteps dev sink lay)\<^sup>*\<^sup>* s0 s"
  shows "(\<forall>n<16. irq_path dev n s \<noteq> None) \<and> (cur s \<noteq> 0 \<and> (\<forall>c b. sink c b \<noteq> None) \<longrightarrow> syscall_path sink s \<noteq> None) \<and>
    {0, cur s} \<subseteq> lives s \<and>
    (\<forall>i<16. i \<noteq> cur s \<longrightarrow> pstate (procs s ! i) \<noteq> Running \<and> (pstate (procs s ! i) = Ready \<longrightarrow> frame_cells (ctx (procs s ! i)) \<subseteq> own lay i))"
proof -
  have g: "layout_ok lay" "kernel_inv lay s" using kernel_sys.reachable_inv [OF assms] by (simp_all add: kernel_good_def)
  have "irq_path dev n s \<noteq> None" if "n < 16" for n using irq_path_returns [OF g that, of dev] by (metis option.distinct(1))
  moreover have "syscall_path sink s \<noteq> None" if "cur s \<noteq> 0" "\<forall>c b. sink c b \<noteq> None"
    using syscall_path_done [OF g that(1), of sink] that(2) by (metis option.distinct(1) putc_ok_def)
  ultimately show ?thesis using g(2) current_live [of lay s] by (auto simp: kernel_inv_def sched_inv_def procs_ok_def parked_def lives_def)
qed

theorem kernel_never_stuck_witness:
  "\<exists>s. (ksteps idle_device example_sink example_stacks)\<^sup>*\<^sup>* example_booted s \<and> cur s = 1 \<and> syscall_path example_sink s \<noteq> None \<and> irq_path idle_device 0 s \<noteq> None"
proof -
  obtain s t where st: "kstep idle_device example_sink example_stacks (Spawn 1) example_booted s" "kstep idle_device example_sink example_stacks (Irq 0) s t" "cur t = 1"
    using example_run by metis
  have r: "(ksteps idle_device example_sink example_stacks)\<^sup>*\<^sup>* example_booted t" by (rule kstep_run [OF kstep_run [OF rtranclp.rtrancl_refl st(1)] st(2)])
  show ?thesis using kernel_never_stuck [OF example_kernel_boots r] r st(3) by (intro exI [of _ t]) (simp add: example_sink_def)
qed

text \<open>C2: Preemption is transparent: over any stretch of a run in which process \<open>i\<close> stays live and neither
  runs nor makes a system call itself, through interrupts, switches, system calls of others, and processes
  being started and killed, its context - every register, flags, instruction and stack pointer - is
  the same at the end as at the beginning. So it resumes exactly where it was interrupted.\<close>

theorem preemption_transparent:
  assumes "kernel_boot lay s0" "(ksteps dev sink lay)\<^sup>*\<^sup>* s0 s" "i \<in> lives s" "undisturbed dev sink lay i s t"
  shows "proc_context t i = proc_context s i"
  using undisturbed_context [OF assms(4) _ assms(3)] kernel_sys.reachable_inv [OF assms(1,2)] by blast

theorem preemption_transparent_witness:
  "\<exists>s t. undisturbed idle_device example_sink example_stacks 0 s t \<and> cur s = 0 \<and> cur t = 1 \<and> parked_context t 0 = context_of s"
proof -
  obtain s t where st: "kstep idle_device example_sink example_stacks (Spawn 1) example_booted s" "kstep idle_device example_sink example_stacks (Irq 0) s t"
    "lives s = {0, 1}" "cur s = 0" "lives t = {0, 1}" "cur t = 1" using example_run by metis
  have r: "(ksteps idle_device example_sink example_stacks)\<^sup>*\<^sup>* example_booted s" by (rule kstep_run [OF rtranclp.rtrancl_refl st(1)])
  have u: "undisturbed idle_device example_sink example_stacks 0 s t" by (rule undisturbed.step [OF undisturbed.none st(2)]) (simp_all add: st)
  have "proc_context t 0 = proc_context s 0" by (rule preemption_transparent [OF example_kernel_boots r _ u]) (simp add: st)
  then show ?thesis using u st by (intro exI [of _ s, OF exI [of _ t]]) (simp add: proc_context_def)
qed

text \<open>C13: Round robin is fair: with the timer's handler on IRQ 0, a live process that does not have the CPU
  gets it at the latest with the 15th timer interrupt, whatever else happens in between, unless it is
  killed.\<close>

theorem bounded_waiting:
  assumes "kernel_boot lay s0" "(ksteps dev sink lay)\<^sup>*\<^sup>* s0 s" "irq_handlers s ! 0 = Some Timer_handler"
    "i \<in> lives s" "cur s \<noteq> i" "waits dev sink lay i s n t"
  shows "n < 15"
proof -
  have "n + dist i t \<le> dist i s" "cur t \<noteq> i" "i < 16" "kernel_good lay t"
    using waits_closer [OF assms(6) _ assms(4,5,3)] kernel_sys.reachable_inv [OF assms(1,2)] by (auto simp: lives_def)
  moreover have "dist i s < 16" by (simp add: dist_def)
  moreover have "0 < dist i t"
    using \<open>cur t \<noteq> i\<close> \<open>i < 16\<close> \<open>kernel_good lay t\<close> by (auto simp: dist_def mod_if kernel_good_def kernel_inv_def sched_inv_def procs_ok_def)
  ultimately show ?thesis by simp
qed

theorem bounded_waiting_witness:
  "\<exists>s. (ksteps idle_device example_sink example_stacks)\<^sup>*\<^sup>* example_booted s \<and> 1 \<in> lives s \<and> cur s = 0 \<and>
     (\<nexists>n t. 15 \<le> n \<and> waits idle_device example_sink example_stacks 1 s n t)"
proof -
  obtain s t where st: "kstep idle_device example_sink example_stacks (Spawn 1) example_booted s" "lives s = {0, 1}" "cur s = 0" "irq_handlers s ! 0 = Some Timer_handler"
    using example_run by metis
  have r: "(ksteps idle_device example_sink example_stacks)\<^sup>*\<^sup>* example_booted s" by (rule kstep_run [OF rtranclp.rtrancl_refl st(1)])
  have "n < 15" if "waits idle_device example_sink example_stacks 1 s n t" for n t
    by (rule bounded_waiting [OF example_kernel_boots r st(4) _ _ that]) (simp_all add: st)
  then show ?thesis using r st by (intro exI [of _ s]) (fastforce dest: leD)
qed

text \<open>C12: A system call of a user process does what its number says and nothing else: \<^verbatim>\<open>SYS_PUTC\<close> gives the low
  byte of RDI to the console, \<^verbatim>\<open>SYS_GETC\<close> takes the oldest buffered character or returns \<open>- 1\<close>, \<^verbatim>\<open>SYS_GETPID\<close>
  returns the pid, an unknown number \<open>- 1\<close>; these return to the caller with only RAX changed. \<^verbatim>\<open>SYS_YIELD\<close> hands
  the CPU to the next ready process and keeps the caller's context, \<^verbatim>\<open>SYS_EXIT\<close> hands it over and removes the
  caller. The contexts of all other processes stay the same.\<close>

theorem syscall_correct:
  assumes "kernel_boot lay s0" "(ksteps dev sink lay)\<^sup>*\<^sup>* s0 s" "cur s \<noteq> 0" "syscall_path sink s = Some t"
  shows "(\<forall>i\<in>lives s - {cur s}. proc_context t i = proc_context s i) \<and>
    lives t = (if rax s = SYS_EXIT then lives s - {cur s} else lives s) \<and>
    cur t = (if rax s = SYS_EXIT \<or> rax s = SYS_YIELD then next_cur s else cur s) \<and>
    (rax s \<noteq> SYS_EXIT \<longrightarrow> proc_context t (cur s) = (context_of s)\<lparr>f_rax :=
       if rax s = SYS_PUTC \<or> rax s = SYS_YIELD then rax s
       else if rax s = SYS_GETC then (case queued (kbd_s s) of [] \<Rightarrow> - 1 | c # _ \<Rightarrow> ucast c)
       else if rax s = SYS_GETPID then ucast (pid (procs s ! cur s)) else - 1\<rparr>) \<and>
    queued (kbd_s t) = (if rax s = SYS_GETC then tl (queued (kbd_s s)) else queued (kbd_s s)) \<and>
    (if rax s = SYS_PUTC \<and> console s then sink (ucast (rdi s)) (io_bus s) = Some (io_bus t) else io_bus t = io_bus s)"
proof -
  have g: "layout_ok lay" "kernel_inv lay s" using kernel_sys.reachable_inv [OF assms(1,2)] by (simp_all add: kernel_good_def)
  have "syscall_done sink lay s t" by (rule syscall_done_step [OF g assms(3,4)])
  then show ?thesis by (simp add: syscall_done_def syscall_result_def current_pid_def proc_at_def)
qed

theorem syscall_correct_witness:
  "\<exists>s t :: kernel. syscall_path example_sink s = Some t \<and> rax s = SYS_PUTC \<and> console s \<and> cur s = 1 \<and> cur t = 1 \<and> context_of t = context_of s \<and>
     io_bus t = io_bus s @ [Out 0x3F8 (ucast (rdi s))]"
proof -
  obtain s t where st: "kstep idle_device example_sink example_stacks (Spawn 1) example_booted s" "kstep idle_device example_sink example_stacks (Irq 0) s t"
    "lives t = {0, 1}" "cur t = 1" using example_run by metis
  let ?u = "t\<lparr>rax := SYS_PUTC, console := True\<rparr>"
  have r: "(ksteps idle_device example_sink example_stacks)\<^sup>*\<^sup>* example_booted t" by (rule kstep_run [OF kstep_run [OF rtranclp.rtrancl_refl st(1)] st(2)])
  have g: "layout_ok example_stacks" "kernel_inv example_stacks t" using kernel_sys.reachable_inv [OF example_kernel_boots r] by (simp_all add: kernel_good_def)
  have c: "context_of ?u = (context_of t)\<lparr>f_rax := SYS_PUTC\<rparr>" by (simp add: context_of_def saved_frame_def)
  have "kstep idle_device example_sink example_stacks Run t ?u"
    by (rule kstep.run) (use g(2) in \<open>simp_all add: kernel_inv_def sched_inv_def on_cpu_def c\<close>)
  then have ru: "(ksteps idle_device example_sink example_stacks)\<^sup>*\<^sup>* example_booted ?u" by (rule kstep_run [OF r])
  have gu: "kernel_inv example_stacks ?u" using kernel_sys.reachable_inv [OF example_kernel_boots ru] by (simp add: kernel_good_def)
  obtain v where v: "syscall_path example_sink ?u = Some v"
    using syscall_path_done [OF g(1) gu, of example_sink] st(4) by (auto simp: putc_ok_def example_sink_def)
  have "cur v = 1 \<and> proc_context v 1 = (context_of ?u)\<lparr>f_rax := SYS_PUTC\<rparr> \<and> io_bus v = io_bus ?u @ [Out 0x3F8 (ucast (rdi ?u))]"
    using syscall_correct [OF example_kernel_boots ru _ v] st(4) by (simp add: example_sink_def)
  then have "cur v = 1" "context_of v = context_of ?u" "io_bus v = io_bus ?u @ [Out 0x3F8 (ucast (rdi ?u))]" by (auto simp: proc_context_def c)
  then show ?thesis using v st(4) by (intro exI [of _ ?u, OF exI [of _ v]]) simp
qed

end
