(* ===== verification/Vmm.thy ===== *)
theory Vmm
  imports Pool
begin

text \<open>
  \<^verbatim>\<open>kernel/src/vmm.rs\<close>: the 4-level page tables in PMM frames. A table is the 512 cells of its
  frame, read and written through the physmap; \<open>translate\<close> is the software walk. An operation
  returns its \<^verbatim>\<open>Result\<close> together with the memory it leaves, since a failing \<^verbatim>\<open>map\<close> keeps the
  intermediate tables it has already linked. \<^verbatim>\<open>invlpg\<close> acts on the TLB only, which is not part
  of the state.
\<close>

section \<open>Constants, flags and errors\<close>

definition LARGE_PAGE :: usize where [kconsts]: "LARGE_PAGE = 2 * 1024 * 1024"

definition PTE_PRESENT :: u64 where [kconsts]: "PTE_PRESENT = push_bit 0 1"
definition PTE_WRITABLE :: u64 where [kconsts]: "PTE_WRITABLE = push_bit 1 1"
definition PTE_USER :: u64 where [kconsts]: "PTE_USER = push_bit 2 1"
definition PTE_HUGE :: u64 where [kconsts]: "PTE_HUGE = push_bit 7 1"

definition ADDR_MASK_4K :: u64 where "ADDR_MASK_4K = 0x000ffffff000"
definition ADDR_MASK_2M :: u64 where "ADDR_MASK_2M = 0x00000fffffe00000"
definition ADDR_MASK_1G :: u64 where "ADDR_MASK_1G = 0x000fffffc0000000"

datatype flags = Flags (bits: u64)

definition F_PRESENT :: flags where "F_PRESENT = Flags PTE_PRESENT"
definition F_WRITABLE :: flags where "F_WRITABLE = Flags PTE_WRITABLE"
definition F_USER :: flags where "F_USER = Flags (push_bit 2 1)"
definition F_HUGE :: flags where "F_HUGE = Flags PTE_HUGE"
definition F_NO_EXEC :: flags where "F_NO_EXEC = Flags (push_bit 63 1)"

definition with_flags :: "flags \<Rightarrow> flags \<Rightarrow> flags" where
  "with_flags a b = Flags (bits a OR bits b)"

datatype map_error = NotAligned | NonCanonical | OutOfRange | AllocFailed | Conflict | NotMapped

datatype page_table = PageTable (root: u32)

section \<open>Addresses\<close>

definition table_va :: "'a mem_state_scheme \<Rightarrow> u32 \<Rightarrow> usize option" where
  "table_va s frame = phys_to_virt s (frame_phys frame)"

definition pt_index :: "usize \<Rightarrow> nat \<Rightarrow> usize" where
  "pt_index va level = drop_bit (12 + 9 * level) va AND 0x1ff"

definition phys_of :: "u64 \<Rightarrow> u32" where
  "phys_of e = ucast (drop_bit 12 e AND 0x000fffffffff)"

definition is_canonical :: "usize \<Rightarrow> bool" where
  "is_canonical va =
     (let sign = drop_bit 47 va AND 1; top = (ucast (drop_bit 48 va) :: u16)
      in if sign = 0 then top = 0 else top = 0xffff)"

text \<open>\<^verbatim>\<open>table_va(frame).add(i)\<close>, the address of an entry.\<close>

definition entry_va :: "'a mem_state_scheme \<Rightarrow> u32 \<Rightarrow> usize \<Rightarrow> usize option" where
  "entry_va s frame i = do { tv \<leftarrow> table_va s frame; Some (tv + 8 * i) }"

definition zero_table :: "'a mem_state_scheme \<Rightarrow> u32 \<Rightarrow> 'a mem_state_scheme option" where
  "zero_table s frame = do { tv \<leftarrow> table_va s frame; Some (zero_range s tv FRAME_SIZE) }"

section \<open>Creation\<close>

definition pt_new :: "pmm \<Rightarrow> (page_table option \<times> pmm) option" where
  "pt_new s = do {
     (r, s) \<leftarrow> alloc_frame s;
     case r of None \<Rightarrow> Some (None, s)
     | Some rt \<Rightarrow> do { s \<leftarrow> zero_table s rt; Some (Some (PageTable rt), s) }
   }"

definition root_phys :: "page_table \<Rightarrow> usize" where
  "root_phys pt = frame_phys (root pt)"

definition activate :: "page_table \<Rightarrow> cpu \<Rightarrow> cpu" where
  "activate pt c = cr3_write c (root_phys pt)"

section \<open>Mapping a page\<close>

text \<open>The loop over \<^verbatim>\<open>(1..=n).rev()\<close> of \<^verbatim>\<open>map\<close>, which links missing tables on the way down.\<close>

fun map_walk :: "pmm \<Rightarrow> u32 \<Rightarrow> usize \<Rightarrow> u64 \<Rightarrow> nat \<Rightarrow> ((map_error + u32) \<times> pmm) option" where
  "map_walk s frame va user 0 = Some (Inr frame, s)"
| "map_walk s frame va user (Suc n) = do {
     a \<leftarrow> entry_va s frame (pt_index va (Suc n));
     if mem s a AND PTE_PRESENT = 0 then do {
       (r, s) \<leftarrow> alloc_frame s;
       case r of
         None \<Rightarrow> Some (Inl AllocFailed, s)
       | Some new \<Rightarrow> do {
           s \<leftarrow> zero_table s new;
           let s = set_cell s a (frame_phys new OR PTE_PRESENT OR PTE_WRITABLE OR user);
           map_walk s new va user n
         }
     }
     else if mem s a AND PTE_HUGE \<noteq> 0 then Some (Inl Conflict, s)
     else do {
       let s = (if user \<noteq> 0 then set_cell s a (mem s a OR user) else s);
       map_walk s (phys_of (mem s a)) va user n
     }
   }"

definition pt_map :: "pmm \<Rightarrow> page_table \<Rightarrow> usize \<Rightarrow> usize \<Rightarrow> flags \<Rightarrow> ((map_error + unit) \<times> pmm) option" where
  "pt_map s pt va pa fl =
     (if \<not> is_canonical va then Some (Inl NonCanonical, s)
      else if va mod FRAME_SIZE \<noteq> 0 \<or> pa mod FRAME_SIZE \<noteq> 0 then Some (Inl NotAligned, s)
      else do {
        ram \<leftarrow> umul (total_frames s) FRAME_SIZE;
        if ram \<le> pa then Some (Inl OutOfRange, s)
        else do {
          let user = bits fl AND PTE_USER;
          (r, s) \<leftarrow> map_walk s (root pt) va user 3;
          case r of
            Inl e \<Rightarrow> Some (Inl e, s)
          | Inr frame \<Rightarrow> do {
              a \<leftarrow> entry_va s frame (pt_index va 0);
              if mem s a AND PTE_PRESENT \<noteq> 0 then Some (Inl Conflict, s)
              else do {
                let s = set_cell s a (pa OR bits fl OR PTE_PRESENT);
                (n, s) \<leftarrow> add_mapping s (ucast (pa div FRAME_SIZE));
                Some (Inr (), s)
              }
            }
        }
      })"

section \<open>Unmapping a page\<close>

fun unmap_walk :: "pmm \<Rightarrow> u32 \<Rightarrow> usize \<Rightarrow> nat \<Rightarrow> (map_error + u32) option" where
  "unmap_walk s frame va 0 = Some (Inr frame)"
| "unmap_walk s frame va (Suc n) = do {
     a \<leftarrow> entry_va s frame (pt_index va (Suc n));
     if mem s a AND PTE_PRESENT = 0 then Some (Inl NotMapped)
     else if mem s a AND PTE_HUGE \<noteq> 0 then Some (Inl Conflict)
     else unmap_walk s (phys_of (mem s a)) va n
   }"

definition pt_unmap :: "pmm \<Rightarrow> page_table \<Rightarrow> usize \<Rightarrow> ((map_error + unit) \<times> pmm) option" where
  "pt_unmap s pt va =
     (if \<not> is_canonical va then Some (Inl NonCanonical, s)
      else if va mod FRAME_SIZE \<noteq> 0 then Some (Inl NotAligned, s)
      else do {
        r \<leftarrow> unmap_walk s (root pt) va 3;
        case r of
          Inl e \<Rightarrow> Some (Inl e, s)
        | Inr frame \<Rightarrow> do {
            a \<leftarrow> entry_va s frame (pt_index va 0);
            if mem s a AND PTE_PRESENT = 0 then Some (Inl NotMapped, s)
            else do {
              let pa = mem s a AND ADDR_MASK_4K;
              let s = set_cell s a 0;
              (n, s) \<leftarrow> remove_mapping s (ucast (pa div FRAME_SIZE));
              Some (Inr (), s)
            }
          }
      })"

section \<open>The software walk\<close>

definition read_entry :: "'a mem_state_scheme \<Rightarrow> u32 \<Rightarrow> usize \<Rightarrow> u64 option" where
  "read_entry s frame i = do { a \<leftarrow> entry_va s frame i; Some (mem s a) }"

definition translate :: "'a mem_state_scheme \<Rightarrow> page_table \<Rightarrow> usize \<Rightarrow> usize option option" where
  "translate s pt va =
     (if \<not> is_canonical va then Some None
      else do {
        e0 \<leftarrow> read_entry s (root pt) (pt_index va 3);
        if e0 AND PTE_PRESENT = 0 then Some None
        else do {
          e1 \<leftarrow> read_entry s (phys_of e0) (pt_index va 2);
          if e1 AND PTE_PRESENT = 0 then Some None
          else if e1 AND PTE_HUGE \<noteq> 0
          then map_option Some (uadd (e1 AND ADDR_MASK_1G) (va AND 0x3fffffff))
          else do {
            e2 \<leftarrow> read_entry s (phys_of e1) (pt_index va 1);
            if e2 AND PTE_PRESENT = 0 then Some None
            else if e2 AND PTE_HUGE \<noteq> 0
            then map_option Some (uadd (e2 AND ADDR_MASK_2M) (va AND 0x1fffff))
            else do {
              e3 \<leftarrow> read_entry s (phys_of e2) (pt_index va 0);
              if e3 AND PTE_PRESENT = 0 then Some None
              else map_option Some (uadd (e3 AND ADDR_MASK_4K) (va AND 0xfff))
            }
          }
        }
      })"

section \<open>The kernel windows\<close>

text \<open>The loop over \<^verbatim>\<open>(1..=n).rev()\<close> of \<^verbatim>\<open>map_window\<close>, indexing with \<^verbatim>\<open>level + 1\<close>.\<close>

fun window_walk :: "pmm \<Rightarrow> u32 \<Rightarrow> usize \<Rightarrow> nat \<Rightarrow> ((map_error + u32) \<times> pmm) option" where
  "window_walk s frame va 0 = Some (Inr frame, s)"
| "window_walk s frame va (Suc n) = do {
     a \<leftarrow> entry_va s frame (pt_index va (Suc n + 1));
     if mem s a AND PTE_PRESENT = 0 then do {
       (r, s) \<leftarrow> alloc_frame s;
       case r of
         None \<Rightarrow> Some (Inl AllocFailed, s)
       | Some new \<Rightarrow> do {
           s \<leftarrow> zero_table s new;
           let s = set_cell s a (frame_phys new OR PTE_PRESENT OR PTE_WRITABLE);
           window_walk s new va n
         }
     }
     else if mem s a AND PTE_HUGE \<noteq> 0 then Some (Inl Conflict, s)
     else window_walk s (phys_of (mem s a)) va n
   }"

definition window_step :: "pmm \<Rightarrow> u32 \<Rightarrow> usize \<Rightarrow> usize \<Rightarrow> u64 \<Rightarrow> ((map_error + unit) \<times> pmm) option" where
  "window_step s rt va pa leaf = do {
     (r, s) \<leftarrow> window_walk s rt va 2;
     case r of
       Inl e \<Rightarrow> Some (Inl e, s)
     | Inr frame \<Rightarrow> do {
         a \<leftarrow> entry_va s frame (pt_index va 1);
         if mem s a AND PTE_PRESENT \<noteq> 0 then Some (Inl Conflict, s)
         else Some (Inr (), set_cell s a (pa OR leaf))
       }
   }"

text \<open>The \<^verbatim>\<open>while\<close> loop; each round moves \<open>va\<close> up by a large page, or panics on overflow.\<close>

function window_loop :: "pmm \<Rightarrow> u32 \<Rightarrow> usize \<Rightarrow> usize \<Rightarrow> usize \<Rightarrow> u64 \<Rightarrow> ((map_error + unit) \<times> pmm) option" where
  "window_loop s rt va pa e leaf =
     (if va < e then
        case window_step s rt va pa leaf of
          None \<Rightarrow> None
        | Some (Inl err, s) \<Rightarrow> Some (Inl err, s)
        | Some (Inr u, s) \<Rightarrow>
            (case (uadd va LARGE_PAGE, uadd pa LARGE_PAGE) of
               (Some va', Some pa') \<Rightarrow> window_loop s rt va' pa' e leaf
             | _ \<Rightarrow> None)
      else Some (Inr (), s))"
  by pat_completeness auto
termination
  by (relation "measure (\<lambda>(s, rt, va, pa, e, leaf). unat e - unat va)")
    (auto simp: uadd_eq_Some eq_commute [of "Some _"] word_less_nat_alt unat_add_no_wrap kconsts)

declare window_loop.simps [simp del]

definition map_window :: "pmm \<Rightarrow> page_table \<Rightarrow> usize \<Rightarrow> usize \<Rightarrow> usize \<Rightarrow> flags \<Rightarrow>
    ((map_error + unit) \<times> pmm) option" where
  "map_window s pt base_va base_pa nbytes fl =
     (if nbytes = 0 then Some (Inr (), s)
      else if base_va mod LARGE_PAGE \<noteq> 0 \<or> base_pa mod LARGE_PAGE \<noteq> 0 \<or> nbytes mod LARGE_PAGE \<noteq> 0
      then Some (Inl NotAligned, s)
      else do {
        let leaf = with_flags (with_flags fl F_PRESENT) F_HUGE;
        e \<leftarrow> uadd base_va nbytes;
        window_loop s (root pt) base_va base_pa e (bits leaf)
      })"

definition pt_new_kernel :: "pmm \<Rightarrow> usize \<Rightarrow> (page_table option \<times> pmm) option" where
  "pt_new_kernel s ram_top = do {
     (r, s) \<leftarrow> alloc_frame s;
     case r of
       None \<Rightarrow> Some (None, s)
     | Some rt \<Rightarrow> do {
         s \<leftarrow> zero_table s rt;
         window \<leftarrow> align_up ram_top LARGE_PAGE;
         let kern = with_flags F_PRESENT F_WRITABLE;
         (r, s) \<leftarrow> map_window s (PageTable rt) 0 0 window kern;
         case r of
           Inl e \<Rightarrow> Some (None, s)
         | Inr u \<Rightarrow> do {
             b \<leftarrow> physmap_base s;
             (r, s) \<leftarrow> map_window s (PageTable rt) b 0 window kern;
             case r of
               Inl e \<Rightarrow> Some (None, s)
             | Inr u \<Rightarrow> Some (Some (PageTable rt), s)
           }
       }
   }"

end
