(* ===== verification/Vmm_Tree.thy ===== *)
theory Vmm_Tree
  imports Vmm
begin

text \<open>
  The page tables of \<^verbatim>\<open>kernel/src/vmm.rs\<close> as a tree in memory: which frames are tables, what an
  address resolves to, and how changing one entry changes both. The bit-level facts about entries
  and indices are here too.
\<close>

section \<open>Bits of entries and addresses\<close>

lemma present_iff: "e AND PTE_PRESENT = 0 \<longleftrightarrow> \<not> bit e 0"
  unfolding PTE_PRESENT_def and_flag by simp

lemma huge_iff: "e AND PTE_HUGE = 0 \<longleftrightarrow> \<not> bit e 7"
  unfolding PTE_HUGE_def and_flag by simp

lemma low9: "(0x1ff :: u64) = mask 9" by (simp add: mask_eq_exp_minus_1)

lemma bit_pt_index: "bit (pt_index va l) n \<longleftrightarrow> n < 9 \<and> bit va (12 + 9 * l + n)"
  by (auto simp: pt_index_def low9 bit_simps)

lemma pt_index_less [simp]: "pt_index va l < 512"
proof -
  have "pt_index va l \<le> 0x1ff" unfolding pt_index_def by (rule word_and_le1)
  then show ?thesis by (simp add: word_le_nat_alt word_less_nat_alt)
qed

lemma phys_of_bits: "bit (phys_of e) n \<longleftrightarrow> n < 32 \<and> bit e (12 + n)"
proof -
  have m: "(0x000fffffffff :: u64) = mask 36" by (simp add: mask_eq_exp_minus_1)
  show ?thesis unfolding phys_of_def m by (auto simp: bit_simps)
qed

lemma frame_phys_push: "frame_phys f = push_bit 12 (ucast f)"
  by (simp add: frame_phys_def FRAME_SIZE_def push_bit_eq_mult)

lemma bit_frame_phys: "bit (frame_phys f) n \<longleftrightarrow> 12 \<le> n \<and> bit f (n - 12)"
  by (auto simp: frame_phys_push bit_simps dest: bit_imp_le_length)

text \<open>The value \<^verbatim>\<open>map\<close> and \<^verbatim>\<open>map_window\<close> store for a new table.\<close>

lemma table_entry:
  assumes "user \<in> {0, 4}"
  shows "bit (frame_phys f OR PTE_PRESENT OR PTE_WRITABLE OR user) 0"
    "\<not> bit (frame_phys f OR PTE_PRESENT OR PTE_WRITABLE OR user) 7"
    "phys_of (frame_phys f OR PTE_PRESENT OR PTE_WRITABLE OR user) = f"
proof -
  have u: "bit user n \<longleftrightarrow> user = 4 \<and> n = 2" for n
    using assms bit_push_bit_iff [of 2 "1 :: u64" n] by (auto simp: push_bit_eq_mult bit_simps)
  show "bit (frame_phys f OR PTE_PRESENT OR PTE_WRITABLE OR user) 0"
    "\<not> bit (frame_phys f OR PTE_PRESENT OR PTE_WRITABLE OR user) 7"
    by (simp_all add: PTE_PRESENT_def PTE_WRITABLE_def bit_or_iff bit_frame_phys u bit_simps)
  show "phys_of (frame_phys f OR PTE_PRESENT OR PTE_WRITABLE OR user) = f"
    by (rule bit_word_eqI)
      (auto simp: phys_of_bits bit_or_iff bit_frame_phys u PTE_PRESENT_def PTE_WRITABLE_def bit_simps)
qed

text \<open>Promoting an entry to USER changes neither its kind nor its target.\<close>

lemma promoted_entry:
  assumes "user \<in> {0, 4}"
  shows "bit (e OR user) 0 \<longleftrightarrow> bit e 0" "bit (e OR user) 7 \<longleftrightarrow> bit e 7" "phys_of (e OR user) = phys_of e"
proof -
  have u: "bit user n \<longleftrightarrow> user = 4 \<and> n = 2" for n
    using assms bit_push_bit_iff [of 2 "1 :: u64" n] by (auto simp: push_bit_eq_mult bit_simps)
  show "bit (e OR user) 0 \<longleftrightarrow> bit e 0" "bit (e OR user) 7 \<longleftrightarrow> bit e 7" by (simp_all add: bit_or_iff u)
  show "phys_of (e OR user) = phys_of e" by (rule bit_word_eqI) (auto simp: phys_of_bits bit_or_iff u)
qed

section \<open>Tables as a tree\<close>

text \<open>
  \<open>entry s f i\<close> is entry \<open>i\<close> of the table in frame \<open>f\<close>; \<open>child\<close> the table it links, if it is
  present and not a huge page. \<open>resolve s f va n\<close> walks down from the level-\<open>n\<close> table \<open>f\<close> to
  the entry that maps \<open>va\<close> and the level it sits at; \<open>tabs s f n\<close> are the frames of the tables
  below, and \<open>tree_ok s f n\<close> says that every link is writable and no table is linked twice.
\<close>

definition entry :: "'a mem_state_scheme \<Rightarrow> u32 \<Rightarrow> u64 \<Rightarrow> u64" where
  "entry s f i = mem s (frame_va s f + 8 * i)"

definition child :: "'a mem_state_scheme \<Rightarrow> u32 \<Rightarrow> u64 \<Rightarrow> u32 option" where
  "child s f i = (if bit (entry s f i) 0 \<and> \<not> bit (entry s f i) 7 then Some (phys_of (entry s f i)) else None)"

fun resolve :: "'a mem_state_scheme \<Rightarrow> u32 \<Rightarrow> u64 \<Rightarrow> nat \<Rightarrow> (u64 \<times> nat) option" where
  "resolve s f va 0 = (if bit (entry s f (pt_index va 0)) 0 then Some (entry s f (pt_index va 0), 0) else None)"
| "resolve s f va (Suc n) =
     (case child s f (pt_index va (Suc n)) of
        Some c \<Rightarrow> resolve s c va n
      | None \<Rightarrow> if bit (entry s f (pt_index va (Suc n))) 0 then Some (entry s f (pt_index va (Suc n)), Suc n) else None)"

fun tabs :: "'a mem_state_scheme \<Rightarrow> u32 \<Rightarrow> nat \<Rightarrow> u32 set" where
  "tabs s f 0 = {f}"
| "tabs s f (Suc n) = insert f (\<Union>i\<in>{i. i < 512}. case child s f i of None \<Rightarrow> {} | Some c \<Rightarrow> tabs s c n)"

text \<open>The level-0 tables among them.\<close>

fun pts :: "'a mem_state_scheme \<Rightarrow> u32 \<Rightarrow> nat \<Rightarrow> u32 set" where
  "pts s f 0 = {f}"
| "pts s f (Suc n) = (\<Union>i\<in>{i. i < 512}. case child s f i of None \<Rightarrow> {} | Some c \<Rightarrow> pts s c n)"

fun tree_ok :: "'a mem_state_scheme \<Rightarrow> u32 \<Rightarrow> nat \<Rightarrow> bool" where
  "tree_ok s f 0 \<longleftrightarrow> True"
| "tree_ok s f (Suc n) \<longleftrightarrow> (\<forall>i<512. \<forall>c. child s f i = Some c \<longrightarrow> bit (entry s f i) 1 \<and> tree_ok s c n \<and> f \<notin> tabs s c n \<and>
     (\<forall>j<512. \<forall>d. j \<noteq> i \<longrightarrow> child s f j = Some d \<longrightarrow> tabs s c n \<inter> tabs s d n = {}))"

text \<open>
  What ring 3 may use: the processor lets it read and write a page if every entry of the walk, down to the leaf, is
  present, writable and a user entry. \<open>user_links s f va n k\<close> says this of the first \<open>k\<close> links only.
\<close>

definition user_entry :: "u64 \<Rightarrow> bool" where
  "user_entry e \<longleftrightarrow> bit e 0 \<and> bit e 1 \<and> bit e 2"

fun user_page :: "'a mem_state_scheme \<Rightarrow> u32 \<Rightarrow> u64 \<Rightarrow> nat \<Rightarrow> bool" where
  "user_page s f va 0 \<longleftrightarrow> user_entry (entry s f (pt_index va 0))"
| "user_page s f va (Suc n) \<longleftrightarrow> user_entry (entry s f (pt_index va (Suc n))) \<and>
     (case child s f (pt_index va (Suc n)) of Some c \<Rightarrow> user_page s c va n | None \<Rightarrow> True)"

fun user_links :: "'a mem_state_scheme \<Rightarrow> u32 \<Rightarrow> u64 \<Rightarrow> nat \<Rightarrow> nat \<Rightarrow> bool" where
  "user_links s f va n 0 \<longleftrightarrow> True"
| "user_links s f va n (Suc k) \<longleftrightarrow> user_entry (entry s f (pt_index va n)) \<and>
     (case child s f (pt_index va n) of Some c \<Rightarrow> user_links s c va (n - 1) k | None \<Rightarrow> False)"

definition same_tables :: "'a mem_state_scheme \<Rightarrow> 'a mem_state_scheme \<Rightarrow> u32 set \<Rightarrow> bool" where
  "same_tables s s' F \<longleftrightarrow> (\<forall>f\<in>F. \<forall>i<512. entry s' f i = entry s f i)"

lemma child_cong: "entry s' f i = entry s f i \<Longrightarrow> child s' f i = child s f i"
  by (simp add: child_def)

lemma child_eq_Some: "child s f i = Some c \<longleftrightarrow> bit (entry s f i) 0 \<and> \<not> bit (entry s f i) 7 \<and> c = phys_of (entry s f i)"
  by (auto simp: child_def)

lemma self_tab [simp]: "f \<in> tabs s f n"
  by (cases n) auto

lemma tabs_child: "child s f i = Some c \<Longrightarrow> i < 512 \<Longrightarrow> t \<in> tabs s c n \<Longrightarrow> t \<in> tabs s f (Suc n)"
  by force

lemma tabs_SucE:
  assumes "t \<in> tabs s f (Suc n)"
  obtains "t = f" | i c where "i < 512" "child s f i = Some c" "t \<in> tabs s c n"
  using assms by (auto split: option.splits)

lemma tree_okD:
  assumes "tree_ok s f (Suc n)" "child s f i = Some c" "i < 512"
  shows "tree_ok s c n" "f \<notin> tabs s c n"
    "bit (entry s f i) 1" "j < 512 \<Longrightarrow> j \<noteq> i \<Longrightarrow> child s f j = Some d \<Longrightarrow> tabs s c n \<inter> tabs s d n = {}"
  using assms by simp_all

text \<open>What is below a table depends on the entries below it only.\<close>

lemma same_tables_tree:
  assumes "same_tables s s' (tabs s f n)"
  shows "tabs s' f n = tabs s f n \<and> pts s' f n = pts s f n \<and> tree_ok s' f n = tree_ok s f n \<and>
    (\<forall>va. resolve s' f va n = resolve s f va n \<and> user_page s' f va n = user_page s f va n)"
  using assms
proof (induction n arbitrary: f)
  case 0
  then show ?case by (simp add: same_tables_def)
next
  case (Suc n)
  have e: "entry s' f i = entry s f i" if "i < 512" for i using Suc.prems that by (simp add: same_tables_def)
  then have c: "child s' f i = child s f i" if "i < 512" for i using that by (simp add: child_def)
  have ih: "tabs s' d n = tabs s d n" "tree_ok s' d n = tree_ok s d n" "resolve s' d va n = resolve s d va n" "pts s' d n = pts s d n"
      "user_page s' d va n = user_page s d va n"
    if "i < 512" "child s f i = Some d" for i d va
  proof -
    have "tabs s d n \<subseteq> tabs s f (Suc n)" using tabs_child [OF that(2,1)] by blast
    then have "same_tables s s' (tabs s d n)" using Suc.prems unfolding same_tables_def by blast
    from Suc.IH [OF this] show "tabs s' d n = tabs s d n" "tree_ok s' d n = tree_ok s d n"
      "resolve s' d va n = resolve s d va n" "pts s' d n = pts s d n" "user_page s' d va n = user_page s d va n" by blast+
  qed
  have "tabs s' f (Suc n) = tabs s f (Suc n)" using ih(1) c by (auto split: option.splits)
  moreover have "pts s' f (Suc n) = pts s f (Suc n)" using ih(4) c by (auto split: option.splits)
  moreover have "tree_ok s' f (Suc n) = tree_ok s f (Suc n)" using ih(1,2) c e by simp
  moreover have "resolve s' f va (Suc n) = resolve s f va (Suc n)" "user_page s' f va (Suc n) = user_page s f va (Suc n)" for va
    using ih(3,5) [of "pt_index va (Suc n)"] c e by (auto split: option.splits)
  ultimately show ?case by blast
qed

text \<open>Replacing what entry \<open>i\<close> of \<open>f\<close> links.\<close>

lemma tree_update:
  assumes ok: "tree_ok s f (Suc n)" and i: "i < 512"
    and e: "\<And>j. j < 512 \<Longrightarrow> j \<noteq> i \<Longrightarrow> entry s' f j = entry s f j"
    and others: "\<And>j d. j < 512 \<Longrightarrow> j \<noteq> i \<Longrightarrow> child s f j = Some d \<Longrightarrow> same_tables s s' (tabs s d n)"
    and new: "\<And>c. child s' f i = Some c \<Longrightarrow> bit (entry s' f i) 1 \<and> tree_ok s' c n \<and> f \<notin> tabs s' c n"
    and apart: "\<And>c j d. child s' f i = Some c \<Longrightarrow> j < 512 \<Longrightarrow> j \<noteq> i \<Longrightarrow> child s f j = Some d \<Longrightarrow> tabs s' c n \<inter> tabs s d n = {}"
  shows "tree_ok s' f (Suc n)"
    and "pt_index va (Suc n) \<noteq> i \<Longrightarrow> resolve s' f va (Suc n) = resolve s f va (Suc n) \<and> user_page s' f va (Suc n) = user_page s f va (Suc n)"
    and "t \<in> tabs s' f (Suc n) \<Longrightarrow> t \<in> tabs s f (Suc n) \<or> (\<exists>c. child s' f i = Some c \<and> t \<in> tabs s' c n)"
proof -
  have c: "child s' f j = child s f j" if "j < 512" "j \<noteq> i" for j using e that by (simp add: child_def)
  have t: "tabs s' d n = tabs s d n" "tree_ok s' d n = tree_ok s d n" "resolve s' d v n = resolve s d v n" "user_page s' d v n = user_page s d v n"
    if "j < 512" "j \<noteq> i" "child s f j = Some d" for j d v
    using same_tables_tree [OF others [OF that]] by auto
  have old: "bit (entry s f j) 1 \<and> tree_ok s d n \<and> f \<notin> tabs s d n" if "j < 512" "child s f j = Some d" for j d
    using ok that by auto
  have old2: "tabs s d n \<inter> tabs s d' n = {}"
    if "j < 512" "child s f j = Some d" "j' < 512" "child s f j' = Some d'" "j \<noteq> j'" for j d j' d'
    using ok that by auto
  show "tree_ok s' f (Suc n)"
    unfolding tree_ok.simps
  proof (intro allI impI)
    fix j d assume j: "j < 512" "child s' f j = Some d"
    show "bit (entry s' f j) 1 \<and> tree_ok s' d n \<and> f \<notin> tabs s' d n \<and>
      (\<forall>j'<512. \<forall>d'. j' \<noteq> j \<longrightarrow> child s' f j' = Some d' \<longrightarrow> tabs s' d n \<inter> tabs s' d' n = {})"
    proof (cases "j = i")
      case True
      then show ?thesis using new [of d] apart [of d] j c t(1) by auto
    next
      case False
      then have d: "child s f j = Some d" using c j by simp
      have "tabs s' d n \<inter> tabs s' d' n = {}" if "j' < 512" "j' \<noteq> j" "child s' f j' = Some d'" for j' d'
      proof (cases "j' = i")
        case True
        with that False apart [of d' j d] j d t(1) [OF j(1) False d] show ?thesis by auto
      next
        case j': False
        with that c have "child s f j' = Some d'" by simp
        with old2 [OF j(1) d that(1)] t(1) [OF j(1) False d] t(1) [OF that(1) j'] that show ?thesis by auto
      qed
      then show ?thesis using old [OF j(1) d] t(1,2) [OF j(1) False d] e [OF j(1) False] by auto
    qed
  qed
  show "resolve s' f va (Suc n) = resolve s f va (Suc n) \<and> user_page s' f va (Suc n) = user_page s f va (Suc n)" if "pt_index va (Suc n) \<noteq> i"
    using that c [of "pt_index va (Suc n)"] e [of "pt_index va (Suc n)"] t(3,4) [of "pt_index va (Suc n)"]
    by (auto split: option.splits)
  show "t \<in> tabs s f (Suc n) \<or> (\<exists>c. child s' f i = Some c \<and> t \<in> tabs s' c n)" if "t \<in> tabs s' f (Suc n)"
    using that
  proof (cases rule: tabs_SucE)
    case (2 j d)
    then show ?thesis using c t(1) by (metis tabs_child)
  qed simp
qed

text \<open>The table that the walk for \<open>va\<close> reaches \<open>k\<close> levels down from a level-\<open>n\<close> table.\<close>

fun below :: "'a mem_state_scheme \<Rightarrow> u32 \<Rightarrow> u64 \<Rightarrow> nat \<Rightarrow> nat \<Rightarrow> u32 option" where
  "below s f va n 0 = Some f"
| "below s f va n (Suc k) = (case child s f (pt_index va n) of None \<Rightarrow> None | Some c \<Rightarrow> below s c va (n - 1) k)"

definition same_path :: "u64 \<Rightarrow> u64 \<Rightarrow> nat \<Rightarrow> nat \<Rightarrow> bool" where
  "same_path va va' b n \<longleftrightarrow> (\<forall>l. b \<le> l \<and> l \<le> n \<longrightarrow> pt_index va' l = pt_index va l)"

definition leaf_at :: "nat \<Rightarrow> u64 \<Rightarrow> bool" where
  "leaf_at b e \<longleftrightarrow> b = 0 \<or> \<not> bit e 0 \<or> bit e 7"

lemma same_path_Suc: "b \<le> n \<Longrightarrow> same_path va va' b (Suc n) \<longleftrightarrow> pt_index va' (Suc n) = pt_index va (Suc n) \<and> same_path va va' b n"
  unfolding same_path_def by (metis le_Suc_eq le_SucI order_refl)

lemma below_tab: "below s f va (b + k) k = Some t \<Longrightarrow> t \<in> tabs s f (b + k)"
proof (induction k arbitrary: f)
  case (Suc k)
  then obtain c where c: "child s f (pt_index va (Suc (b + k))) = Some c" "below s c va (b + k) k = Some t"
    by (auto split: option.splits)
  then show ?case using tabs_child [OF c(1) _ Suc.IH [OF c(2)]] by simp
qed simp

lemma below_resolve: "below s f va (b + k) k = Some t \<Longrightarrow> resolve s f va (b + k) = resolve s t va b"
  by (induction k arbitrary: f) (auto split: option.splits)

lemma frame_va_set_cell [simp]: "frame_va (set_cell s a x) f = frame_va s f"
  by (simp add: frame_va_def set_cell_def)

lemma entry_set_cell:
  assumes "i < 512" "j < 512"
  shows "entry (set_cell s (frame_va s f + 8 * i) x) g j = (if g = f \<and> j = i then x else entry s g j)"
  using cell_inject [OF assms(2,1), of "phys_map_base s" g f] by (auto simp: entry_def frame_va_def set_cell_def)

text \<open>Changing the leaf entry for \<open>va\<close> at level \<open>b\<close> changes the resolution of the addresses on
  the same path, and nothing else.\<close>

lemma set_leaf:
  assumes "tree_ok s f (b + k)" "below s f va (b + k) k = Some t"
    "leaf_at b (entry s t (pt_index va b))" "leaf_at b x"
    and s': "s' = set_cell s (frame_va s t + 8 * pt_index va b) x"
  shows "tabs s' f (b + k) = tabs s f (b + k) \<and> pts s' f (b + k) = pts s f (b + k) \<and> tree_ok s' f (b + k) \<and>
    (\<forall>va'. resolve s' f va' (b + k) =
      (if same_path va va' b (b + k) then if bit x 0 then Some (x, b) else None else resolve s f va' (b + k)) \<and>
      user_page s' f va' (b + k) = (if same_path va va' b (b + k) then user_links s f va (b + k) k \<and> user_entry x else user_page s f va' (b + k)))"
  using assms(1,2)
proof (induction k arbitrary: f)
  case 0
  then have t: "t = f" by simp
  have e: "entry s' f j = (if j = pt_index va b then x else entry s f j)" if "j < 512" for j
    using that t by (simp add: s' entry_set_cell)
  show ?case
  proof (cases b)
    case 0
    then show ?thesis using e [of "pt_index _ b"] by (auto simp: same_path_def)
  next
    case (Suc m)
    have n: "child s' f (pt_index va b) = None" "child s f (pt_index va b) = None"
      using e [of "pt_index va b"] assms(3,4) t Suc by (auto simp: child_def leaf_at_def)
    have other: "same_tables s s' (tabs s d m)" if "j < 512" "child s f j = Some d" for j d
      using 0 Suc that t by (auto simp: same_tables_def s' entry_set_cell)
    have ok: "tree_ok s f (Suc m)" using 0 Suc by simp
    note u = tree_update [OF ok, where i = "pt_index va b" and s' = s']
    have "tree_ok s' f (Suc m)" by (rule u(1)) (use e other n in auto)
    moreover have r: "resolve s' f va' (Suc m) = resolve s f va' (Suc m) \<and> user_page s' f va' (Suc m) = user_page s f va' (Suc m)" if "pt_index va' (Suc m) \<noteq> pt_index va b" for va'
      by (rule u(2)) (use e other n that in auto)
    moreover have "child s' f j = child s f j" if "j < 512" for j
      using e [OF that] n by (cases "j = pt_index va b") (auto simp: child_def)
    then have "tabs s' f (Suc m) = tabs s f (Suc m)" "pts s' f (Suc m) = pts s f (Suc m)"
      using same_tables_tree [OF other] by (auto split: option.splits)
    moreover have "resolve s' f va' (Suc m) = (if bit x 0 then Some (x, b) else None) \<and> user_page s' f va' (Suc m) = user_entry x"
      if "pt_index va' (Suc m) = pt_index va b" for va'
      using that n(1) e [of "pt_index va b"] Suc by simp
    moreover have "same_path va va' b (b + 0) \<longleftrightarrow> pt_index va' (Suc m) = pt_index va b" for va'
      using Suc by (auto simp: same_path_def)
    ultimately show ?thesis using Suc by (simp del: tabs.simps pts.simps tree_ok.simps resolve.simps user_page.simps)
  qed
next
  case (Suc k)
  let ?i = "pt_index va (Suc (b + k))"
  obtain c where c: "child s f ?i = Some c" "below s c va (b + k) k = Some t"
    using Suc.prems(2) by (auto split: option.splits)
  have ok: "tree_ok s f (Suc (b + k))" using Suc.prems(1) by simp
  note okc = tree_okD [OF ok c(1) pt_index_less]
  note ih = Suc.IH [OF okc(1) c(2)]
  have tc: "t \<in> tabs s c (b + k)" using below_tab c(2) by blast
  have same: "entry s' g j = entry s g j" if "g \<noteq> t" "j < 512" for g j
    using that by (simp add: s' entry_set_cell)
  have other: "same_tables s s' (tabs s d (b + k))" if "j < 512" "j \<noteq> ?i" "child s f j = Some d" for j d
  proof -
    have "tabs s c (b + k) \<inter> tabs s d (b + k) = {}" using okc(4) that by blast
    then have "g \<noteq> t" if "g \<in> tabs s d (b + k)" for g using tc that by blast
    then show ?thesis using same by (simp add: same_tables_def)
  qed
  have ef: "entry s' f j = entry s f j" if "j < 512" for j using same tc okc(2) that by metis
  then have cf: "child s' f j = child s f j" if "j < 512" for j using that by (simp add: child_def)
  have ap: "tabs s' c (b + k) \<inter> tabs s d (b + k) = {}" if "j < 512" "j \<noteq> ?i" "child s f j = Some d" for j d
    using okc(4) that ih by blast
  note u = tree_update [OF ok, where i = ?i and s' = s']
  have "tree_ok s' f (Suc (b + k))" by (rule u(1)) (use ef other cf c(1) ih okc(2,3) ap in auto)
  moreover have "resolve s' f va' (Suc (b + k)) = resolve s f va' (Suc (b + k)) \<and> user_page s' f va' (Suc (b + k)) = user_page s f va' (Suc (b + k))" if "pt_index va' (Suc (b + k)) \<noteq> ?i" for va'
    by (rule u(2)) (use ef other cf c(1) ih okc(2,3) ap that in auto)
  moreover have "tabs s' f (Suc (b + k)) = tabs s f (Suc (b + k))" "pts s' f (Suc (b + k)) = pts s f (Suc (b + k))"
  proof -
    have "tabs s' d (b + k) = tabs s d (b + k)" "pts s' d (b + k) = pts s d (b + k)" if "j < 512" "child s f j = Some d" for j d
      using that same_tables_tree [OF other] ih c(1) by (cases "j = ?i"; auto)+
    then show "tabs s' f (Suc (b + k)) = tabs s f (Suc (b + k))" "pts s' f (Suc (b + k)) = pts s f (Suc (b + k))"
      using cf by (auto split: option.splits)
  qed
  moreover have "resolve s' f va' (Suc (b + k)) = resolve s' c va' (b + k)" "resolve s f va' (Suc (b + k)) = resolve s c va' (b + k)"
    "user_page s' f va' (Suc (b + k)) \<longleftrightarrow> user_entry (entry s f ?i) \<and> user_page s' c va' (b + k)"
    "user_page s f va' (Suc (b + k)) \<longleftrightarrow> user_entry (entry s f ?i) \<and> user_page s c va' (b + k)"
    if "pt_index va' (Suc (b + k)) = ?i" for va'
    using that c(1) cf [of ?i] ef [of ?i] by simp_all
  moreover have "user_links s f va (Suc (b + k)) (Suc k) \<longleftrightarrow> user_entry (entry s f ?i) \<and> user_links s c va (b + k) k" using c(1) by simp
  ultimately show ?case using ih
    by (simp add: same_path_Suc del: tabs.simps pts.simps tree_ok.simps resolve.simps user_page.simps user_links.simps) metis
qed

end
