(* ===== verification/Vmm_Grow.thy ===== *)
theory Vmm_Grow
  imports Vmm_Tree
begin

text \<open>
  Growing the tree: the walks of \<^verbatim>\<open>map\<close> and \<^verbatim>\<open>map_window\<close> link zeroed pool frames on the way
  down. They never panic, keep the tree well formed, change no translation and touch no frame but
  tables and the frames they take from the pool.
\<close>

section \<open>Writing to tables\<close>

text \<open>Only the cells of frames in \<open>F\<close> differ.\<close>

definition writes :: "pmm \<Rightarrow> pmm \<Rightarrow> u32 set \<Rightarrow> bool" where
  "writes s s' F \<longleftrightarrow> s' = s\<lparr>mem := mem s'\<rparr> \<and> same_tables s s' (Collect (in_table s) - F)"

lemma next_of_entry: "next_of s f = ucast (entry s f 0)"
  by (simp add: next_of_def read_u32_def entry_def)

lemma writes_simps:
  assumes "writes s s' F"
  shows "phys_map_base s' = phys_map_base s" "ft_base s' = ft_base s" "ft_num s' = ft_num s" "infos s' = infos s"
    "shards s' = shards s" "global s' = global s" "in_table s' = in_table s" "free_frames s' = free_frames s"
    "table_ok s' = table_ok s"
proof -
  have e: "s' = s\<lparr>mem := mem s'\<rparr>" using assms by (simp add: writes_def)
  show "phys_map_base s' = phys_map_base s" "ft_base s' = ft_base s" "ft_num s' = ft_num s" "infos s' = infos s"
    "shards s' = shards s" "global s' = global s"
    by (subst e; simp)+
  then show "in_table s' = in_table s" "free_frames s' = free_frames s" "table_ok s' = table_ok s"
    by (auto simp: in_table_def free_frames_def table_ok_def physmap_covers_def)
qed

lemma pmm_inv_writes:
  assumes inv: "pmm_inv s l g" and w: "writes s s' F" and F: "F \<inter> free_frames s = {}"
  shows "pmm_inv s' l g"
proof -
  note w' = writes_simps [OF w]
  have n: "next_of s' f = next_of s f" if "f \<in> free_frames s" for f
  proof -
    have "f \<in> Collect (in_table s) - F" using that F by (auto simp: free_frames_def)
    then have "entry s' f 0 = entry s f 0" using w unfolding writes_def same_tables_def by simp
    then show ?thesis by (simp add: next_of_entry)
  qed
  have "shard_ok s' sh xs = shard_ok s sh xs" if "set xs \<subseteq> free_frames s" for sh xs
    using that n by (intro shard_ok_cong) auto
  note this [simp]
  note a = inv [unfolded pmm_inv_def]
  have m: "set (concat (l # replicate 63 []) @ g) = free_frames s" by (rule alloc_inv_mem [OF a])
  have "set ((l # replicate 63 []) ! i) \<subseteq> free_frames s" if "i < 64" for i
    using that m by (cases i) auto
  moreover have "set g \<subseteq> free_frames s" using m by auto
  ultimately show ?thesis
    unfolding pmm_inv_def using a w' unfolding alloc_inv_def by simp
qed

lemma entry_va_SomeI [panic_free]:
  "table_ok s \<Longrightarrow> in_table s f \<Longrightarrow> entry_va s f i = Some (frame_va s f + 8 * i)"
  by (simp add: entry_va_def table_va_def panic_free)

lemma writes_set_cell:
  assumes "i < 512"
  shows "writes s (set_cell s (frame_va s f + 8 * i) x) {f}"
  unfolding writes_def same_tables_def by (simp add: entry_set_cell [OF assms]) (simp add: set_cell_def)

lemma unat_frame_va:
  assumes "table_ok s" "in_table s f"
  shows "unat (frame_va s f) = unat (phys_map_base s) + unat f * 4096"
    "i < 512 \<Longrightarrow> unat (frame_va s f + 8 * i) = unat (phys_map_base s) + unat f * 4096 + 8 * unat i"
proof -
  have c: "unat (phys_map_base s) + unat (ft_num s) * 4096 \<le> 2 ^ 64" "unat f < unat (ft_num s)"
    using assms by (simp_all add: table_ok_def physmap_covers_def in_table_iff)
  then have "unat f * 4096 + 4096 \<le> unat (ft_num s) * 4096" by linarith
  with c have b: "unat (phys_map_base s) + unat f * 4096 + 4096 \<le> 2 ^ 64" by linarith
  then show v: "unat (frame_va s f) = unat (phys_map_base s) + unat f * 4096"
    by (simp add: frame_va_def unat_add_no_wrap unat_frame_phys)
  assume i: "i < 512"
  then have "unat i < 512" by (simp add: word_less_nat_alt)
  moreover from this have "unat (8 * i) = 8 * unat i" by (simp add: unat_mult_no_wrap)
  ultimately show "unat (frame_va s f + 8 * i) = unat (phys_map_base s) + unat f * 4096 + 8 * unat i"
    using v b by (simp add: unat_add_no_wrap)
qed

definition zeroed :: "pmm \<Rightarrow> u32 \<Rightarrow> pmm" where
  "zeroed s f = zero_range s (frame_va s f) FRAME_SIZE"

lemma zero_table_SomeI [panic_free]: "table_ok s \<Longrightarrow> in_table s f \<Longrightarrow> zero_table s f = Some (zeroed s f)"
  by (simp add: zero_table_def table_va_def panic_free zeroed_def)

lemma entry_zeroed:
  assumes "table_ok s" "in_table s f" "in_table s g" "i < 512"
  shows "entry (zeroed s f) g i = (if g = f then 0 else entry s g i)"
proof -
  have i: "unat i < 512" using assms(4) by (simp add: word_less_nat_alt)
  note u = unat_frame_va [OF assms(1,2)] unat_frame_va(2) [OF assms(1,3,4)]
  have "unat (frame_va s f) \<le> unat (frame_va s g + 8 * i) \<and> unat (frame_va s g + 8 * i) < unat (frame_va s f) + 4096 \<longleftrightarrow> g = f"
  proof -
    have "unat f * 4096 \<le> unat g * 4096 + 8 * unat i \<and> unat g * 4096 + 8 * unat i < unat f * 4096 + 4096 \<longleftrightarrow> unat g = unat f"
      using i by linarith
    then show ?thesis using u(1,3) by (simp add: word_unat_eq_iff)
  qed
  then show ?thesis by (simp add: entry_def zeroed_def zero_range_def frame_va_def FRAME_SIZE_def)
qed

lemma writes_zeroed: "table_ok s \<Longrightarrow> in_table s f \<Longrightarrow> writes s (zeroed s f) {f}"
  unfolding writes_def same_tables_def by (simp add: entry_zeroed) (simp add: zeroed_def zero_range_def)

lemma empty_table:
  assumes "\<forall>i<512. entry s f i = 0"
  shows "tabs s f n = {f}" "tree_ok s f n" "resolve s f va n = None"
  using assms by (cases n; auto simp: child_def)+

section \<open>Growing the tree\<close>

definition kernel_frames :: "pmm \<Rightarrow> u32 set" where
  "kernel_frames s = {f. in_table s f \<and> owner_word (infos s f) = raw KERNEL}"

definition same_refs :: "pmm \<Rightarrow> pmm \<Rightarrow> bool" where
  "same_refs s s' \<longleftrightarrow> phys_map_base s' = phys_map_base s \<and> ft_num s' = ft_num s \<and>
     free_frames s' \<subseteq> free_frames s \<and> kernel_frames s \<subseteq> kernel_frames s' \<and>
     (\<forall>f. mapping_count (infos s' f) = mapping_count (infos s f) \<and> pin_count (infos s' f) = pin_count (infos s f)) \<and>
     (\<forall>f. f \<notin> free_frames s \<longrightarrow> infos s' f = infos s f)"

text \<open>What growing the tree below \<open>f\<close> may do: take free frames, and write to them and to tables.\<close>

definition grown :: "pmm \<Rightarrow> pmm \<Rightarrow> u32 \<Rightarrow> nat \<Rightarrow> bool" where
  "grown s s' f n \<longleftrightarrow> (\<exists>l g. pmm_inv s' l g) \<and> same_refs s s' \<and> tree_ok s' f n \<and> tabs s' f n \<subseteq> kernel_frames s' \<and>
     tabs s' f n \<subseteq> tabs s f n \<union> free_frames s \<and> (\<forall>va. resolve s' f va n = resolve s f va n \<and> (user_page s f va n \<longrightarrow> user_page s' f va n)) \<and>
     same_tables s s' (kernel_frames s - tabs s f n)"

lemma kernel_not_free: "f \<in> kernel_frames s \<Longrightarrow> f \<notin> free_frames s"
  by (auto simp: kernel_frames_def free_frames_def owner_consts)

lemma same_refs_refl [simp]: "same_refs s s"
  by (simp add: same_refs_def)

lemma same_refs_trans: "same_refs s t \<Longrightarrow> same_refs t u \<Longrightarrow> same_refs s u"
  unfolding same_refs_def by (smt (verit, best) order_trans subset_iff)

lemma same_refs_writes: "writes s s' F \<Longrightarrow> same_refs s s'"
  using writes_simps by (simp add: same_refs_def kernel_frames_def)

lemma same_tables_trans: "same_tables s t F \<Longrightarrow> same_tables t u F \<Longrightarrow> same_tables s u F"
  by (simp add: same_tables_def)

lemma same_tables_mono: "same_tables s t F \<Longrightarrow> G \<subseteq> F \<Longrightarrow> same_tables s t G"
  by (auto simp: same_tables_def)

text \<open>Relinking free frames does not touch a table.\<close>

lemma links_apart:
  assumes "links_only s s1 F" "F \<inter> T = {}"
  shows "same_tables s s1 T"
  unfolding same_tables_def
proof (intro ballI allI impI)
  fix h i assume h: "h \<in> T" and i: "i < (512 :: u64)"
  have "frame_va s h + 8 * i \<noteq> frame_va s g" if "g \<in> F" for g
    using cell_inject [OF i, of 0 "phys_map_base s" h g] h that assms(2) by (auto simp: frame_va_def)
  then have "frame_va s h + 8 * i \<notin> frame_va s ` F" by blast
  then show "entry s1 h i = entry s h i" using assms(1) by (simp add: entry_def links_only_def frame_va_def)
qed

lemma links_same_tables: "links_only s s1 (free_frames s) \<Longrightarrow> same_tables s s1 (kernel_frames s)"
  using links_apart kernel_not_free by blast

text \<open>An allocated frame, zeroed, is an empty table, and no table in use has changed.\<close>

lemma alloc_table:
  assumes inv: "pmm_inv s l g" and al: "alloc_frame s = Some (Some f, s1)"
  obtains l' g' where "zero_table s1 f = Some (zeroed s1 f)" "pmm_inv (zeroed s1 f) l' g'" "f \<in> free_frames s"
    "f \<in> kernel_frames (zeroed s1 f)" "same_refs s (zeroed s1 f)" "same_tables s (zeroed s1 f) (kernel_frames s)"
    "\<forall>i<512. entry (zeroed s1 f) f i = 0" "f \<notin> free_frames (zeroed s1 f)"
  using inv
proof (cases rule: alloc_frame_cases)
  case none
  with al show thesis by simp
next
  case (some f' s' l' g')
  with al have [simp]: "f' = f" "s' = s1" by simp_all
  have t: "table_ok s1" and lk: "links_only s s1 (free_frames s)" using some pmm_inv_table by auto
  have it: "in_table s1 = in_table s" using lk by (auto simp: in_table_def links_only_def)
  have fs: "in_table s f" "in_table s1 f" using some(1) it by (simp_all add: free_frames_def)
  have ow: "owner_word (infos s1 f) = raw KERNEL" using some(4) by simp
  have nf: "f \<notin> free_frames s1" using ow by (auto simp: free_frames_def owner_consts)
  note w = writes_zeroed [OF t fs(2)]
  note ws = writes_simps [OF w]
  have "pmm_inv (zeroed s1 f) l' g'" using pmm_inv_writes [OF _ w] some(3) nf by auto
  moreover have k: "f \<in> kernel_frames (zeroed s1 f)" using ow ws fs by (simp add: kernel_frames_def)
  moreover have "same_refs s s1"
    using some(1,4) lk it by (auto simp: same_refs_def links_only_def free_frames_def kernel_frames_def owner_consts)
  then have "same_refs s (zeroed s1 f)" using same_refs_writes [OF w] same_refs_trans by blast
  moreover have "same_tables s (zeroed s1 f) (kernel_frames s)"
    unfolding same_tables_def
  proof (intro ballI allI impI)
    fix h i assume h: "h \<in> kernel_frames s" and i: "i < (512 :: u64)"
    have ne: "h \<noteq> f" using h some(1) kernel_not_free by auto
    have "in_table s1 h" using h it by (simp add: kernel_frames_def)
    then have "entry (zeroed s1 f) h i = entry s1 h i" using ne entry_zeroed [OF t fs(2) _ i] by simp
    moreover have "entry s1 h i = entry s h i" using links_same_tables [OF lk] h i by (simp add: same_tables_def)
    ultimately show "entry (zeroed s1 f) h i = entry s h i" by simp
  qed
  moreover have "\<forall>i<512. entry (zeroed s1 f) f i = 0" using entry_zeroed [OF t fs(2,2)] by simp
  ultimately show thesis using that zero_table_SomeI [OF t fs(2)] some(1) nf ws(8) by simp
qed

text \<open>From growing the tree below an entry to growing the whole tree.\<close>

definition rest_same :: "pmm \<Rightarrow> pmm \<Rightarrow> u32 \<Rightarrow> nat \<Rightarrow> u64 \<Rightarrow> bool" where
  "rest_same s s' f n i \<longleftrightarrow> (\<forall>j<512. j \<noteq> i \<longrightarrow> child s' f j = child s f j \<and>
     (\<forall>d. child s f j = Some d \<longrightarrow> pts s' d n = pts s d n))"

lemma grown_lift:
  assumes ok: "tree_ok s f (Suc n)" "tabs s f (Suc n) \<subseteq> kernel_frames s" and i: "i < 512"
    and s1: "same_refs s s1" "same_tables s s1 (kernel_frames s - {f})" "\<And>j. j < 512 \<Longrightarrow> j \<noteq> i \<Longrightarrow> entry s1 f j = entry s f j"
    and c: "child s1 f i = Some c" "bit (entry s1 f i) 1" "\<And>t. t \<in> tabs s1 c n \<Longrightarrow> t \<in> free_frames s \<or> child s f i = Some c \<and> t \<in> tabs s c n"
    and r: "\<And>va. pt_index va (Suc n) = i \<Longrightarrow> resolve s1 c va n = resolve s f va (Suc n)"
    and up: "\<And>va. pt_index va (Suc n) = i \<Longrightarrow> user_page s f va (Suc n) \<Longrightarrow> user_entry (entry s1 f i) \<and> user_page s1 c va n"
    and g: "grown s1 s' c n"
  shows "grown s s' f (Suc n) \<and> child s' f i = Some c \<and> rest_same s s' f n i \<and> entry s' f i = entry s1 f i"
proof -
  note g' = g [unfolded grown_def]
  have fk: "f \<in> kernel_frames s" using ok(2) by auto
  have old: "t \<noteq> f \<and> t \<notin> tabs s d n" if "t \<in> tabs s1 c n" "j < 512" "j \<noteq> i" "child s f j = Some d" for t j d
  proof -
    have "t \<notin> tabs s d n" "t \<noteq> f" if "t \<in> free_frames s"
      using that ok(2) kernel_not_free fk tabs_child [OF \<open>child s f j = Some d\<close> \<open>j < 512\<close>] by blast+
    then show ?thesis using c(3) [OF that(1)] tree_okD [OF ok(1) _ i, of c] that by blast
  qed
  have fc: "f \<notin> tabs s1 c n"
    using c(3) [of f] tree_okD(2) [OF ok(1) _ i, of c] kernel_not_free [OF fk] by blast
  have k1: "kernel_frames s \<subseteq> kernel_frames s1" "free_frames s1 \<subseteq> free_frames s" using s1(1) by (simp_all add: same_refs_def)
  have st: "same_tables s1 s' (kernel_frames s1 - tabs s1 c n)" using g' by blast
  have ef: "entry s' f j = entry s1 f j" if "j < 512" for j
    using st fk k1 fc that by (auto simp: same_tables_def)
  then have cf: "child s' f i = Some c" using c(1) i child_cong by metis
  have e: "entry s' f j = entry s f j" if "j < 512" "j \<noteq> i" for j using ef s1(3) that by simp
  have keep: "entry s' h j = entry s h j" if "h \<in> kernel_frames s" "h \<noteq> f" "h \<notin> tabs s1 c n" "j < 512" for h j
    using st s1(2) that k1 by (auto simp: same_tables_def)
  have other: "same_tables s s' (tabs s d n)" if "j < 512" "j \<noteq> i" "child s f j = Some d" for j d
    unfolding same_tables_def
  proof (intro ballI allI impI)
    fix h m assume h: "h \<in> tabs s d n" and m: "m < (512 :: u64)"
    have "h \<in> kernel_frames s" using ok(2) tabs_child [OF that(3,1) h] by blast
    moreover have "h \<noteq> f" using tree_okD(2) [OF ok(1) that(3,1)] h by blast
    moreover have "h \<notin> tabs s1 c n" using old [OF _ that] h by blast
    ultimately show "entry s' h m = entry s h m" using keep m by blast
  qed
  have sub: "tabs s' c n \<subseteq> tabs s1 c n \<union> free_frames s1" using g' by blast
  have apart: "f \<notin> tabs s' c n" "j < 512 \<Longrightarrow> j \<noteq> i \<Longrightarrow> child s f j = Some d \<Longrightarrow> tabs s' c n \<inter> tabs s d n = {}" for j d
  proof -
    show "f \<notin> tabs s' c n" using sub fc k1 kernel_not_free [OF fk] by blast
    assume d: "j < 512" "j \<noteq> i" "child s f j = Some d"
    have "tabs s d n \<subseteq> kernel_frames s" using ok(2) tabs_child [OF d(3,1)] by blast
    then show "tabs s' c n \<inter> tabs s d n = {}" using sub old [OF _ d] k1(2) kernel_not_free by blast
  qed
  note u = tree_update [OF ok(1) i, where s' = s']
  have one: "bit (entry s' f i) 1" using ef [OF i] c(2) by simp
  have "tree_ok s' f (Suc n)" by (rule u(1)) (use e other cf g' apart one in auto)
  moreover have tb: "t \<in> tabs s f (Suc n) \<or> t \<in> tabs s' c n" if "t \<in> tabs s' f (Suc n)" for t
  proof -
    have "t \<in> tabs s f (Suc n) \<or> (\<exists>c. child s' f i = Some c \<and> t \<in> tabs s' c n)"
      by (rule u(3)) (use e other cf g' apart one that in auto)
    with cf show ?thesis by auto
  qed
  moreover have "tabs s' f (Suc n) \<subseteq> kernel_frames s'"
  proof -
    have "kernel_frames s1 \<subseteq> kernel_frames s'" "tabs s' c n \<subseteq> kernel_frames s'" using g' by (simp_all add: same_refs_def)
    then show ?thesis using tb ok(2) k1(1) by blast
  qed
  moreover have "tabs s' f (Suc n) \<subseteq> tabs s f (Suc n) \<union> free_frames s"
    using tb sub c(3) k1(2) i tabs_child by blast
  moreover have "resolve s' f va (Suc n) = resolve s f va (Suc n) \<and> (user_page s f va (Suc n) \<longrightarrow> user_page s' f va (Suc n))" for va
  proof (cases "pt_index va (Suc n) = i")
    case True
    then have "resolve s' f va (Suc n) = resolve s' c va n" "user_page s' f va (Suc n) \<longleftrightarrow> user_entry (entry s1 f i) \<and> user_page s' c va n"
      using cf ef [OF i] by simp_all
    then show ?thesis using g' r [OF True] up [OF True] by (simp del: user_page.simps)
  next
    case False
    have "resolve s' f va (Suc n) = resolve s f va (Suc n) \<and> user_page s' f va (Suc n) = user_page s f va (Suc n)"
      by (rule u(2)) (use e other cf g' apart one False in auto)
    then show ?thesis by blast
  qed
  moreover have "same_tables s s' (kernel_frames s - tabs s f (Suc n))"
  proof -
    have "h \<noteq> f \<and> h \<notin> tabs s1 c n" if "h \<in> kernel_frames s" "h \<notin> tabs s f (Suc n)" for h
      using that c(3) [of h] kernel_not_free i tabs_child by (metis self_tab)
    then show ?thesis using keep by (auto simp: same_tables_def)
  qed
  moreover have "same_refs s s'" using s1(1) g' same_refs_trans by blast
  moreover have "rest_same s s' f n i"
    using e same_tables_tree [OF other] by (auto simp: rest_same_def child_def)
  ultimately show ?thesis using g' cf ef [OF i] unfolding grown_def by blast
qed

text \<open>The walk of \<^verbatim>\<open>map\<close> (down to level 0) and that of \<^verbatim>\<open>map_window\<close> (down to level 1) are the same
  loop with a different last level.\<close>

fun grow :: "pmm \<Rightarrow> u32 \<Rightarrow> usize \<Rightarrow> u64 \<Rightarrow> nat \<Rightarrow> nat \<Rightarrow> ((map_error + u32) \<times> pmm) option" where
  "grow s frame va user b 0 = Some (Inr frame, s)"
| "grow s frame va user b (Suc k) = do {
     a \<leftarrow> entry_va s frame (pt_index va (Suc (b + k)));
     if mem s a AND PTE_PRESENT = 0 then do {
       (r, s) \<leftarrow> alloc_frame s;
       case r of
         None \<Rightarrow> Some (Inl AllocFailed, s)
       | Some new \<Rightarrow> do {
           s \<leftarrow> zero_table s new;
           grow (set_cell s a (frame_phys new OR PTE_PRESENT OR PTE_WRITABLE OR user)) new va user b k
         }
     }
     else if mem s a AND PTE_HUGE \<noteq> 0 then Some (Inl Conflict, s)
     else grow (set_cell s a (mem s a OR user)) (phys_of (mem s a OR user)) va user b k
   }"

lemma set_cell_same: "set_cell s a (mem s a) = s"
  by (simp add: set_cell_def)

lemma map_walk_grow: "map_walk s f va user n = grow s f va user 0 n"
proof (induction n arbitrary: s f user)
  case (Suc n)
  have "mem (set_cell s a x) a = x" for s :: pmm and a x by (simp add: set_cell_def)
  then show ?case
    by (auto simp: Suc.IH set_cell_same intro!: bind_option_cong split: option.splits)
qed simp

lemma window_walk_grow: "window_walk s f va n = grow s f va 0 1 n"
  by (induction n arbitrary: s f) (auto simp: set_cell_same intro!: bind_option_cong split: option.splits)

lemma entry_mem: "mem s (frame_va s f + 8 * i) = entry s f i"
  by (simp add: entry_def)

definition tree_inv :: "pmm \<Rightarrow> u32 \<Rightarrow> nat \<Rightarrow> bool" where
  "tree_inv s f n \<longleftrightarrow> (\<exists>l g. pmm_inv s l g) \<and> tree_ok s f n \<and> tabs s f n \<subseteq> kernel_frames s"

lemma grown_refl: "tree_inv s f n \<Longrightarrow> grown s s f n"
  by (auto simp: grown_def tree_inv_def same_tables_def)

lemma grown_resolve: "grown s s' f n \<Longrightarrow> resolve s' f va n = resolve s f va n"
  by (simp add: grown_def)

lemma grown_inv: "grown s s' f n \<Longrightarrow> tree_inv s' f n"
  by (auto simp: grown_def tree_inv_def)

lemma tree_inv_table:
  assumes "tree_inv s f n"
  shows "table_ok s" "in_table s f"
proof -
  obtain l g where i: "pmm_inv s l g" "f \<in> kernel_frames s" using assms self_tab [of f s n] unfolding tree_inv_def by blast
  then show "table_ok s" "in_table s f" by (auto simp: kernel_frames_def dest: pmm_inv_table)
qed

lemma grown_user: "grown s s' f n \<Longrightarrow> user_page s f va n \<Longrightarrow> user_page s' f va n"
  by (simp add: grown_def)

lemma pts_rest_same:
  assumes "rest_same s s' f n i" "i < 512" "child s' f i = Some c'"
    "pts s' c' n = (case child s f i of None \<Rightarrow> {} | Some c \<Rightarrow> pts s c n)"
  shows "pts s' f (Suc n) = pts s f (Suc n)"
proof -
  have "(case child s' f j of None \<Rightarrow> {} | Some c \<Rightarrow> pts s' c n) = (case child s f j of None \<Rightarrow> {} | Some c \<Rightarrow> pts s c n)"
    if "j < 512" for j
    using assms that by (cases "j = i") (auto simp: rest_same_def split: option.splits)
  then show ?thesis by simp
qed

text \<open>Linking a fresh table.\<close>

lemma link_table:
  assumes inv: "tree_inv s f (Suc n)" and i: "i < 512" and e: "\<not> bit (entry s f i) 0"
    and al: "alloc_frame s = Some (Some new, s1)" and u: "user \<in> {0, 4}"
    and s2: "s2 = set_cell (zeroed s1 new) (frame_va s f + 8 * i) (frame_phys new OR PTE_PRESENT OR PTE_WRITABLE OR user)"
  shows "zero_table s1 new = Some (zeroed s1 new)" "tree_inv s2 new n"
    and "0 < n \<Longrightarrow> pts s2 new n = {}" "free_frames s2 = free_frames s - {new}" "new \<in> free_frames s"
    and "grown s2 s' new n \<Longrightarrow> grown s s' f (Suc n) \<and> child s' f i = Some new \<and> rest_same s s' f n i \<and>
      entry s' f i = frame_phys new OR PTE_PRESENT OR PTE_WRITABLE OR user"
proof -
  obtain l g where l: "pmm_inv s l g" and ok: "tree_ok s f (Suc n)" "tabs s f (Suc n) \<subseteq> kernel_frames s"
    using inv by (auto simp: tree_inv_def)
  obtain l' g' where z: "zero_table s1 new = Some (zeroed s1 new)" "pmm_inv (zeroed s1 new) l' g'" "new \<in> free_frames s"
    "new \<in> kernel_frames (zeroed s1 new)" "same_refs s (zeroed s1 new)" "same_tables s (zeroed s1 new) (kernel_frames s)"
    "\<forall>i<512. entry (zeroed s1 new) new i = 0" "new \<notin> free_frames (zeroed s1 new)"
    by (rule alloc_table [OF l al])
  show "zero_table s1 new = Some (zeroed s1 new)" by (rule z(1))
  have fk: "f \<in> kernel_frames s" using ok(2) self_tab by blast
  have nf: "new \<noteq> f" using fk z(3) kernel_not_free by blast
  have va: "frame_va (zeroed s1 new) f = frame_va s f" using z(5) by (simp add: frame_va_def same_refs_def)
  have w: "writes (zeroed s1 new) s2 {f}" unfolding s2 va [symmetric] by (rule writes_set_cell [OF i])
  have ent: "entry s2 h j = (if h = f \<and> j = i then frame_phys new OR PTE_PRESENT OR PTE_WRITABLE OR user
      else entry (zeroed s1 new) h j)" if "j < 512" for h j
    unfolding s2 va [symmetric] by (rule entry_set_cell [OF i that])
  have fz: "f \<notin> free_frames (zeroed s1 new)"
    using fk z(5) kernel_not_free by (fastforce simp: same_refs_def)
  have p2: "pmm_inv s2 l' g'" using pmm_inv_writes [OF z(2) w] fz by simp
  have empty: "\<forall>j<512. entry s2 new j = 0" using ent z(7) nf by simp
  note em = empty_table [OF empty]
  have k2: "kernel_frames s2 = kernel_frames (zeroed s1 new)" using writes_simps [OF w] by (simp add: kernel_frames_def)
  show "tree_inv s2 new n" using p2 em(1,2) z(4) k2 by (auto simp: tree_inv_def)
  show "new \<in> free_frames s" by (rule z(3))
  have "free_frames s2 = free_frames (zeroed s1 new)" by (rule writes_simps(8) [OF w])
  also have "\<dots> = free_frames s1" by (auto simp: free_frames_def in_table_def zeroed_def zero_range_def)
  also have "\<dots> = free_frames s - {new}" using alloc_frame_post [OF l] al by simp
  finally show "free_frames s2 = free_frames s - {new}" .
  show "pts s2 new n = {}" if "0 < n" using that empty by (cases n) (auto simp: child_def)
  assume g: "grown s2 s' new n"
  have "grown s s' f (Suc n) \<and> child s' f i = Some new \<and> rest_same s s' f n i \<and> entry s' f i = entry s2 f i"
  proof (rule grown_lift [OF ok i _ _ _ _ _ _ _ _ g])
    show "same_refs s s2" using z(5) same_refs_writes [OF w] same_refs_trans by blast
    show "same_tables s s2 (kernel_frames s - {f})" using z(6) ent by (auto simp: same_tables_def)
    show "entry s2 f j = entry s f j" if "j < 512" "j \<noteq> i" for j
      using ent z(6) fk that by (simp add: same_tables_def)
    show "child s2 f i = Some new" using ent [OF i] table_entry [OF u, of new] by (simp add: child_def)
    show "bit (entry s2 f i) 1" using ent [OF i] by (simp add: PTE_WRITABLE_def bit_or_iff bit_simps)
    show "user_entry (entry s2 f i) \<and> user_page s2 new va n" if "pt_index va (Suc n) = i" "user_page s f va (Suc n)" for va
      using that e by (simp add: user_entry_def)
    show "t \<in> free_frames s \<or> child s f i = Some new \<and> t \<in> tabs s new n" if "t \<in> tabs s2 new n" for t
      using that em(1) z(3) by simp
    show "resolve s2 new va n = resolve s f va (Suc n)" if "pt_index va (Suc n) = i" for va
      using that em(3) e by (simp add: child_def)
  qed
  then show "grown s s' f (Suc n) \<and> child s' f i = Some new \<and> rest_same s s' f n i \<and>
      entry s' f i = frame_phys new OR PTE_PRESENT OR PTE_WRITABLE OR user" using ent [OF i] by simp
qed

text \<open>Following, and possibly promoting, a link.\<close>

lemma follow_link:
  assumes inv: "tree_inv s f (Suc n)" and i: "i < 512" and c: "child s f i = Some c" and u: "user \<in> {0, 4}"
    and s1: "s1 = set_cell s (frame_va s f + 8 * i) (entry s f i OR user)"
  shows "tree_inv s1 c n" and "grown s1 s' c n \<Longrightarrow> grown s s' f (Suc n) \<and> child s' f i = Some c \<and> rest_same s s' f n i \<and>
      entry s' f i = entry s f i OR user"
    and "resolve s1 c va n = resolve s c va n" "pts s1 c n = pts s c n" "free_frames s1 = free_frames s" "phys_of (entry s f i OR user) = c"
proof -
  obtain l g where l: "pmm_inv s l g" and ok: "tree_ok s f (Suc n)" "tabs s f (Suc n) \<subseteq> kernel_frames s"
    using inv by (auto simp: tree_inv_def)
  note okc = tree_okD [OF ok(1) c i]
  have fk: "f \<in> kernel_frames s" using ok(2) self_tab by blast
  have w: "writes s s1 {f}" unfolding s1 by (rule writes_set_cell [OF i])
  have ent: "entry s1 h j = (if h = f \<and> j = i then entry s f i OR user else entry s h j)" if "j < 512" for h j
    unfolding s1 by (rule entry_set_cell [OF i that])
  have st: "same_tables s s1 (tabs s c n)"
    unfolding same_tables_def
  proof (intro ballI allI impI)
    fix h j assume "h \<in> tabs s c n" "j < (512 :: u64)"
    moreover from this have "h \<noteq> f" using okc(2) by blast
    ultimately show "entry s1 h j = entry s h j" using ent by simp
  qed
  note tr = same_tables_tree [OF st]
  have k1: "kernel_frames s1 = kernel_frames s" using writes_simps [OF w] by (simp add: kernel_frames_def)
  have "tabs s c n \<subseteq> kernel_frames s" using ok(2) tabs_child [OF c i] by blast
  then show "tree_inv s1 c n"
    using pmm_inv_writes [OF l w] kernel_not_free [OF fk] tr okc(1) k1 by (auto simp: tree_inv_def)
  show r: "resolve s1 c va n = resolve s c va n" for va using tr by blast
  show "pts s1 c n = pts s c n" using tr by blast
  show "free_frames s1 = free_frames s" by (rule writes_simps(8) [OF w])
  have ch: "child s1 f i = Some c" using ent [OF i] c promoted_entry [OF u, of "entry s f i"] by (simp add: child_eq_Some)
  show "phys_of (entry s f i OR user) = c"
    using c promoted_entry(3) [OF u, of "entry s f i"] by (auto simp: child_def split: if_splits)
  assume g: "grown s1 s' c n"
  have "grown s s' f (Suc n) \<and> child s' f i = Some c \<and> rest_same s s' f n i \<and> entry s' f i = entry s1 f i"
  proof (rule grown_lift [OF ok i _ _ _ ch _ _ _ _ g])
    show "same_refs s s1" by (rule same_refs_writes [OF w])
    show "same_tables s s1 (kernel_frames s - {f})" using ent by (auto simp: same_tables_def)
    show "entry s1 f j = entry s f j" if "j < 512" "j \<noteq> i" for j using ent that by simp
    show "t \<in> free_frames s \<or> child s f i = Some c \<and> t \<in> tabs s c n" if "t \<in> tabs s1 c n" for t
      using that tr c by simp
    show "resolve s1 c va n = resolve s f va (Suc n)" if "pt_index va (Suc n) = i" for va
      using that r c by simp
    show "bit (entry s1 f i) 1" using ent [OF i] okc(3) by (simp add: bit_or_iff)
    show "user_entry (entry s1 f i) \<and> user_page s1 c va n" if "pt_index va (Suc n) = i" "user_page s f va (Suc n)" for va
      using that c ent [OF i] tr by (auto simp: user_entry_def bit_or_iff)
  qed
  then show "grown s s' f (Suc n) \<and> child s' f i = Some c \<and> rest_same s s' f n i \<and> entry s' f i = entry s f i OR user" using ent [OF i] by simp
qed

definition grow_result :: "pmm \<Rightarrow> u32 \<Rightarrow> u64 \<Rightarrow> u64 \<Rightarrow> nat \<Rightarrow> nat \<Rightarrow> map_error + u32 \<Rightarrow> pmm \<Rightarrow> bool" where
  "grow_result s f va user b k r s' \<longleftrightarrow> grown s s' f (b + k) \<and> (0 < b \<longrightarrow> pts s' f (b + k) = pts s f (b + k)) \<and>
     card (free_frames s) \<le> card (free_frames s') + k \<and>
     (case r of
        Inr t \<Rightarrow> below s' f va (b + k) k = Some t \<and> (user = 4 \<longrightarrow> user_links s' f va (b + k) k)
      | Inl e \<Rightarrow> e = Conflict \<and> (\<exists>x m. resolve s f va (b + k) = Some (x, m) \<and> b < m) \<or>
          e = AllocFailed \<and> card (free_frames s) < k \<and> resolve s f va (b + k) = None)"

lemma table_entry_user: "user_entry (frame_phys f OR PTE_PRESENT OR PTE_WRITABLE OR 4)"
  and promoted_user: "bit e 0 \<Longrightarrow> bit e 1 \<Longrightarrow> user_entry (e OR 4)"
proof -
  have four: "(4 :: u64) = push_bit 2 1" by simp
  show "user_entry (frame_phys f OR PTE_PRESENT OR PTE_WRITABLE OR 4)" "bit e 0 \<Longrightarrow> bit e 1 \<Longrightarrow> user_entry (e OR 4)"
    unfolding user_entry_def PTE_PRESENT_def PTE_WRITABLE_def four by (simp_all only: bit_or_iff bit_flag) simp_all
qed

lemma grow_correct:
  assumes "tree_inv s f (b + k)" "user \<in> {0, 4}"
  shows "\<exists>r s'. grow s f va user b k = Some (r, s') \<and> grow_result s f va user b k r s'"
  using assms(1)
proof (induction k arbitrary: s f)
  case 0
  then show ?case by (simp add: grow_result_def grown_refl)
next
  case (Suc k)
  let ?i = "pt_index va (Suc (b + k))" and ?n = "b + k"
  have inv: "tree_inv s f (Suc ?n)" using Suc.prems by simp
  have a: "entry_va s f ?i = Some (frame_va s f + 8 * ?i)" using tree_inv_table [OF inv] by (simp add: panic_free)
  consider (absent) "\<not> bit (entry s f ?i) 0" | (huge) "bit (entry s f ?i) 0" "bit (entry s f ?i) 7"
    | (link) c where "child s f ?i = Some c" by (auto simp: child_eq_Some)
  then show ?case
  proof cases
    case absent
    then have no: "resolve s f va (Suc ?n) = None" and nc: "child s f ?i = None" by (simp_all add: child_def)
    obtain l g where l: "pmm_inv s l g" using inv by (auto simp: tree_inv_def)
    from l show ?thesis
    proof (cases rule: alloc_frame_cases)
      case none
      then show ?thesis
        using absent a no grown_refl [OF inv] by (simp add: entry_mem present_iff grow_result_def)
    next
      case (some new s1 l' g')
      let ?s2 = "set_cell (zeroed s1 new) (frame_va s f + 8 * ?i) (frame_phys new OR PTE_PRESENT OR PTE_WRITABLE OR user)"
      note k = link_table [OF inv pt_index_less absent some(2) assms(2) refl]
      obtain r s' where r: "grow ?s2 new va user b k = Some (r, s')" "grow_result ?s2 new va user b k r s'"
        using Suc.IH [OF k(2)] by auto
      have g: "grown s s' f (Suc ?n) \<and> child s' f ?i = Some new \<and> rest_same s s' f ?n ?i \<and>
          entry s' f ?i = frame_phys new OR PTE_PRESENT OR PTE_WRITABLE OR user" using k(6) r(2) by (auto simp: grow_result_def)
      have "resolve s' f va (Suc ?n) = resolve s' new va ?n" using g by simp
      moreover have "resolve s' f va (Suc ?n) = None" using grown_resolve g no by metis
      moreover have "resolve s' new va ?n = resolve ?s2 new va ?n" using r(2) grown_resolve by (auto simp: grow_result_def)
      ultimately have "resolve ?s2 new va ?n = None" by simp
      moreover have "pts s' f (Suc ?n) = pts s f (Suc ?n)" if "0 < b"
        by (rule pts_rest_same [of _ _ _ _ ?i new]) (use g r(2) k(3) that nc in \<open>auto simp: grow_result_def\<close>)
      moreover have "card (free_frames s) = Suc (card (free_frames ?s2))"
        unfolding k(4) by (rule card_Suc_Diff1 [symmetric]) (simp_all add: k(5))
      moreover have "user = 4 \<longrightarrow> user_entry (entry s' f ?i)" using g table_entry_user [of new] by simp
      ultimately have "grow_result s f va user b (Suc k) r s'"
        using r(2) g no by (simp add: grow_result_def split: sum.splits del: pts.simps resolve.simps)
      then show ?thesis using r(1) some(2) k(1) absent a by (simp add: entry_mem present_iff)
    qed
  next
    case huge
    then have "resolve s f va (Suc ?n) = Some (entry s f ?i, Suc ?n)" by (simp add: child_def)
    then show ?thesis using huge a grown_refl [OF inv] by (simp add: entry_mem present_iff huge_iff grow_result_def)
  next
    case (link c)
    let ?s1 = "set_cell s (frame_va s f + 8 * ?i) (entry s f ?i OR user)"
    note k = follow_link [OF inv pt_index_less link assms(2) refl]
    obtain r s' where r: "grow ?s1 c va user b k = Some (r, s')" "grow_result ?s1 c va user b k r s'"
      using Suc.IH [OF k(1)] by auto
    have g: "grown s s' f (Suc ?n) \<and> child s' f ?i = Some c \<and> rest_same s s' f ?n ?i \<and> entry s' f ?i = entry s f ?i OR user" using k(2) r(2) by (auto simp: grow_result_def)
    have "resolve s f va (Suc ?n) = resolve s c va ?n" using link by simp
    moreover have "pts s' f (Suc ?n) = pts s f (Suc ?n)" if "0 < b"
      by (rule pts_rest_same [of _ _ _ _ ?i c]) (use g r(2) k(4) that link in \<open>auto simp: grow_result_def\<close>)
    moreover have "user = 4 \<longrightarrow> user_entry (entry s' f ?i)" using g promoted_user [of "entry s f ?i"] link inv
      by (auto simp: child_eq_Some tree_inv_def)
    ultimately have "grow_result s f va user b (Suc k) r s'"
      using r(2) g k(3,5) by (simp add: grow_result_def split: sum.splits del: pts.simps resolve.simps) auto
    moreover have "bit (entry s f ?i) 0" "\<not> bit (entry s f ?i) 7" using link by (auto simp: child_def split: if_splits)
    ultimately show ?thesis using r(1) k(6) a by (simp add: entry_mem present_iff huge_iff)
  qed
qed

end
