(* ===== verification/Vmm_Map.thy ===== *)
theory Vmm_Map
  imports Vmm_Grow
begin

text \<open>
  \<^verbatim>\<open>map\<close>, \<^verbatim>\<open>unmap\<close> and \<^verbatim>\<open>translate\<close> on a well-formed tree: each changes or reads exactly one
  page of the translation, and the mapping counts of the frames stay coherent with it.
\<close>

section \<open>Canonical addresses and pages\<close>

lemma is_canonical_bits: "is_canonical va \<Longrightarrow> 48 \<le> n \<Longrightarrow> n < 64 \<Longrightarrow> bit va n = bit va 47"
proof -
  assume c: "is_canonical va" and n: "48 \<le> n" "n < 64"
  have s: "drop_bit 47 va AND 1 = 0 \<longleftrightarrow> \<not> bit va 47"
    by (simp add: and_one_eq bit_iff_odd_drop_bit odd_iff_mod_2_eq_one)
  have t: "bit (ucast (drop_bit 48 va) :: u16) (n - 48) = bit va n" using n by (simp add: bit_simps) arith
  have m: "(0xffff :: u16) = mask 16" by (simp add: mask_eq_exp_minus_1)
  show ?thesis
  proof (cases "bit va 47")
    case True
    with c s have "(ucast (drop_bit 48 va) :: u16) = mask 16" unfolding m [symmetric] by (simp add: is_canonical_def)
    then have "bit (ucast (drop_bit 48 va) :: u16) (n - 48)" using n by (simp only: bit_mask_word) simp
    with t True show ?thesis by simp
  next
    case False
    with c s have "(ucast (drop_bit 48 va) :: u16) = 0" by (simp add: is_canonical_def)
    with t False show ?thesis by simp
  qed
qed

lemma bits_from_paths:
  assumes "is_canonical va" "is_canonical va'" "same_path va va' b 3" "12 + 9 * b \<le> n" "n < 64" "b \<le> 3"
  shows "bit va' n = bit va n"
proof -
  have low: "bit va' m = bit va m" if "12 + 9 * b \<le> m" "m < 48" for m
  proof -
    define l r where "l = (m - 12) div 9" and "r = (m - 12) mod 9"
    have m: "m = 12 + 9 * l + r" "r < 9" using that by (simp_all add: l_def r_def)
    have "9 * l + r < 36" "9 * b \<le> 9 * l + r" using that m by linarith+
    then have "b \<le> l" "l \<le> 3" using m(2) by linarith+
    then have "pt_index va' l = pt_index va l" using assms(3) by (simp add: same_path_def)
    then have "bit (pt_index va' l) r = bit (pt_index va l) r" by simp
    then show ?thesis using m by (simp add: bit_pt_index)
  qed
  show ?thesis
  proof (cases "n < 48")
    case True
    then show ?thesis using low assms(4) by simp
  next
    case False
    then show ?thesis using is_canonical_bits [of _ n] assms low [of 47] by simp
  qed
qed

lemma same_path_iff:
  assumes "is_canonical va" "is_canonical va'" "b \<le> 3"
  shows "same_path va va' b 3 \<longleftrightarrow> drop_bit (12 + 9 * b) va' = drop_bit (12 + 9 * b) va"
proof
  assume p: "same_path va va' b 3"
  show "drop_bit (12 + 9 * b) va' = drop_bit (12 + 9 * b) va"
  proof (rule bit_word_eqI)
    fix n assume "n < LENGTH(64)"
    show "bit (drop_bit (12 + 9 * b) va') n = bit (drop_bit (12 + 9 * b) va) n"
    proof (cases "12 + 9 * b + n < 64")
      case True
      then show ?thesis using bits_from_paths [OF assms(1,2) p _ True assms(3)] by (simp add: bit_drop_bit_eq)
    next
      case False
      then show ?thesis by (auto simp: bit_drop_bit_eq dest: bit_imp_le_length)
    qed
  qed
next
  assume d: "drop_bit (12 + 9 * b) va' = drop_bit (12 + 9 * b) va"
  have "bit va' n = bit va n" if "12 + 9 * b \<le> n" for n
    using arg_cong [OF d, of "\<lambda>w. bit w (n - (12 + 9 * b))"] that by (simp add: bit_drop_bit_eq)
  then show "same_path va va' b 3"
    unfolding same_path_def by (intro allI impI bit_word_eqI) (simp add: bit_pt_index)
qed

lemma drop_bit_div: "drop_bit 12 va = va div (4096 :: u64)" "drop_bit 21 va = va div (0x200000 :: u64)"
  by (simp_all add: drop_bit_eq_div)

section \<open>What the tables translate\<close>

definition vm_inv :: "pmm \<Rightarrow> u32 \<Rightarrow> bool" where
  "vm_inv s rt \<longleftrightarrow> tree_inv s rt 3 \<and> (\<forall>va x m. resolve s rt va 3 = Some (x, m) \<longrightarrow> m < 3)"

definition leaf_addr :: "u64 \<Rightarrow> u64 \<times> nat \<Rightarrow> u64" where
  "leaf_addr va = (\<lambda>(x, m). if m = 0 then (x AND ADDR_MASK_4K) + (va AND 0xfff)
     else if m = 1 then (x AND ADDR_MASK_2M) + (va AND 0x1fffff) else (x AND ADDR_MASK_1G) + (va AND 0x3fffffff))"

lemma uadd_masked: "unat (m :: u64) + unat k < 2 ^ 64 \<Longrightarrow> uadd (x AND m) (y AND k) = Some ((x AND m) + (y AND k))"
proof -
  assume b: "unat m + unat k < 2 ^ 64"
  have "unat (x AND m) \<le> unat m" "unat (y AND k) \<le> unat k"
    using word_and_le1 [of x m] word_and_le1 [of y k] by (simp_all add: word_le_nat_alt)
  with b show ?thesis by (simp add: uadd_def)
qed

lemma masked_sums:
  "uadd (x AND ADDR_MASK_4K) (va AND 0xfff) = Some ((x AND ADDR_MASK_4K) + (va AND 0xfff))"
  "uadd (x AND ADDR_MASK_2M) (va AND 0x1fffff) = Some ((x AND ADDR_MASK_2M) + (va AND 0x1fffff))"
  "uadd (x AND ADDR_MASK_1G) (va AND 0x3fffffff) = Some ((x AND ADDR_MASK_1G) + (va AND 0x3fffffff))"
  by (rule uadd_masked, simp add: ADDR_MASK_4K_def ADDR_MASK_2M_def ADDR_MASK_1G_def)+

lemma read_entry_SomeI: "table_ok s \<Longrightarrow> in_table s f \<Longrightarrow> read_entry s f i = Some (entry s f i)"
  by (simp add: read_entry_def panic_free entry_mem)

lemma tabs_in_table: "tree_inv s f n \<Longrightarrow> t \<in> tabs s f n \<Longrightarrow> in_table s t"
  by (auto simp: tree_inv_def kernel_frames_def)

lemma child_inv: "tree_inv s f (Suc n) \<Longrightarrow> child s f i = Some c \<Longrightarrow> i < 512 \<Longrightarrow> tree_inv s c n"
  unfolding tree_inv_def using tree_okD(1) tabs_child by blast

lemma translate_eq:
  assumes "vm_inv s rt"
  shows "translate s (PageTable rt) va =
    Some (if is_canonical va then map_option (leaf_addr va) (resolve s rt va 3) else None)"
proof (cases "is_canonical va")
  case True
  have i3: "tree_inv s rt (Suc (Suc (Suc 0)))" using assms by (simp add: vm_inv_def numeral_3_eq_3)
  note rd = read_entry_SomeI [OF tree_inv_table(1) [OF i3]]
  have r0: "read_entry s rt i = Some (entry s rt i)" for i using rd tree_inv_table(2) [OF i3] by simp
  have top: "\<not> bit (entry s rt (pt_index va 3)) 7" if "bit (entry s rt (pt_index va 3)) 0"
  proof
    assume "bit (entry s rt (pt_index va 3)) 7"
    then have "resolve s rt va 3 = Some (entry s rt (pt_index va 3), 3)" using that by (simp add: child_def numeral_3_eq_3)
    then show False using assms by (auto simp: vm_inv_def)
  qed
  show ?thesis
  proof (cases "child s rt (pt_index va 3)")
    case None
    then show ?thesis using r0 top True
      by (auto simp: translate_def present_iff child_def numeral_3_eq_3)
  next
    case (Some c)
    then have i2: "tree_inv s c (Suc (Suc 0))" using child_inv [OF i3] by simp
    then have r1: "read_entry s c i = Some (entry s c i)" for i using rd tree_inv_table(2) [OF i2] by simp
    show ?thesis
    proof (cases "child s c (pt_index va 2)")
      case None
      then show ?thesis using r0 r1 True Some
        by (auto simp: translate_def present_iff huge_iff child_eq_Some numeral_3_eq_3 numeral_2_eq_2 masked_sums
            leaf_addr_def child_def split: if_splits)
    next
      case d: (Some d)
      then have i1: "tree_inv s d (Suc 0)" using child_inv [OF i2] by simp
      then have r2: "read_entry s d i = Some (entry s d i)" for i using rd tree_inv_table(2) [OF i1] by simp
      show ?thesis
      proof (cases "child s d (pt_index va 1)")
        case None
        then show ?thesis using r0 r1 r2 True Some d
          by (auto simp: translate_def present_iff huge_iff child_eq_Some numeral_3_eq_3 numeral_2_eq_2 masked_sums
              leaf_addr_def child_def split: if_splits)
      next
        case e: (Some e)
        then have i0: "tree_inv s e 0" using child_inv [OF i1] by simp
        then have r3: "read_entry s e i = Some (entry s e i)" for i using rd tree_inv_table(2) [OF i0] by simp
        show ?thesis using r0 r1 r2 r3 True Some d e
          by (auto simp: translate_def present_iff huge_iff child_eq_Some numeral_3_eq_3 numeral_2_eq_2 masked_sums
              leaf_addr_def child_def split: if_splits)
      qed
    qed
  qed
qed (simp add: translate_def)

section \<open>Changing reference counts\<close>

text \<open>The translation depends on the memory of the tables only.\<close>

lemma entry_put_info [simp]: "entry (put_info s f fi) h i = entry s h i"
  by (simp add: entry_def frame_va_def put_info_def)

lemma same_tables_inv:
  assumes inv: "vm_inv s rt" and st: "same_tables s s' (tabs s rt 3)" and p: "pmm_inv s' l g"
    and k: "tabs s rt 3 \<subseteq> kernel_frames s'"
  shows "vm_inv s' rt" "resolve s' rt va 3 = resolve s rt va 3"
  using same_tables_tree [OF st] inv p k by (auto simp: vm_inv_def tree_inv_def)

section \<open>Mapping a page\<close>

definition valid_flags :: "flags \<Rightarrow> bool" where
  "valid_flags fl \<longleftrightarrow> bits fl AND NOT 0x8000000000000087 = 0"

lemma valid_flags_bits: "valid_flags fl \<Longrightarrow> bit (bits fl) n \<Longrightarrow> n \<in> {0, 1, 2, 7, 63}"
proof -
  assume v: "valid_flags fl" and n: "bit (bits fl) n"
  have "(0x8000000000000087 :: u64) = push_bit 63 1 OR push_bit 7 1 OR push_bit 2 1 OR push_bit 1 1 OR push_bit 0 1"
    by simp
  then have m: "bit (0x8000000000000087 :: u64) n \<Longrightarrow> n \<in> {0, 1, 2, 7, 63}"
    by (simp only: bit_or_iff bit_flag) auto
  have "\<not> bit (bits fl AND NOT 0x8000000000000087) n" using v by (simp add: valid_flags_def)
  then show ?thesis using n m bit_imp_le_length [OF n] by (simp only: bit_and_iff bit_not_iff possible_bit_word) blast
qed

lemma valid_flags_consts:
  "valid_flags F_PRESENT" "valid_flags F_WRITABLE" "valid_flags F_USER" "valid_flags F_HUGE" "valid_flags F_NO_EXEC"
  by (simp_all add: valid_flags_def F_PRESENT_def F_WRITABLE_def F_USER_def F_HUGE_def F_NO_EXEC_def kconsts)

lemma valid_flags_with: "valid_flags a \<Longrightarrow> valid_flags b \<Longrightarrow> valid_flags (with_flags a b)"
  by (simp add: valid_flags_def with_flags_def bit.conj_disj_distrib2)

lemma user_flag_eq: "e AND PTE_USER = (if bit e 2 then 4 else 0)"
proof (rule bit_word_eqI)
  have four: "(4 :: u64) = push_bit 2 1" by simp
  fix n show "bit (e AND PTE_USER) n = bit (if bit e 2 then 4 else 0 :: u64) n"
    unfolding PTE_USER_def four by (auto simp only: bit_and_iff bit_flag bit_0_eq bot_apply bot_bool_def split: if_splits)
qed

lemma user_flag: "e AND PTE_USER \<in> {0, 4}" and user_bit: "bit e 2 \<Longrightarrow> e AND PTE_USER = 4"
  by (simp_all add: user_flag_eq)

lemma mask_4k: "ADDR_MASK_4K = mask 36 AND NOT (mask 12)"
  by (simp add: ADDR_MASK_4K_def mask_eq_exp_minus_1)

lemma leaf_entry:
  assumes "valid_flags fl"
  shows "bit (pa OR bits fl OR PTE_PRESENT) 0" "(pa OR bits fl OR PTE_PRESENT) AND ADDR_MASK_4K = pa AND ADDR_MASK_4K"
proof -
  show "bit (pa OR bits fl OR PTE_PRESENT) 0" unfolding PTE_PRESENT_def by (simp only: bit_or_iff bit_flag) simp
  show "(pa OR bits fl OR PTE_PRESENT) AND ADDR_MASK_4K = pa AND ADDR_MASK_4K"
  proof (rule bit_word_eqI)
    fix n
    have "bit (bits fl) n \<longrightarrow> n < 12 \<or> 36 \<le> n" using valid_flags_bits [OF assms] by force
    moreover have "bit ADDR_MASK_4K n \<longrightarrow> 12 \<le> n \<and> n < 36"
      unfolding mask_4k by (auto simp: bit_simps)
    ultimately show "bit ((pa OR bits fl OR PTE_PRESENT) AND ADDR_MASK_4K) n = bit (pa AND ADDR_MASK_4K) n"
      unfolding PTE_PRESENT_def bit_and_iff bit_or_iff bit_flag by auto
  qed
qed

text \<open>How the translation changes: one page, or not at all.\<close>

definition remapped :: "pmm \<Rightarrow> pmm \<Rightarrow> u32 \<Rightarrow> u64 \<Rightarrow> u64 option \<Rightarrow> bool" where
  "remapped s s' rt va x \<longleftrightarrow> (\<forall>va'. is_canonical va' \<longrightarrow> resolve s' rt va' 3 =
     (if va' div 4096 = va div 4096 then map_option (\<lambda>x. (x, 0)) x else resolve s rt va' 3))"

definition same_view :: "pmm \<Rightarrow> pmm \<Rightarrow> u32 \<Rightarrow> bool" where
  "same_view s s' rt \<longleftrightarrow> (\<forall>va. resolve s' rt va 3 = resolve s rt va 3)"

text \<open>What ring 3 could use before it can use still; and a page mapped with \<open>fl\<close> it can use exactly if the flags say so.\<close>

definition user_kept :: "pmm \<Rightarrow> pmm \<Rightarrow> u32 \<Rightarrow> bool" where
  "user_kept s s' rt \<longleftrightarrow> (\<forall>va. user_page s rt va 3 \<longrightarrow> user_page s' rt va 3)"

definition user_mapped :: "pmm \<Rightarrow> u32 \<Rightarrow> u64 \<Rightarrow> flags \<Rightarrow> bool" where
  "user_mapped s rt va fl \<longleftrightarrow> (\<forall>va'. is_canonical va' \<and> va' div 4096 = va div 4096 \<longrightarrow>
     user_page s rt va' 3 = (bit (bits fl) 1 \<and> bit (bits fl) 2))"

lemma user_kept_refl: "user_kept s s rt"
  by (simp add: user_kept_def)

lemma user_page_resolved: "user_page s f va n \<Longrightarrow> resolve s f va n \<noteq> None"
  by (induction n arbitrary: f) (auto simp: user_entry_def split: option.splits)

lemma resolve_same_path: "same_path va va' 0 n \<Longrightarrow> resolve s f va' n = resolve s f va n"
proof (induction n arbitrary: f)
  case 0
  then show ?case by (simp add: same_path_def)
next
  case (Suc n)
  then have "pt_index va' (Suc n) = pt_index va (Suc n)" "same_path va va' 0 n" by (simp_all add: same_path_Suc)
  then show ?case using Suc.IH by (simp split: option.splits)
qed

lemma user_leaf:
  assumes "pa mod 4096 = 0"
  shows "user_entry (pa OR bits fl OR PTE_PRESENT) \<longleftrightarrow> bit (bits fl) 1 \<and> bit (bits fl) 2"
proof -
  have "take_bit 12 pa = 0" using assms by (simp add: take_bit_eq_mod)
  then have "\<not> bit (take_bit 12 pa) n" for n by simp
  then have "\<not> bit pa n" if "n < 12" for n using that by (simp add: bit_take_bit_iff)
  then show ?thesis unfolding user_entry_def PTE_PRESENT_def by (simp only: bit_or_iff bit_flag) simp
qed

text \<open>Writing the leaf entry for \<open>va\<close> in the level-0 table its walk reaches.\<close>

lemma write_leaf:
  assumes inv: "vm_inv s rt" and va: "is_canonical va" and t: "below s rt va 3 3 = Some t"
    and s': "s' = set_cell s (frame_va s t + 8 * pt_index va 0) x"
  shows "vm_inv s' rt" "remapped s s' rt va (if bit x 0 then Some x else None)" "infos s' = infos s" "ft_num s' = ft_num s"
    "tabs s' rt 3 = tabs s rt 3"
    "user_page s' rt va' 3 = (if same_path va va' 0 3 then user_links s rt va 3 3 \<and> user_entry x else user_page s rt va' 3)"
proof -
  have ti: "tree_inv s rt 3" using inv by (simp add: vm_inv_def)
  have w: "writes s s' {t}" unfolding s' by (rule writes_set_cell) simp
  have tt: "t \<in> tabs s rt 3" using below_tab [of s rt va 0 3] t by simp
  have l: "tabs s' rt 3 = tabs s rt 3" "tree_ok s' rt 3"
    "resolve s' rt va' 3 = (if same_path va va' 0 3 then if bit x 0 then Some (x, 0) else None else resolve s rt va' 3)"
    "user_page s' rt va' 3 = (if same_path va va' 0 3 then user_links s rt va 3 3 \<and> user_entry x else user_page s rt va' 3)" for va'
    using set_leaf [of s rt 0 3 va t x s'] ti t s' by (simp_all add: tree_inv_def leaf_at_def)
  have tk: "tabs s rt 3 \<subseteq> kernel_frames s" using ti by (simp add: tree_inv_def)
  obtain a b where "pmm_inv s a b" using ti by (auto simp: tree_inv_def)
  then have "pmm_inv s' a b" using pmm_inv_writes [OF _ w] tt tk kernel_not_free by blast
  moreover have "kernel_frames s' = kernel_frames s" using writes_simps [OF w] by (simp add: kernel_frames_def)
  ultimately have "tree_inv s' rt 3" using l(1,2) tk by (auto simp: tree_inv_def)
  then show "vm_inv s' rt" using inv l(3) by (auto simp: vm_inv_def split: if_splits)
  show "remapped s s' rt va (if bit x 0 then Some x else None)"
    using l(3) same_path_iff [OF va, where b = 0] by (auto simp: remapped_def drop_bit_div)
  show "infos s' = infos s" "ft_num s' = ft_num s" using writes_simps [OF w] by simp_all
  show "tabs s' rt 3 = tabs s rt 3" by (rule l(1))
  show "user_page s' rt va' 3 = (if same_path va va' 0 3 then user_links s rt va 3 3 \<and> user_entry x else user_page s rt va' 3)" by (rule l(4))
qed

definition map_outcomes :: "pmm \<Rightarrow> u32 \<Rightarrow> u64 \<Rightarrow> u64 \<Rightarrow> (map_error + unit) set" where
  "map_outcomes s rt va pa =
     (if \<not> is_canonical va then {Inl NonCanonical}
      else if va mod 4096 \<noteq> 0 \<or> pa mod 4096 \<noteq> 0 then {Inl NotAligned}
      else if unat (ft_num s) * 4096 \<le> unat pa then {Inl OutOfRange}
      else if resolve s rt va 3 \<noteq> None then {Inl Conflict}
      else {Inr (), Inl AllocFailed})"

definition mapped_once :: "pmm \<Rightarrow> pmm \<Rightarrow> u32 \<Rightarrow> bool" where
  "mapped_once s s' f \<longleftrightarrow> (\<forall>h. mapping_count (infos s' h) = mapping_count (infos s h) + (if h = f then 1 else 0))"

lemma grown_vm_inv: "grown s s' rt 3 \<Longrightarrow> vm_inv s rt \<Longrightarrow> vm_inv s' rt"
  by (auto simp: vm_inv_def grown_inv grown_resolve)

text \<open>How much of the pool an operation takes at most.\<close>

definition takes_free :: "nat \<Rightarrow> pmm \<Rightarrow> pmm \<Rightarrow> bool" where
  "takes_free k s s' \<longleftrightarrow> free_frames s' \<subseteq> free_frames s \<and> card (free_frames s) \<le> card (free_frames s') + k"

text \<open>Frames the kernel holds stay its own, no pin changes, and only free frames become tables.\<close>

definition keeps_kernel :: "pmm \<Rightarrow> pmm \<Rightarrow> u32 \<Rightarrow> bool" where
  "keeps_kernel s s' rt \<longleftrightarrow> phys_map_base s' = phys_map_base s \<and> tabs s' rt 3 \<subseteq> tabs s rt 3 \<union> free_frames s \<and>
     kernel_frames s \<subseteq> kernel_frames s' \<and> (\<forall>f. pin_count (infos s' f) = pin_count (infos s f))"

lemma keeps_kernel_refl: "keeps_kernel s s rt"
  by (simp add: keeps_kernel_def)

lemma keeps_kernel_trans: "keeps_kernel s t rt \<Longrightarrow> free_frames t \<subseteq> free_frames s \<Longrightarrow> keeps_kernel t u rt \<Longrightarrow> keeps_kernel s u rt"
  by (auto simp: keeps_kernel_def)

lemma keeps_kernel_grown: "grown s s' rt 3 \<Longrightarrow> keeps_kernel s s' rt"
  using kernel_not_free by (auto simp: grown_def same_refs_def keeps_kernel_def)

lemma keeps_kernel_writes: "writes s s' F \<Longrightarrow> tabs s' rt 3 = tabs s rt 3 \<Longrightarrow> keeps_kernel s s' rt"
  using writes_simps by (simp add: keeps_kernel_def kernel_frames_def)

lemma add_mapping_vm:
  assumes inv: "vm_inv s rt" and f: "in_table s f"
  shows "\<exists>n s'. add_mapping s f = Some (n, s') \<and> vm_inv s' rt \<and> same_view s s' rt \<and> mapped_once s s' f \<and> ft_num s' = ft_num s \<and>
    free_frames s' = free_frames s \<and> keeps_kernel s s' rt \<and> (\<forall>va. user_page s' rt va 3 = user_page s rt va 3)"
proof -
  have ti: "tree_inv s rt 3" using inv by (simp add: vm_inv_def)
  obtain a b where p: "pmm_inv s a b" using ti by (auto simp: tree_inv_def)
  let ?s = "put_info s f (infos s f\<lparr>mapping_count := mapping_count (infos s f) + 1\<rparr>)"
  have pi: "pmm_inv ?s a b" by (rule pmm_inv_same_owner [OF p f]) simp
  have k: "kernel_frames ?s = kernel_frames s" by (auto simp: kernel_frames_def)
  have st: "same_tables s ?s (tabs s rt 3)" by (simp add: same_tables_def)
  have kt: "tabs s rt 3 \<subseteq> kernel_frames ?s" using ti k by (simp add: tree_inv_def)
  have "add_mapping s f = Some (mapping_count (infos s f) + 1, ?s)"
    using frame_info_SomeI [OF tree_inv_table(1) [OF ti] f] by (simp add: add_mapping_def fi_add_mapping_def)
  moreover have "same_view s ?s rt" using same_tables_inv(2) [OF inv st pi kt] by (simp add: same_view_def)
  moreover have "free_frames ?s = free_frames s" by (auto simp: free_frames_def)
  moreover have "keeps_kernel s ?s rt" using same_tables_tree [OF st] k by (auto simp: keeps_kernel_def)
  moreover have "\<forall>va. user_page ?s rt va 3 = user_page s rt va 3" using same_tables_tree [OF st] by blast
  ultimately show ?thesis
    using same_tables_inv(1) [OF inv st pi kt] by (auto simp: mapped_once_def)
qed

lemma unat_page: "pa mod 4096 = 0 \<Longrightarrow> unat pa < n * 4096 \<Longrightarrow> n < 2 ^ 32 \<Longrightarrow> unat (ucast (pa div 4096) :: u32) < n" for pa :: u64
proof -
  assume a: "unat pa < n * 4096" "n < 2 ^ 32"
  have "unat (pa div 4096) = unat pa div 4096" by (simp add: unat_div)
  moreover have "unat pa div 4096 < n" using a(1) by (simp add: div_less_iff_less_mult)
  ultimately have "unat (pa div 4096) < n" by simp
  moreover from this have "unat (ucast (pa div 4096) :: u32) = unat (pa div 4096)" using a(2) by (intro unat_ucast_down) simp
  ultimately show ?thesis by simp
qed

lemma pt_map_post:
  assumes inv: "vm_inv s rt" and fl: "valid_flags fl"
  shows "\<exists>r s'. pt_map s (PageTable rt) va pa fl = Some (r, s') \<and> vm_inv s' rt \<and> ft_num s' = ft_num s \<and>
    r \<in> map_outcomes s rt va pa \<and> (r = Inl AllocFailed \<longrightarrow> card (free_frames s) < 3) \<and> takes_free 3 s s' \<and> keeps_kernel s s' rt \<and>
    user_kept s s' rt \<and> (r = Inr () \<longrightarrow> user_mapped s' rt va fl) \<and>
    (if r = Inr () then remapped s s' rt va (Some (pa OR bits fl OR PTE_PRESENT)) \<and> mapped_once s s' (ucast (pa div 4096))
     else same_view s s' rt \<and> (\<forall>f. mapping_count (infos s' f) = mapping_count (infos s f)))"
proof -
  let ?x = "pa OR bits fl OR PTE_PRESENT"
  have ti: "tree_inv s rt 3" using inv by (simp add: vm_inv_def)
  have tb: "table_ok s" by (rule tree_inv_table(1) [OF ti])
  have num: "unat (ft_num s) < 2 ^ 32" using tb by (simp add: table_ok_def)
  have ram: "umul (total_frames s) FRAME_SIZE = Some (ft_num s * 4096)" "unat (ft_num s * 4096) = unat (ft_num s) * 4096"
    using num by (simp_all add: umul_def total_frames_def kconsts unat_mult_no_wrap)
  consider (early) "\<not> is_canonical va \<or> va mod 4096 \<noteq> 0 \<or> pa mod 4096 \<noteq> 0 \<or> unat (ft_num s) * 4096 \<le> unat pa"
    | (go) "is_canonical va" "va mod 4096 = 0" "pa mod 4096 = 0" "unat pa < unat (ft_num s) * 4096" by linarith
  then show ?thesis
  proof cases
    case early
    then show ?thesis
      using ram inv by (auto simp: pt_map_def map_outcomes_def same_view_def takes_free_def keeps_kernel_refl user_kept_refl word_le_nat_alt FRAME_SIZE_def)
  next
    case go
    obtain r s1 where g: "grow s rt va (bits fl AND PTE_USER) 0 3 = Some (r, s1)" "grow_result s rt va (bits fl AND PTE_USER) 0 3 r s1"
      using grow_correct [of s rt 0 3 "bits fl AND PTE_USER" va] ti user_flag by auto
    then have gr: "grown s s1 rt 3" by (simp add: grow_result_def)
    then have refs: "ft_num s1 = ft_num s" "\<And>f. mapping_count (infos s1 f) = mapping_count (infos s f)"
      by (simp_all add: grown_def same_refs_def)
    have tf: "takes_free 3 s s1" using gr g(2) by (simp add: takes_free_def grown_def same_refs_def grow_result_def)
    have uk: "user_kept s s1 rt" using grown_user [OF gr] by (simp add: user_kept_def)
    have kk: "keeps_kernel s s1 rt" by (rule keeps_kernel_grown [OF gr])
    note inv1 = grown_vm_inv [OF gr inv]
    have view: "same_view s s1 rt" using grown_resolve [OF gr] by (simp add: same_view_def)
    have m: "pt_map s (PageTable rt) va pa fl = (case r of Inl e \<Rightarrow> Some (Inl e, s1)
      | Inr frame \<Rightarrow> do {
          a \<leftarrow> entry_va s1 frame (pt_index va 0);
          if mem s1 a AND PTE_PRESENT \<noteq> 0 then Some (Inl Conflict, s1)
          else do { (n, s) \<leftarrow> add_mapping (set_cell s1 a ?x) (ucast (pa div FRAME_SIZE)); Some (Inr (), s) } })"
      using go g(1) ram by (cases r) (simp_all add: pt_map_def map_walk_grow word_le_nat_alt FRAME_SIZE_def Let_def cong: if_cong)
    show ?thesis
    proof (cases r)
      case (Inl e)
      then show ?thesis
        using m g(2) go inv1 view refs tf kk uk by (auto simp: grow_result_def map_outcomes_def)
    next
      case (Inr t)
      then have b: "below s1 rt va 3 3 = Some t" using g(2) by (simp add: grow_result_def)
      have "t \<in> tabs s1 rt 3" using below_tab [of s1 rt va 0 3] b by simp
      moreover have ti1: "tree_inv s1 rt 3" using inv1 by (simp add: vm_inv_def)
      ultimately have a: "entry_va s1 t (pt_index va 0) = Some (frame_va s1 t + 8 * pt_index va 0)"
        using tabs_in_table tree_inv_table(1) [OF ti1] by (simp add: panic_free)
      have r0: "resolve s rt va 3 = (if bit (entry s1 t (pt_index va 0)) 0 then Some (entry s1 t (pt_index va 0), 0) else None)"
        using below_resolve [of s1 rt va 0 3 t] b view by (simp add: same_view_def)
      show ?thesis
      proof (cases "bit (entry s1 t (pt_index va 0)) 0")
        case True
        then show ?thesis
          using m Inr a r0 go inv1 view refs tf kk uk by (auto simp: map_outcomes_def present_iff entry_mem)
      next
        case False
        let ?s2 = "set_cell s1 (frame_va s1 t + 8 * pt_index va 0) ?x"
        note w = write_leaf [OF inv1 go(1) b refl, of ?x]
        have "in_table ?s2 (ucast (pa div 4096))"
          unfolding in_table_iff w(4) refs(1) by (rule unat_page [OF go(3,4) num])
        from add_mapping_vm [OF w(1) this] obtain n s' where d: "add_mapping ?s2 (ucast (pa div 4096)) = Some (n, s')"
          "vm_inv s' rt" "same_view ?s2 s' rt" "mapped_once ?s2 s' (ucast (pa div 4096))" "ft_num s' = ft_num ?s2" "free_frames s' = free_frames ?s2"
          "keeps_kernel ?s2 s' rt" "\<forall>va. user_page s' rt va 3 = user_page ?s2 rt va 3" by blast
        have "pt_map s (PageTable rt) va pa fl = Some (Inr (), s')"
          using m Inr a False d(1) by (simp add: present_iff entry_mem FRAME_SIZE_def)
        moreover have "remapped s s' rt va (Some ?x)"
          using w(2) d(3) view leaf_entry(1) [OF fl, of pa] by (simp add: remapped_def same_view_def)
        moreover have "mapped_once s s' (ucast (pa div 4096))" using d(4) w(3) refs(2) by (simp add: mapped_once_def)
        moreover have "takes_free 3 s s'" using tf d(6) w(3,4) by (simp add: takes_free_def free_frames_def in_table_iff)
        moreover have fr: "free_frames ?s2 = free_frames s1" "free_frames s1 \<subseteq> free_frames s"
          using w(3,4) tf by (auto simp: free_frames_def in_table_iff takes_free_def)
        have "keeps_kernel s ?s2 rt" by (rule keeps_kernel_trans [OF kk fr(2) keeps_kernel_writes [OF writes_set_cell w(5)]]) simp
        then have "keeps_kernel s s' rt" by (rule keeps_kernel_trans) (use fr d(7) in simp_all)
        moreover have "user_kept s s' rt \<and> user_mapped s' rt va fl"
        proof -
          have no: "\<not> user_page s1 rt va' 3" if "same_path va va' 0 3" for va'
          proof -
            have "resolve s1 rt va 3 = None" using r0 False view by (simp add: same_view_def)
            then have "resolve s1 rt va' 3 = None" by (simp only: resolve_same_path [OF that])
            then show ?thesis using user_page_resolved by blast
          qed
          have "user_kept s s' rt" using uk no w(6) d(8) by (auto simp: user_kept_def)
          moreover have "user_links s1 rt va 3 3" if "bit (bits fl) 2" using g(2) Inr user_bit that by (simp add: grow_result_def)
          then have "user_mapped s' rt va fl"
            using w(6) d(8) same_path_iff [OF go(1), where b = 0] user_leaf [OF go(3), of fl] by (auto simp: user_mapped_def drop_bit_div)
          ultimately show ?thesis by blast
        qed
        ultimately show ?thesis using d(2,5) w(4) refs(1) go r0 False by (auto simp: map_outcomes_def)
      qed
    qed
  qed
qed

section \<open>Unmapping a page\<close>

lemma unmap_walk_eq:
  assumes "tree_inv s f n"
  shows "unmap_walk s f va n = Some (case below s f va n n of Some t \<Rightarrow> Inr t
    | None \<Rightarrow> Inl (if resolve s f va n = None then NotMapped else Conflict))"
  using assms
proof (induction n arbitrary: f)
  case (Suc n)
  let ?i = "pt_index va (Suc n)"
  have a: "entry_va s f ?i = Some (frame_va s f + 8 * ?i)" using tree_inv_table [OF Suc.prems] by (simp add: panic_free)
  show ?case
  proof (cases "child s f ?i")
    case None
    then show ?thesis using a by (auto simp: child_def entry_mem present_iff huge_iff split: if_splits)
  next
    case (Some c)
    then have "bit (entry s f ?i) 0" "\<not> bit (entry s f ?i) 7" "phys_of (entry s f ?i) = c" by (simp_all add: child_eq_Some)
    then show ?thesis using a Some Suc.IH [OF child_inv [OF Suc.prems Some]]
      by (auto simp: entry_mem present_iff huge_iff split: option.splits)
  qed
qed simp

lemma below_none_resolve: "below s f va n n = None \<Longrightarrow> resolve s f va n = Some (x, m) \<Longrightarrow> 0 < m"
proof (induction n arbitrary: f)
  case (Suc n)
  then show ?case by (cases "child s f (pt_index va (Suc n))") (auto split: if_splits)
qed simp

definition unmapped_once :: "pmm \<Rightarrow> pmm \<Rightarrow> u32 \<Rightarrow> bool" where
  "unmapped_once s s' f \<longleftrightarrow> (\<forall>h. mapping_count (infos s' h) = mapping_count (infos s h) - (if h = f then 1 else 0))"

lemma remove_mapping_vm:
  assumes inv: "vm_inv s rt" and f: "in_table s f" "0 < mapping_count (infos s f)"
  shows "\<exists>n s'. remove_mapping s f = Some (n, s') \<and> vm_inv s' rt \<and> same_view s s' rt \<and> unmapped_once s s' f \<and>
    ft_num s' = ft_num s \<and> keeps_kernel s s' rt \<and> (f \<in> kernel_frames s \<longrightarrow> free_frames s' = free_frames s)"
proof -
  have ti: "tree_inv s rt 3" using inv by (simp add: vm_inv_def)
  obtain a b where p: "pmm_inv s a b" using ti by (auto simp: tree_inv_def)
  let ?fi = "infos s f\<lparr>mapping_count := mapping_count (infos s f) - 1\<rparr>"
  let ?s = "drained s f ?fi"
  obtain a' where pi: "pmm_inv ?s a' b" by (rule pmm_inv_drained [OF p f(1), of ?fi]) simp_all
  have i: "infos ?s h = (if h = f then infos ?s f else infos s h)" "mapping_count (infos ?s f) = mapping_count (infos s f) - 1"
    "owner_word (infos s f) = raw KERNEL \<longrightarrow> owner_word (infos ?s f) = raw KERNEL" "ft_num ?s = ft_num s" for h
    by (auto simp: drained_def infos_released owner_consts) (simp_all add: released_def)
  have k: "kernel_frames s \<subseteq> kernel_frames ?s"
  proof
    fix h assume "h \<in> kernel_frames s"
    then show "h \<in> kernel_frames ?s" using i(1) [of h] i(3,4) by (cases "h = f") (simp_all add: kernel_frames_def in_table_def)
  qed
  have st: "same_tables s ?s (tabs s rt 3)"
    unfolding same_tables_def
  proof (intro ballI allI impI)
    fix h j assume h: "h \<in> tabs s rt 3" and j: "j < (512 :: u64)"
    then have hk: "owner_word (infos s h) = raw KERNEL" using ti by (auto simp: tree_inv_def kernel_frames_def)
    show "entry ?s h j = entry s h j"
    proof (cases "h = f")
      case True
      then show ?thesis using hk by (simp add: drained_def owner_consts)
    next
      case False
      then have "frame_va s h + 8 * j \<noteq> frame_va s f"
        using cell_inject [OF j, of 0 "phys_map_base s" h f] by (auto simp: frame_va_def)
      then show ?thesis
        by (auto simp: drained_def released_def entry_def frame_va_def write_u32_def)
    qed
  qed
  have kt: "tabs s rt 3 \<subseteq> kernel_frames ?s" using ti k by (auto simp: tree_inv_def)
  have "unmapped_once s ?s f" unfolding unmapped_once_def
  proof
    fix h show "mapping_count (infos ?s h) = mapping_count (infos s h) - (if h = f then 1 else 0)"
      using i(1) [of h] i(2) by (cases "h = f") simp_all
  qed
  moreover have "same_view s ?s rt" using same_tables_inv(2) [OF inv st pi kt] by (simp add: same_view_def)
  moreover have "keeps_kernel s ?s rt"
  proof -
    have "pin_count (infos ?s h) = pin_count (infos s h)" for h by (auto simp: drained_def infos_released)
    moreover have "phys_map_base ?s = phys_map_base s" by (simp add: drained_def released_def)
    ultimately show ?thesis using same_tables_tree [OF st] k by (auto simp: keeps_kernel_def)
  qed
  moreover have "free_frames ?s = free_frames s" if "f \<in> kernel_frames s"
    using that by (auto simp: drained_def kernel_frames_def free_frames_def owner_consts)
  ultimately show ?thesis
    using remove_mapping_eq [OF p, of f] f same_tables_inv(1) [OF inv st pi kt] i(4) by auto
qed

section \<open>Reference counts\<close>

definition entry_frame :: "u64 \<Rightarrow> u32" where
  "entry_frame x = ucast ((x AND ADDR_MASK_4K) div 4096)"

definition mapped_to :: "pmm \<Rightarrow> u32 \<Rightarrow> u32 \<Rightarrow> u64 set" where
  "mapped_to s rt f = {va. is_canonical va \<and> va mod 4096 = 0 \<and> (\<exists>x. resolve s rt va 3 = Some (x, 0) \<and> entry_frame x = f)}"

text \<open>
  The address space is well formed, RAM ends below 64 GiB (what \<^verbatim>\<open>ADDR_MASK_4K\<close> can express),
  and the mapping count of every frame covers the pages mapped to it.
\<close>

definition vm_ok :: "pmm \<Rightarrow> u32 \<Rightarrow> bool" where
  "vm_ok s rt \<longleftrightarrow> vm_inv s rt \<and> unat (ft_num s) \<le> 2 ^ 24 \<and>
     (\<forall>f. card (mapped_to s rt f) \<le> unat (mapping_count (infos s f))) \<and>
     (\<forall>f. mapped_to s rt f \<noteq> {} \<longrightarrow> in_table s f)"

lemma same_page: "va mod 4096 = 0 \<Longrightarrow> va' mod 4096 = 0 \<Longrightarrow> va' div 4096 = va div 4096 \<Longrightarrow> va' = va" for va va' :: u64
  by (metis div_mult_mod_eq)

lemma mapped_to_remapped:
  assumes "remapped s s' rt va x" "is_canonical va" "va mod 4096 = 0"
  shows "mapped_to s' rt f = mapped_to s rt f - {va} \<union> (case x of None \<Rightarrow> {} | Some y \<Rightarrow> if entry_frame y = f then {va} else {})"
proof (rule set_eqI)
  fix va' show "va' \<in> mapped_to s' rt f \<longleftrightarrow> va' \<in> mapped_to s rt f - {va} \<union>
      (case x of None \<Rightarrow> {} | Some y \<Rightarrow> if entry_frame y = f then {va} else {})"
  proof (cases "is_canonical va' \<and> va' mod 4096 = 0")
    case True
    then have "va' div 4096 = va div 4096 \<longleftrightarrow> va' = va" using same_page [OF assms(3), of va'] by auto
    then have "resolve s' rt va' 3 = (if va' = va then map_option (\<lambda>x. (x, 0)) x else resolve s rt va' 3)"
      using assms(1) True by (simp add: remapped_def)
    then show ?thesis using True by (cases x) (auto simp: mapped_to_def)
  next
    case False
    then have "va' \<notin> mapped_to s rt f" "va' \<notin> mapped_to s' rt f" unfolding mapped_to_def mem_Collect_eq by metis+
    moreover have "va' \<noteq> va" using False assms(2,3) by metis
    ultimately show ?thesis by (simp split: option.split)
  qed
qed

lemma mapped_to_same_view: "same_view s s' rt \<Longrightarrow> mapped_to s' rt f = mapped_to s rt f"
  by (simp add: mapped_to_def same_view_def)

lemma masked_page:
  assumes "pa mod 4096 = 0" "unat pa < 2 ^ 36"
  shows "pa AND ADDR_MASK_4K = pa"
proof (rule bit_word_eqI)
  fix n
  have lo: "take_bit 12 pa = 0" using assms(1) by (simp add: take_bit_eq_mod)
  have hi: "take_bit 36 pa = pa"
  proof -
    have "unat (take_bit 36 pa) = unat pa" using assms(2) by (simp add: unsigned_take_bit_eq take_bit_nat_eq_self)
    then show ?thesis by (simp add: word_unat_eq_iff)
  qed
  have "bit pa n \<longrightarrow> 12 \<le> n"
    using arg_cong [OF lo, of "\<lambda>w. bit w n"] by (auto simp: bit_take_bit_iff)
  moreover have "bit pa n \<longrightarrow> n < 36"
    using arg_cong [OF hi, of "\<lambda>w. bit w n"] by (auto simp: bit_take_bit_iff)
  ultimately show "bit (pa AND ADDR_MASK_4K) n = bit pa n"
    unfolding mask_4k by (auto simp: bit_simps dest: bit_imp_le_length)
qed

lemma entry_frame_leaf: "valid_flags fl \<Longrightarrow> pa mod 4096 = 0 \<Longrightarrow> unat pa < 2 ^ 36 \<Longrightarrow>
    entry_frame (pa OR bits fl OR PTE_PRESENT) = ucast (pa div 4096)"
  by (simp add: entry_frame_def leaf_entry(2) masked_page)

lemma vm_ok_map:
  assumes ok: "vm_ok s rt" and s': "vm_inv s' rt" "ft_num s' = ft_num s"
    and va: "is_canonical va" "va mod 4096 = 0" and new: "resolve s rt va 3 = None"
    and re: "remapped s s' rt va (Some x)" and f: "entry_frame x = f" "in_table s f" "mapping_count (infos s f) \<noteq> - 1"
    and cnt: "mapped_once s s' f"
  shows "vm_ok s' rt"
proof -
  have m: "mapped_to s' rt h = (if h = f then insert va (mapped_to s rt h) else mapped_to s rt h)" for h
    using mapped_to_remapped [OF re va, of h] new f(1) by (auto simp: mapped_to_def)
  have v: "va \<notin> mapped_to s rt f" using new by (simp add: mapped_to_def)
  have "1 + mapping_count (infos s f) \<noteq> 0" using f(3) by (metis add.commute eq_neg_iff_add_eq_0)
  from unatSuc [OF this] have "unat (mapping_count (infos s f) + 1) = unat (mapping_count (infos s f)) + 1"
    by (simp add: add.commute)
  then have "card (mapped_to s' rt h) \<le> unat (mapping_count (infos s' h))" for h
    using ok cnt v by (cases "h = f") (simp_all add: m vm_ok_def mapped_once_def)
  moreover have "in_table s' = in_table s" using s'(2) by (auto simp: in_table_def)
  then have "mapped_to s' rt h \<noteq> {} \<longrightarrow> in_table s' h" for h using ok f(2) by (auto simp: m vm_ok_def)
  ultimately show ?thesis using ok s' by (simp add: vm_ok_def)
qed

lemma vm_ok_same:
  assumes "vm_ok s rt" "vm_inv s' rt" "ft_num s' = ft_num s" "same_view s s' rt"
    "\<And>f. mapping_count (infos s' f) = mapping_count (infos s f)"
  shows "vm_ok s' rt"
proof -
  have "in_table s' = in_table s" using assms(3) by (auto simp: in_table_def)
  then show ?thesis using assms mapped_to_same_view [OF assms(4)] by (simp add: vm_ok_def)
qed

lemma vm_ok_unmap:
  assumes ok: "vm_ok s rt" and s': "vm_inv s' rt" "ft_num s' = ft_num s"
    and va: "is_canonical va" "va mod 4096 = 0" and old: "resolve s rt va 3 = Some (x, 0)"
    and re: "remapped s s' rt va None" and f: "entry_frame x = f" and cnt: "unmapped_once s s' f"
  shows "vm_ok s' rt"
proof -
  have v: "va \<in> mapped_to s rt f" "h \<noteq> f \<Longrightarrow> va \<notin> mapped_to s rt h" for h using old va f by (auto simp: mapped_to_def)
  have m: "mapped_to s' rt h = mapped_to s rt h - {va}" for h using mapped_to_remapped [OF re va, of h] by simp
  have le: "card (mapped_to s rt h) \<le> unat (mapping_count (infos s h))" for h using ok by (simp add: vm_ok_def)
  have "card (mapped_to s' rt f) = card (mapped_to s rt f) - 1" using v(1) by (simp add: m)
  moreover have pos: "0 < card (mapped_to s rt f)" using v(1) by (auto simp: card_gt_0_iff)
  then have "unat (mapping_count (infos s f) - 1) = unat (mapping_count (infos s f)) - 1"
    using le [of f] by (simp add: unat_sub word_le_nat_alt)
  ultimately have "card (mapped_to s' rt f) \<le> unat (mapping_count (infos s' f))"
    using cnt le [of f] by (simp add: unmapped_once_def)
  moreover have "card (mapped_to s' rt h) \<le> unat (mapping_count (infos s' h))" if "h \<noteq> f" for h
    using that v(2) [OF that] cnt le [of h] by (simp add: m unmapped_once_def)
  moreover have "in_table s' = in_table s" using s'(2) by (auto simp: in_table_def)
  ultimately show ?thesis using ok s' unfolding vm_ok_def m by (metis Diff_empty Diff_insert0 empty_Diff)
qed

lemma mapped_counted:
  assumes ok: "vm_ok s rt" and va: "is_canonical va" "va mod 4096 = 0" "resolve s rt va 3 = Some (x, 0)"
  shows "in_table s (entry_frame x)" "0 < mapping_count (infos s (entry_frame x))"
proof -
  have v: "va \<in> mapped_to s rt (entry_frame x)" using va by (simp add: mapped_to_def)
  then show "in_table s (entry_frame x)" using ok by (auto simp: vm_ok_def)
  have "0 < card (mapped_to s rt (entry_frame x))" using v by (auto simp: card_gt_0_iff)
  also have "\<dots> \<le> unat (mapping_count (infos s (entry_frame x)))" using ok by (simp add: vm_ok_def)
  finally show "0 < mapping_count (infos s (entry_frame x))" by (simp add: word_less_nat_alt)
qed

section \<open>Unmap and the empty table\<close>

definition unmap_outcome :: "pmm \<Rightarrow> u32 \<Rightarrow> u64 \<Rightarrow> map_error + unit" where
  "unmap_outcome s rt va =
     (if \<not> is_canonical va then Inl NonCanonical else if va mod 4096 \<noteq> 0 then Inl NotAligned
      else case resolve s rt va 3 of None \<Rightarrow> Inl NotMapped | Some (x, m) \<Rightarrow> if m = 0 then Inr () else Inl Conflict)"

lemma pt_unmap_post:
  assumes ok: "vm_ok s rt"
  shows "\<exists>s'. pt_unmap s (PageTable rt) va = Some (unmap_outcome s rt va, s') \<and> vm_ok s' rt \<and> ft_num s' = ft_num s \<and>
    (if unmap_outcome s rt va = Inr ()
     then remapped s s' rt va None \<and> unmapped_once s s' (entry_frame (fst (the (resolve s rt va 3)))) \<and> keeps_kernel s s' rt \<and>
       (entry_frame (fst (the (resolve s rt va 3))) \<in> kernel_frames s \<longrightarrow> free_frames s' = free_frames s)
     else s' = s)"
proof (cases "is_canonical va \<and> va mod 4096 = 0")
  case False
  then show ?thesis using ok by (auto simp: pt_unmap_def unmap_outcome_def FRAME_SIZE_def)
next
  case True
  have inv: "vm_inv s rt" and ti: "tree_inv s rt 3" using ok by (simp_all add: vm_ok_def vm_inv_def)
  have w: "unmap_walk s rt va 3 = Some (case below s rt va 3 3 of Some t \<Rightarrow> Inr t
    | None \<Rightarrow> Inl (if resolve s rt va 3 = None then NotMapped else Conflict))" by (rule unmap_walk_eq [OF ti])
  show ?thesis
  proof (cases "below s rt va 3 3")
    case None
    then show ?thesis
      using w True ok below_none_resolve [OF None]
      by (auto simp: pt_unmap_def unmap_outcome_def FRAME_SIZE_def split: option.splits)
  next
    case (Some t)
    have "t \<in> tabs s rt 3" using below_tab [of s rt va 0 3] Some by simp
    then have a: "entry_va s t (pt_index va 0) = Some (frame_va s t + 8 * pt_index va 0)"
      using tabs_in_table [OF ti] tree_inv_table(1) [OF ti] by (simp add: panic_free)
    let ?x = "entry s t (pt_index va 0)" and ?s1 = "set_cell s (frame_va s t + 8 * pt_index va 0) 0"
    have r: "resolve s rt va 3 = (if bit ?x 0 then Some (?x, 0) else None)"
      using below_resolve [of s rt va 0 3 t] Some by simp
    show ?thesis
    proof (cases "bit ?x 0")
      case False
      then show ?thesis using w Some True ok a r
        by (auto simp: pt_unmap_def unmap_outcome_def FRAME_SIZE_def present_iff entry_mem)
    next
      case bit: True
      note l = write_leaf [OF inv _ Some refl, of 0]
      have re: "remapped s ?s1 rt va None" using l(2) True by simp
      have mc: "in_table ?s1 (entry_frame ?x)" "0 < mapping_count (infos ?s1 (entry_frame ?x))"
        using mapped_counted [OF ok, of va ?x] r bit True l(3,4) by (simp_all add: in_table_def)
      from remove_mapping_vm [OF l(1) mc] True obtain n s' where d: "remove_mapping ?s1 (entry_frame ?x) = Some (n, s')"
        "vm_inv s' rt" "same_view ?s1 s' rt" "unmapped_once ?s1 s' (entry_frame ?x)" "ft_num s' = ft_num ?s1"
        "keeps_kernel ?s1 s' rt" "entry_frame ?x \<in> kernel_frames ?s1 \<longrightarrow> free_frames s' = free_frames ?s1" by blast
      have e: "pt_unmap s (PageTable rt) va = Some (Inr (), s')"
        using w Some True a bit d(1) by (simp add: pt_unmap_def FRAME_SIZE_def present_iff entry_mem entry_frame_def)
      have re': "remapped s s' rt va None" using re d(3) by (simp add: remapped_def same_view_def)
      have u: "unmapped_once s s' (entry_frame ?x)" using d(4) l(3) True by (simp add: unmapped_once_def)
      have "vm_ok s' rt"
        by (rule vm_ok_unmap [OF ok d(2) _ _ _ _ re' refl u]) (use r bit True l(4) d(5) in auto)
      moreover have fr: "free_frames ?s1 = free_frames s" "kernel_frames ?s1 = kernel_frames s"
        using l(3,4) True by (simp_all add: free_frames_def kernel_frames_def in_table_def)
      have "keeps_kernel s ?s1 rt" by (rule keeps_kernel_writes [OF writes_set_cell]) (use l(5) True in simp_all)
      then have "keeps_kernel s s' rt" by (rule keeps_kernel_trans) (use fr d(6) in simp_all)
      ultimately show ?thesis using e re' u r bit True l(4) d(5,7) fr by (simp add: unmap_outcome_def)
    qed
  qed
qed

lemma pt_new_ok:
  assumes inv: "pmm_inv s l g" and ram: "unat (ft_num s) \<le> 2 ^ 24" and free: "free_frames s \<noteq> {}"
  shows "\<exists>rt s'. pt_new s = Some (Some (PageTable rt), s') \<and> vm_ok s' rt \<and> (\<forall>va. resolve s' rt va 3 = None) \<and>
    ft_num s' = ft_num s \<and> rt \<in> free_frames s \<and> free_frames s' = free_frames s - {rt} \<and>
    (\<forall>f. mapping_count (infos s' f) = mapping_count (infos s f))"
  using inv
proof (cases rule: alloc_frame_cases)
  case none
  with free show ?thesis by simp
next
  case (some rt s1 l1 g1)
  obtain l' g' where z: "zero_table s1 rt = Some (zeroed s1 rt)" "pmm_inv (zeroed s1 rt) l' g'" "rt \<in> free_frames s"
    "rt \<in> kernel_frames (zeroed s1 rt)" "same_refs s (zeroed s1 rt)" "same_tables s (zeroed s1 rt) (kernel_frames s)"
    "\<forall>i<512. entry (zeroed s1 rt) rt i = 0" "rt \<notin> free_frames (zeroed s1 rt)"
    by (rule alloc_table [OF inv some(2)])
  note e = empty_table [OF z(7)]
  have "vm_inv (zeroed s1 rt) rt" using z(2,4) e by (auto simp: vm_inv_def tree_inv_def)
  moreover have "free_frames (zeroed s1 rt) = free_frames s - {rt}"
  proof -
    have "free_frames (zeroed s1 rt) = free_frames s1"
      by (auto simp: free_frames_def in_table_def zeroed_def zero_range_def)
    also have "\<dots> = free_frames s - {rt}" using alloc_frame_post [OF inv] some(2) by simp
    finally show ?thesis .
  qed
  moreover have "mapped_to (zeroed s1 rt) rt f = {}" for f by (simp add: mapped_to_def e(3))
  ultimately show ?thesis
    using some(2) z(1,3,5) e(3) ram by (auto simp: pt_new_def vm_ok_def same_refs_def)
qed

end
