(* ===== verification/Vmm_Space.thy ===== *)
theory Vmm_Space
  imports Vmm_Map
begin

text \<open>
  The kernel windows of \<^verbatim>\<open>new_kernel\<close>, the page tables as an \<open>address_space\<close>, and the properties
  of the virtual memory manager.
\<close>

section \<open>The kernel windows\<close>

lemma three: "(1 :: nat) + 2 = 3"
  by simp

lemma pts_child: "child s f i = Some c \<Longrightarrow> i < 512 \<Longrightarrow> t \<in> pts s c n \<Longrightarrow> t \<in> pts s f (Suc n)"
  by force

lemma below_pts: "below s f va (1 + k) k = Some t \<Longrightarrow> child s t (pt_index va 1) = Some c \<Longrightarrow> c \<in> pts s f (1 + k)"
proof (induction k arbitrary: f)
  case 0
  then show ?case using pts_child [of s f "pt_index va 1" c c 0] by simp
next
  case (Suc k)
  then obtain d where d: "child s f (pt_index va (Suc (1 + k))) = Some d" "below s d va (1 + k) k = Some t"
    by (auto split: option.splits)
  with pts_child [OF d(1) _ Suc.IH [OF d(2) Suc.prems(2)]] show ?case by simp
qed

definition same_counts :: "pmm \<Rightarrow> pmm \<Rightarrow> bool" where
  "same_counts s s' \<longleftrightarrow> phys_map_base s' = phys_map_base s \<and> ft_num s' = ft_num s \<and> free_frames s' \<subseteq> free_frames s \<and>
     (\<forall>f. mapping_count (infos s' f) = mapping_count (infos s f) \<and> pin_count (infos s' f) = pin_count (infos s f)) \<and> (\<forall>f. f \<notin> free_frames s \<longrightarrow> infos s' f = infos s f)"

lemma same_counts_trans: "same_counts s t \<Longrightarrow> same_counts t u \<Longrightarrow> same_counts s u"
  unfolding same_counts_def by (metis order_trans subsetD)

text \<open>An address space of huge pages only.\<close>

definition windows_inv :: "pmm \<Rightarrow> u32 \<Rightarrow> bool" where
  "windows_inv s rt \<longleftrightarrow> vm_inv s rt \<and> pts s rt 3 = {}"

lemma write_huge:
  assumes inv: "windows_inv s rt" and va: "is_canonical va" and t: "below s rt va 3 2 = Some t"
    and free: "resolve s rt va 3 = None" and x: "bit x 0" "bit x 7"
    and s': "s' = set_cell s (frame_va s t + 8 * pt_index va 1) x"
  shows "\<not> bit (entry s t (pt_index va 1)) 0" "windows_inv s' rt" "same_counts s s'" "free_frames s' = free_frames s"
    "is_canonical va' \<Longrightarrow> resolve s' rt va' 3 = (if va' div 0x200000 = va div 0x200000 then Some (x, 1) else resolve s rt va' 3)"
proof -
  have ti: "tree_inv s rt 3" using inv by (simp add: windows_inv_def vm_inv_def)
  have t': "below s rt va (1 + 2) 2 = Some t" using t by (simp add: numeral_3_eq_3)
  have "resolve s t va 1 = None" using below_resolve [OF t', unfolded three] free by (simp only:)
  moreover have "child s t (pt_index va 1) = None"
    using below_pts [OF t', unfolded three] inv unfolding windows_inv_def by (metis empty_iff not_Some_eq)
  ultimately show e: "\<not> bit (entry s t (pt_index va 1)) 0" by (auto split: if_splits)
  have l: "tabs s' rt 3 = tabs s rt 3" "tree_ok s' rt 3" "pts s' rt 3 = pts s rt 3"
    "resolve s' rt va' 3 = (if same_path va va' 1 3 then Some (x, 1) else resolve s rt va' 3)" for va'
  proof -
    have "tree_ok s rt 3" using ti by (simp add: tree_inv_def)
    moreover have "leaf_at 1 (entry s t (pt_index va 1))" "leaf_at 1 x" using e x by (simp_all add: leaf_at_def)
    ultimately have "tabs s' rt 3 = tabs s rt 3 \<and> pts s' rt 3 = pts s rt 3 \<and> tree_ok s' rt 3 \<and>
      (\<forall>va'. resolve s' rt va' 3 = (if same_path va va' 1 3 then if bit x 0 then Some (x, 1) else None else resolve s rt va' 3) \<and>
        user_page s' rt va' 3 = (if same_path va va' 1 3 then user_links s rt va 3 2 \<and> user_entry x else user_page s rt va' 3))"
      using set_leaf [OF _ t' _ _ s', unfolded three] by blast
    then show "tabs s' rt 3 = tabs s rt 3" "tree_ok s' rt 3" "pts s' rt 3 = pts s rt 3"
      "resolve s' rt va' 3 = (if same_path va va' 1 3 then Some (x, 1) else resolve s rt va' 3)"
      using x(1) by simp_all
  qed
  have w: "writes s s' {t}" unfolding s' by (rule writes_set_cell) simp
  have tk: "tabs s rt 3 \<subseteq> kernel_frames s" using ti by (simp add: tree_inv_def)
  have "t \<in> tabs s rt 3" using below_tab [OF t'] unfolding three .
  moreover obtain a b where "pmm_inv s a b" using ti by (auto simp: tree_inv_def)
  ultimately have "pmm_inv s' a b" using pmm_inv_writes [OF _ w] tk kernel_not_free by blast
  moreover have "kernel_frames s' = kernel_frames s" using writes_simps [OF w] by (simp add: kernel_frames_def)
  ultimately have "tree_inv s' rt 3" using l(1,2) tk by (auto simp: tree_inv_def)
  then show "windows_inv s' rt" using inv l(3,4) by (auto simp: windows_inv_def vm_inv_def split: if_splits)
  show "same_counts s s'" using writes_simps [OF w] by (simp add: same_counts_def)
  show "free_frames s' = free_frames s" by (rule writes_simps(8) [OF w])
  show "resolve s' rt va' 3 = (if va' div 0x200000 = va div 0x200000 then Some (x, 1) else resolve s rt va' 3)"
    if "is_canonical va'"
    using l(4) [of va'] same_path_iff [OF va that, where b = 1] by (simp add: drop_bit_div)
qed

lemma window_step_post:
  assumes inv: "windows_inv s rt" and va: "is_canonical va" and free: "resolve s rt va 3 = None"
    and x: "bit (pa OR leaf) 0" "bit (pa OR leaf) 7"
  obtains (ok) s' where "window_step s rt va pa leaf = Some (Inr (), s')" "windows_inv s' rt" "same_counts s s'"
      "\<And>va'. is_canonical va' \<Longrightarrow>
        resolve s' rt va' 3 = (if va' div 0x200000 = va div 0x200000 then Some (pa OR leaf, 1) else resolve s rt va' 3)"
      "card (free_frames s) \<le> card (free_frames s') + 2"
    | (dry) s' where "window_step s rt va pa leaf = Some (Inl AllocFailed, s')" "card (free_frames s) < 2"
proof -
  have ti: "tree_inv s rt 3" using inv by (simp add: windows_inv_def vm_inv_def)
  obtain r s1 where g: "grow s rt va 0 1 2 = Some (r, s1)" "grow_result s rt va 0 1 2 r s1"
    using grow_correct [of s rt 1 2 0 va] ti by (auto simp: numeral_3_eq_3)
  have gr: "grown s s1 rt 3" "pts s1 rt 3 = pts s rt 3" using g(2) by (simp_all add: grow_result_def numeral_3_eq_3)
  then have inv1: "windows_inv s1 rt" using inv grown_vm_inv by (auto simp: windows_inv_def)
  have sc: "same_counts s s1" using gr by (simp add: grown_def same_refs_def same_counts_def)
  have view: "resolve s1 rt v 3 = resolve s rt v 3" for v using grown_resolve [OF gr(1)] .
  show thesis
  proof (cases r)
    case (Inl e)
    then have "e = AllocFailed" "card (free_frames s) < 2" using g(2) free by (auto simp: grow_result_def numeral_3_eq_3)
    then show ?thesis using dry g(1) Inl by (simp add: window_step_def window_walk_grow)
  next
    case (Inr t)
    then have b: "below s1 rt va 3 2 = Some t" using g(2) by (simp add: grow_result_def numeral_3_eq_3)
    have ti1: "tree_inv s1 rt 3" using inv1 by (simp add: windows_inv_def vm_inv_def)
    have "t \<in> tabs s1 rt 3" using below_tab [of s1 rt va 1 2] b unfolding three by blast
    then have a: "entry_va s1 t (pt_index va 1) = Some (frame_va s1 t + 8 * pt_index va 1)"
      using tabs_in_table [OF ti1] tree_inv_table(1) [OF ti1] by (simp add: panic_free)
    note w = write_huge [OF inv1 va b _ x refl]
    have e: "\<not> bit (entry s1 t (pt_index va 1)) 0" using w(1) view free by simp
    show ?thesis
    proof (rule ok)
      show "window_step s rt va pa leaf = Some (Inr (), set_cell s1 (frame_va s1 t + 8 * pt_index va 1) (pa OR leaf))"
        using g(1) Inr a e by (simp add: window_step_def window_walk_grow present_iff entry_mem)
      show "windows_inv (set_cell s1 (frame_va s1 t + 8 * pt_index va 1) (pa OR leaf)) rt" using w(2) view free by simp
      show "same_counts s (set_cell s1 (frame_va s1 t + 8 * pt_index va 1) (pa OR leaf))"
        using w(3) view free sc by (auto simp: same_counts_def)
      show "resolve (set_cell s1 (frame_va s1 t + 8 * pt_index va 1) (pa OR leaf)) rt va' 3 =
          (if va' div 0x200000 = va div 0x200000 then Some (pa OR leaf, 1) else resolve s rt va' 3)" if "is_canonical va'" for va'
        using w(5) [OF _ that] view free by simp
      show "card (free_frames s) \<le> card (free_frames (set_cell s1 (frame_va s1 t + 8 * pt_index va 1) (pa OR leaf))) + 2"
        using w(4) view free g(2) by (simp add: grow_result_def)
    qed
  qed
qed

lemma mask_2m: "ADDR_MASK_2M = mask 44 AND NOT (mask 21)"
  by (simp add: ADDR_MASK_2M_def mask_eq_exp_minus_1)

lemma huge_leaf:
  assumes "valid_flags fl" "unat pa mod 0x200000 = 0" "unat pa < 2 ^ 44"
  shows "(pa OR bits fl) AND ADDR_MASK_2M = pa"
proof (rule bit_word_eqI)
  fix n
  have lo: "take_bit 21 pa = 0"
  proof -
    have "unat (take_bit 21 pa) = 0" using assms(2) by (simp add: take_bit_eq_mod unat_mod)
    then show ?thesis by (simp add: unat_eq_zero)
  qed
  have hi: "take_bit 44 pa = pa"
  proof -
    have "unat (take_bit 44 pa) = unat pa" using assms(3) by (simp add: unsigned_take_bit_eq take_bit_nat_eq_self)
    then show ?thesis by (simp add: word_unat_eq_iff)
  qed
  have "bit pa n \<longrightarrow> 21 \<le> n \<and> n < 44"
    using arg_cong [OF lo, of "\<lambda>w. bit w n"] arg_cong [OF hi, of "\<lambda>w. bit w n"] by (auto simp: bit_take_bit_iff)
  moreover have "bit (bits fl) n \<longrightarrow> n < 21 \<or> 44 \<le> n" using valid_flags_bits [OF assms(1)] by force
  ultimately show "bit ((pa OR bits fl) AND ADDR_MASK_2M) n = bit pa n"
    unfolding mask_2m by (auto simp: bit_simps dest: bit_imp_le_length)
qed

lemma low_21: "unat (x AND 0x1fffff) = unat x mod 0x200000" for x :: u64
proof -
  have m: "(0x1fffff :: u64) = mask 21" by (simp add: mask_eq_exp_minus_1)
  show ?thesis unfolding m take_bit_eq_mask [symmetric] by (simp add: take_bit_eq_mod unat_mod)
qed

text \<open>What a window maps: \<open>x\<close> is translated by offset, through a huge page.\<close>

definition window_maps :: "pmm \<Rightarrow> u32 \<Rightarrow> u64 \<Rightarrow> u64 \<Rightarrow> u64 \<Rightarrow> bool" where
  "window_maps s rt va pa x \<longleftrightarrow> (\<exists>y. resolve s rt x 3 = Some (y, 1) \<and> leaf_addr x (y, 1) = pa + (x - va))"

lemma huge_page_maps:
  assumes "valid_flags fl" "unat pa mod 0x200000 = 0" "unat pa < 2 ^ 44" "unat va mod 0x200000 = 0" "x div 0x200000 = va div 0x200000"
  shows "leaf_addr x (pa OR bits fl, 1) = pa + (x - va)"
proof -
  have q: "unat x div 0x200000 = unat va div 0x200000" using arg_cong [OF assms(5), of unat] by (simp add: unat_div)
  have xv: "unat x = unat va + unat x mod 0x200000"
    using assms(4) q by (metis add.right_neutral div_mult_mod_eq)
  then have "va \<le> x" by (simp add: word_le_nat_alt)
  then have "unat (x - va) = unat x mod 0x200000" using xv by (simp add: unat_sub)
  then have "x AND 0x1fffff = x - va" using low_21 [of x] by (simp add: word_unat_eq_iff)
  then show ?thesis using huge_leaf [OF assms(1-3)] by (simp add: leaf_addr_def)
qed

lemma page_of_range:
  fixes x va :: u64
  assumes "unat va mod 0x200000 = 0" "unat va + 0x200000 \<le> 2 ^ 64"
  shows "x div 0x200000 = va div 0x200000 \<longleftrightarrow> unat va \<le> unat x \<and> unat x < unat va + 0x200000"
proof -
  have "x div 0x200000 = va div 0x200000 \<longleftrightarrow> unat x div 0x200000 = unat va div 0x200000"
    by (simp add: word_unat_eq_iff unat_div)
  also have "\<dots> \<longleftrightarrow> unat va \<le> unat x \<and> unat x < unat va + 0x200000"
  proof -
    have v: "unat va = unat va div 0x200000 * 0x200000" using assms(1) by (metis add.right_neutral div_mult_mod_eq)
    have "unat x = unat x div 0x200000 * 0x200000 + unat x mod 0x200000" "unat x mod 0x200000 < 0x200000" by simp_all
    with v show ?thesis by linarith
  qed
  finally show ?thesis .
qed

lemma window_loop_post:
  assumes "windows_inv s rt" "valid_flags fl" "bit (bits fl) 0" "bit (bits fl) 7"
    and "unat va mod 0x200000 = 0" "unat pa mod 0x200000 = 0" "unat e = unat va + n * 0x200000" "unat pa + n * 0x200000 \<le> 2 ^ 44"
    and "\<And>x. unat va \<le> unat x \<Longrightarrow> unat x < unat e \<Longrightarrow> is_canonical x \<and> resolve s rt x 3 = None"
  shows "\<exists>r s'. window_loop s rt va pa e (bits fl) = Some (r, s') \<and>
    (r = Inr () \<and> windows_inv s' rt \<and> same_counts s s' \<and> card (free_frames s) \<le> card (free_frames s') + 2 * n \<and>
       (\<forall>x. is_canonical x \<longrightarrow> (if unat va \<le> unat x \<and> unat x < unat e then window_maps s' rt va pa x
          else resolve s' rt x 3 = resolve s rt x 3)) \<or>
     r = Inl AllocFailed \<and> card (free_frames s) < 2 * n)"
  using assms(1,5-9)
proof (induction n arbitrary: s va pa)
  case 0
  then have "\<not> va < e" by (simp add: word_less_nat_alt)
  then show ?case using 0 by (auto simp: window_loop.simps same_counts_def)
next
  case (Suc n)
  have lt: "va < e" using Suc.prems by (simp add: word_less_nat_alt)
  have eb: "unat e < 2 ^ 64" by (rule unat_u64_bound)
  have vb: "unat va + 0x200000 \<le> unat e" using Suc.prems(4) by simp
  have fl: "bit (pa OR bits fl) 0" "bit (pa OR bits fl) 7" using assms(3,4) by (simp_all add: bit_or_iff)
  have "is_canonical va \<and> resolve s rt va 3 = None" using Suc.prems(6) lt by (simp add: word_less_nat_alt)
  then consider (ok) s1 where "window_step s rt va pa (bits fl) = Some (Inr (), s1)" "windows_inv s1 rt" "same_counts s s1"
      "\<And>va'. is_canonical va' \<Longrightarrow>
        resolve s1 rt va' 3 = (if va' div 0x200000 = va div 0x200000 then Some (pa OR bits fl, 1) else resolve s rt va' 3)"
      "card (free_frames s) \<le> card (free_frames s1) + 2"
    | (dry) s1 where "window_step s rt va pa (bits fl) = Some (Inl AllocFailed, s1)" "card (free_frames s) < 2"
    using window_step_post [OF Suc.prems(1) _ _ fl] by metis
  then show ?case
  proof cases
    case dry
    then show ?thesis using lt by (simp add: window_loop.simps)
  next
    case ok
    have va': "uadd va LARGE_PAGE = Some (va + 0x200000)" "unat (va + 0x200000) = unat va + 0x200000"
      using vb eb by (simp_all add: uadd_def unat_add_no_wrap LARGE_PAGE_def)
    have pa': "uadd pa LARGE_PAGE = Some (pa + 0x200000)" "unat (pa + 0x200000) = unat pa + 0x200000"
      using Suc.prems(5) by (simp_all add: uadd_def unat_add_no_wrap LARGE_PAGE_def)
    have page: "x div 0x200000 = va div 0x200000 \<longleftrightarrow> unat va \<le> unat x \<and> unat x < unat va + 0x200000" for x
      by (rule page_of_range) (use Suc.prems(2) vb eb in simp_all)
    have step: "window_loop s rt va pa e (bits fl) = window_loop s1 rt (va + 0x200000) (pa + 0x200000) e (bits fl)"
      using lt ok(1) va'(1) pa'(1) by (subst window_loop.simps) simp
    have rest: "is_canonical x \<and> resolve s1 rt x 3 = None" if "unat (va + 0x200000) \<le> unat x" "unat x < unat e" for x
      using that Suc.prems(6) [of x] ok(4) [of x] page [of x] va'(2) by auto
    have first: "window_maps s1 rt va pa x" if "is_canonical x" "unat va \<le> unat x" "unat x < unat va + 0x200000" for x
      using that ok(4) [of x] page [of x] huge_page_maps [OF assms(2) Suc.prems(3) _ Suc.prems(2), of x] Suc.prems(5)
      by (auto simp: window_maps_def)
    from Suc.IH [OF ok(2), of "va + 0x200000" "pa + 0x200000"] obtain r s' where ih:
      "window_loop s1 rt (va + 0x200000) (pa + 0x200000) e (bits fl) = Some (r, s')"
      "r = Inr () \<and> windows_inv s' rt \<and> same_counts s1 s' \<and> card (free_frames s1) \<le> card (free_frames s') + 2 * n \<and>
       (\<forall>x. is_canonical x \<longrightarrow> (if unat va + 0x200000 \<le> unat x \<and> unat x < unat e then window_maps s' rt (va + 0x200000) (pa + 0x200000) x
          else resolve s' rt x 3 = resolve s1 rt x 3)) \<or>
       r = Inl AllocFailed \<and> card (free_frames s1) < 2 * n"
      using Suc.prems rest va'(2) pa'(2) by auto
    show ?thesis
    proof (cases "r = Inr ()")
      case False
      then show ?thesis using ih step ok(5) by auto
    next
      case True
      have "if unat va \<le> unat x \<and> unat x < unat e then window_maps s' rt va pa x else resolve s' rt x 3 = resolve s rt x 3"
        if "is_canonical x" for x
      proof (cases "unat va + 0x200000 \<le> unat x \<and> unat x < unat e")
        case in2: True
        then have "window_maps s' rt (va + 0x200000) (pa + 0x200000) x" using ih(2) True that by auto
        then show ?thesis using in2 by (auto simp: window_maps_def algebra_simps)
      next
        case out: False
        then have "resolve s' rt x 3 = resolve s1 rt x 3" using ih(2) True that by auto
        then show ?thesis using out first [OF that] ok(4) [OF that] page [of x] vb
          by (auto simp: window_maps_def)
      qed
      then show ?thesis using ih step True ok(3,5) by (auto simp: same_counts_def)
    qed
  qed
qed

lemma is_canonical_low: "unat va < 2 ^ 47 \<Longrightarrow> is_canonical va"
proof -
  assume a: "unat va < 2 ^ 47"
  have "unat va div 2 ^ 47 = 0" "unat va div 2 ^ 48 = 0" using a by simp_all
  then have "unat (drop_bit 47 va) = 0" "unat (drop_bit 48 va) = 0" by (simp_all only: unat_drop_bit_eq drop_bit_nat_def)
  then have "drop_bit 47 va = 0" "drop_bit 48 va = 0" by (simp_all only: unat_eq_zero)
  then show ?thesis by (simp add: is_canonical_def)
qed

lemma is_canonical_high: "0xFFFF800000000000 \<le> va \<Longrightarrow> is_canonical va"
proof -
  assume "0xFFFF800000000000 \<le> va"
  then have a: "0xFFFF800000000000 \<le> unat va" by (simp add: word_le_nat_alt)
  have b: "unat va < 2 ^ 64" by (rule unat_u64_bound)
  have "unat va div 2 ^ 47 = 0x1FFFF" "unat va div 2 ^ 48 = 0xFFFF" using a b by simp_all
  then have "unat (drop_bit 47 va) = 0x1FFFF" "unat (drop_bit 48 va) = 0xFFFF"
    by (simp_all only: unat_drop_bit_eq drop_bit_nat_def)
  then have "unat (drop_bit 47 va) = unat (0x1FFFF :: u64)" "unat (drop_bit 48 va) = unat (0xFFFF :: u64)" by simp_all
  then have "drop_bit 47 va = 0x1FFFF" "drop_bit 48 va = 0xFFFF" by (simp_all only: word_unat_eq_iff)
  then show ?thesis by (simp add: is_canonical_def)
qed

lemma map_window_post:
  assumes inv: "windows_inv s rt" and fl: "valid_flags fl"
    and al: "unat va mod 0x200000 = 0" "unat n mod 0x200000 = 0" and n: "unat n \<le> 2 ^ 44" "unat va + unat n < 2 ^ 64"
    and free: "\<And>x. unat va \<le> unat x \<Longrightarrow> unat x < unat va + unat n \<Longrightarrow> is_canonical x \<and> resolve s rt x 3 = None"
  shows "\<exists>r s'. map_window s (PageTable rt) va 0 n fl = Some (r, s') \<and>
    (r = Inr () \<and> windows_inv s' rt \<and> same_counts s s' \<and>
       card (free_frames s) \<le> card (free_frames s') + 2 * (unat n div 0x200000) \<and>
       (\<forall>x. is_canonical x \<longrightarrow> (if unat va \<le> unat x \<and> unat x < unat va + unat n then window_maps s' rt va 0 x
          else resolve s' rt x 3 = resolve s rt x 3)) \<or>
     r = Inl AllocFailed \<and> card (free_frames s) < 2 * (unat n div 0x200000))"
proof (cases "n = 0")
  case True
  then show ?thesis using inv by (auto simp: map_window_def same_counts_def)
next
  case False
  let ?fl = "with_flags (with_flags fl F_PRESENT) F_HUGE"
  have v: "valid_flags ?fl" using fl valid_flags_consts valid_flags_with by blast
  have b: "bit (bits ?fl) 0" "bit (bits ?fl) 7"
    unfolding with_flags_def F_PRESENT_def F_HUGE_def PTE_PRESENT_def PTE_HUGE_def flags.sel
    by (simp_all only: bit_or_iff bit_flag) simp_all
  have e: "uadd va n = Some (va + n)" "unat (va + n) = unat va + unat n" using n(2) by (simp_all add: uadd_def unat_add_no_wrap)
  have m: "va mod 0x200000 = 0" "n mod 0x200000 = 0"
    using al by (simp_all add: word_unat_eq_iff unat_mod)
  have q: "unat n = unat n div 0x200000 * 0x200000" using al(2) by (metis add.right_neutral div_mult_mod_eq)
  have "map_window s (PageTable rt) va 0 n fl = window_loop s rt va 0 (va + n) (bits ?fl)"
    using False m e(1) by (simp add: map_window_def LARGE_PAGE_def)
  then show ?thesis
    using window_loop_post [OF inv v b al(1), of 0 "va + n" "unat n div 0x200000"] e(2) q n(1) free by auto
qed

lemma zero_table_windows:
  assumes inv: "pmm_inv s l g" and free: "free_frames s \<noteq> {}"
  obtains rt s1 where "alloc_frame s = Some (Some rt, s1)" "zero_table s1 rt = Some (zeroed s1 rt)"
    "windows_inv (zeroed s1 rt) rt" "same_counts s (zeroed s1 rt)" "\<forall>va. resolve (zeroed s1 rt) rt va 3 = None"
    "card (free_frames s) = Suc (card (free_frames (zeroed s1 rt)))"
  using inv
proof (cases rule: alloc_frame_cases)
  case none
  with free show thesis by simp
next
  case (some rt s1 l1 g1)
  obtain l' g' where z: "zero_table s1 rt = Some (zeroed s1 rt)" "pmm_inv (zeroed s1 rt) l' g'" "rt \<in> free_frames s"
    "rt \<in> kernel_frames (zeroed s1 rt)" "same_refs s (zeroed s1 rt)" "same_tables s (zeroed s1 rt) (kernel_frames s)"
    "\<forall>i<512. entry (zeroed s1 rt) rt i = 0" "rt \<notin> free_frames (zeroed s1 rt)"
    by (rule alloc_table [OF inv some(2)])
  note e = empty_table [OF z(7)]
  have "pts (zeroed s1 rt) rt (Suc (Suc (Suc 0))) = {}" using z(7) by (auto simp: child_def)
  then have "pts (zeroed s1 rt) rt 3 = {}" by (simp only: numeral_3_eq_3)
  then have "windows_inv (zeroed s1 rt) rt" using z(2,4) e by (auto simp: windows_inv_def vm_inv_def tree_inv_def)
  moreover have "free_frames (zeroed s1 rt) = free_frames s - {rt}"
  proof -
    have "free_frames (zeroed s1 rt) = free_frames s1"
      by (auto simp: free_frames_def in_table_def zeroed_def zero_range_def)
    also have "\<dots> = free_frames s - {rt}" using alloc_frame_post [OF inv] some(2) by simp
    finally show ?thesis .
  qed
  then have "card (free_frames s) = Suc (card (free_frames (zeroed s1 rt)))" using card_Suc_Diff1 [OF _ z(3)] by simp
  ultimately show thesis using that some(2) z(1,5) e(3) by (simp add: same_counts_def same_refs_def)
qed

lemma windows_vm_ok:
  assumes "windows_inv s rt" "unat (ft_num s) \<le> 2 ^ 24" "\<And>va x m. is_canonical va \<Longrightarrow> resolve s rt va 3 = Some (x, m) \<Longrightarrow> m = 1"
  shows "vm_ok s rt"
proof -
  have "mapped_to s rt f = {}" for f using assms(3) by (fastforce simp: mapped_to_def)
  then show ?thesis using assms by (simp add: vm_ok_def windows_inv_def)
qed

definition kernel_view :: "u64 \<Rightarrow> u64 \<Rightarrow> u64 \<Rightarrow> u64 option" where
  "kernel_view base window va =
     (if \<not> is_canonical va then None else if va < window then Some va
      else if base \<le> va \<and> unat va < unat base + unat window then Some (va - base) else None)"

lemma new_kernel_post:
  assumes inv: "pmm_inv s l g" and w: "align_up ram LARGE_PAGE = Some window" "unat window \<le> 2 ^ 44"
    and b: "unat (phys_map_base s) mod 0x200000 = 0" "0xFFFF800000000000 \<le> phys_map_base s"
      "unat (phys_map_base s) + unat window < 2 ^ 64"
  shows "\<exists>r s'. pt_new_kernel s ram = Some (r, s') \<and>
    (case r of
       None \<Rightarrow> card (free_frames s) < 1 + 4 * (unat window div 0x200000)
     | Some pt \<Rightarrow> vm_inv s' (root pt) \<and> same_counts s s' \<and> card (free_frames s) \<le> card (free_frames s') + 1 + 4 * (unat window div 0x200000) \<and>
         (unat (ft_num s) \<le> 2 ^ 24 \<longrightarrow> vm_ok s' (root pt)) \<and>
         (\<forall>va. translate s' pt va = Some (kernel_view (phys_map_base s) window va)))"
proof (cases "free_frames s = {}")
  case True
  then have "alloc_frame s = Some (None, s)" using alloc_frame_cases [OF inv] by (metis empty_iff)
  then show ?thesis using True by (simp add: pt_new_kernel_def)
next
  case False
  let ?kern = "with_flags F_PRESENT F_WRITABLE" and ?b = "phys_map_base s" and ?n = "unat window div 0x200000"
  have kf: "valid_flags ?kern" using valid_flags_consts valid_flags_with by blast
  have wm: "unat window mod 0x200000 = 0" using align_up_bounds(3) [OF w(1)] by (simp add: LARGE_PAGE_def dvd_eq_mod_eq_0)
  obtain rt s1 where z: "alloc_frame s = Some (Some rt, s1)" "zero_table s1 rt = Some (zeroed s1 rt)"
    "windows_inv (zeroed s1 rt) rt" "same_counts s (zeroed s1 rt)" "\<forall>va. resolve (zeroed s1 rt) rt va 3 = None"
    "card (free_frames s) = Suc (card (free_frames (zeroed s1 rt)))"
    by (rule zero_table_windows [OF inv False])
  have c1: "is_canonical x \<and> resolve (zeroed s1 rt) rt x 3 = None" if "unat (0 :: u64) \<le> unat x" "unat x < unat (0 :: u64) + unat window" for x
    using that w(2) z(5) by (auto intro!: is_canonical_low)
  obtain r2 s2 where m1: "map_window (zeroed s1 rt) (PageTable rt) 0 0 window ?kern = Some (r2, s2)"
    "r2 = Inr () \<and> windows_inv s2 rt \<and> same_counts (zeroed s1 rt) s2 \<and>
       card (free_frames (zeroed s1 rt)) \<le> card (free_frames s2) + 2 * ?n \<and>
       (\<forall>x. is_canonical x \<longrightarrow> (if unat x < unat window then window_maps s2 rt 0 0 x else resolve s2 rt x 3 = None)) \<or>
     r2 = Inl AllocFailed \<and> card (free_frames (zeroed s1 rt)) < 2 * ?n"
    using map_window_post [where va = 0, OF z(3) kf _ wm w(2) _ c1] z(5) unat_u64_bound [of window] by auto
  show ?thesis
  proof (cases "r2 = Inr ()")
    case False
    then show ?thesis using m1 z(1,2,6) w(1) by (auto simp: pt_new_kernel_def)
  next
    case True
    have "phys_map_base s2 = ?b" using m1(2) True z(4) by (auto simp: same_counts_def)
    moreover have "?b \<noteq> 0" using b(2) by (auto simp: word_le_nat_alt)
    ultimately have pb: "physmap_base s2 = Some ?b" by (simp add: physmap_base_def Let_def)
    have c2: "is_canonical x \<and> resolve s2 rt x 3 = None" if "unat ?b \<le> unat x" "unat x < unat ?b + unat window" for x
    proof -
      have "0xFFFF800000000000 \<le> x" using that(1) b(2) by (simp add: word_le_nat_alt)
      moreover have "\<not> unat x < unat window" using that(1) b(2) w(2) by (simp add: word_le_nat_alt)
      ultimately show ?thesis using m1(2) True is_canonical_high by auto
    qed
    obtain r3 s3 where m2: "map_window s2 (PageTable rt) ?b 0 window ?kern = Some (r3, s3)"
      "r3 = Inr () \<and> windows_inv s3 rt \<and> same_counts s2 s3 \<and> card (free_frames s2) \<le> card (free_frames s3) + 2 * ?n \<and>
         (\<forall>x. is_canonical x \<longrightarrow> (if unat ?b \<le> unat x \<and> unat x < unat ?b + unat window then window_maps s3 rt ?b 0 x
            else resolve s3 rt x 3 = resolve s2 rt x 3)) \<or>
       r3 = Inl AllocFailed \<and> card (free_frames s2) < 2 * ?n"
      using map_window_post [OF _ kf b(1) wm w(2) b(3) c2] m1(2) True by blast
    show ?thesis
    proof (cases "r3 = Inr ()")
      case False
      then show ?thesis using m1 m2 True z(1,2,6) w(1) pb by (auto simp: pt_new_kernel_def)
    next
      case r3: True
      have run: "pt_new_kernel s ram = Some (Some (PageTable rt), s3)"
        using m1(1) m2(1) True r3 z(1,2) w(1) pb by (simp add: pt_new_kernel_def)
      have iv: "windows_inv s3 rt" "same_counts (zeroed s1 rt) s2" "same_counts s2 s3" using m1(2) m2(2) True r3 by simp_all
      have iv: "windows_inv s3 rt" "same_counts s s3" using iv(1) same_counts_trans [OF same_counts_trans [OF z(4) iv(2)] iv(3)] by simp_all
      have res: "if unat x < unat window then window_maps s3 rt 0 0 x
          else if unat ?b \<le> unat x \<and> unat x < unat ?b + unat window then window_maps s3 rt ?b 0 x
          else resolve s3 rt x 3 = None" if "is_canonical x" for x
      proof -
        have "\<not> unat ?b \<le> unat x" if "unat x < unat window" using that b(2) w(2) by (simp add: word_le_nat_alt)
        then show ?thesis using m1(2) m2(2) True r3 that by (auto simp: window_maps_def)
      qed
      have tr: "translate s3 (PageTable rt) va = Some (kernel_view ?b window va)" for va
        using translate_eq [of s3 rt va] iv(1) res [of va]
        by (auto simp: windows_inv_def kernel_view_def window_maps_def word_less_nat_alt word_le_nat_alt split: if_splits)
      have "vm_ok s3 rt" if "unat (ft_num s) \<le> 2 ^ 24"
      proof (rule windows_vm_ok [OF iv(1)])
        show "unat (ft_num s3) \<le> 2 ^ 24" using that iv(2) by (simp add: same_counts_def)
        show "m = 1" if "is_canonical va" "resolve s3 rt va 3 = Some (x, m)" for va x m
          using res [OF that(1)] that(2) by (auto simp: window_maps_def split: if_splits)
      qed
      moreover have "card (free_frames s) \<le> card (free_frames s3) + 1 + 4 * ?n" using z(6) m1(2) m2(2) True r3 by auto
      ultimately show ?thesis using run iv tr by (auto simp: windows_inv_def)
    qed
  qed
qed

section \<open>The page tables as an address space\<close>

definition page_look :: "u32 \<Rightarrow> pmm \<Rightarrow> u64 \<Rightarrow> u64 option" where
  "page_look rt s va = (if is_canonical va \<and> va mod 4096 = 0
     then case resolve s rt va 3 of Some (x, 0) \<Rightarrow> Some (x AND ADDR_MASK_4K) | _ \<Rightarrow> None else None)"

definition page_legal :: "pmm \<Rightarrow> u64 \<Rightarrow> bool" where
  "page_legal s pa \<longleftrightarrow> pa mod 4096 = 0 \<and> unat pa < unat (ft_num s) * 4096 \<and> mapping_count (infos s (ucast (pa div 4096))) \<noteq> - 1"

text \<open>Mapping with flags that the constructors of \<^verbatim>\<open>Flags\<close> can build.\<close>

definition kernel_flags :: flags where "kernel_flags = with_flags F_PRESENT F_WRITABLE"

lemma kernel_flags_valid: "valid_flags kernel_flags"
  unfolding kernel_flags_def using valid_flags_consts valid_flags_with by blast

lemma page_look_remapped:
  assumes "remapped s s' rt va x" "is_canonical va" "va mod 4096 = 0"
  shows "page_look rt s' = (page_look rt s)(va := map_option (\<lambda>x. x AND ADDR_MASK_4K) x)"
proof
  fix va' show "page_look rt s' va' = ((page_look rt s)(va := map_option (\<lambda>x. x AND ADDR_MASK_4K) x)) va'"
  proof (cases "is_canonical va' \<and> va' mod 4096 = 0")
    case True
    then have "va' div 4096 = va div 4096 \<longleftrightarrow> va' = va" using same_page [OF assms(3), of va'] by auto
    then have "resolve s' rt va' 3 = (if va' = va then map_option (\<lambda>x. (x, 0)) x else resolve s rt va' 3)"
      using assms(1) True by (simp add: remapped_def)
    then show ?thesis using True by (auto simp: page_look_def split: option.splits)
  next
    case False
    then have "page_look rt t va' = None" for t unfolding page_look_def by (metis (full_types))
    moreover have "va' \<noteq> va" using False assms(2,3) by metis
    ultimately show ?thesis by simp
  qed
qed

lemma page_look_same_view: "same_view s s' rt \<Longrightarrow> page_look rt s' = page_look rt s"
  by (auto simp: page_look_def same_view_def)

text \<open>What a successful or failed \<^verbatim>\<open>map\<close> does to a well-counted address space.\<close>

lemma pt_map_ok:
  assumes ok: "vm_ok s rt" and fl: "valid_flags fl" and n: "mapping_count (infos s (ucast (pa div 4096))) \<noteq> - 1"
  obtains r s' where "pt_map s (PageTable rt) va pa fl = Some (r, s')" "vm_ok s' rt" "r \<in> map_outcomes s rt va pa"
    "r = Inl AllocFailed \<longrightarrow> card (free_frames s) < 3" "ft_num s' = ft_num s" "takes_free 3 s s'"
    "if r = Inr () then is_canonical va \<and> va mod 4096 = 0 \<and> pa mod 4096 = 0 \<and> unat pa < 2 ^ 36 \<and> resolve s rt va 3 = None \<and>
         remapped s s' rt va (Some (pa OR bits fl OR PTE_PRESENT)) \<and> mapped_once s s' (ucast (pa div 4096))
       else same_view s s' rt \<and> (\<forall>f. mapping_count (infos s' f) = mapping_count (infos s f))"
    "keeps_kernel s s' rt" "user_kept s s' rt" "r = Inr () \<longrightarrow> user_mapped s' rt va fl"
proof -
  have inv: "vm_inv s rt" and ram: "unat (ft_num s) \<le> 2 ^ 24" using ok by (simp_all add: vm_ok_def)
  from pt_map_post [OF inv fl, of va pa] obtain r s' where p: "pt_map s (PageTable rt) va pa fl = Some (r, s')"
    "vm_inv s' rt" "ft_num s' = ft_num s" "r \<in> map_outcomes s rt va pa" "r = Inl AllocFailed \<longrightarrow> card (free_frames s) < 3"
    "if r = Inr () then remapped s s' rt va (Some (pa OR bits fl OR PTE_PRESENT)) \<and> mapped_once s s' (ucast (pa div 4096))
     else same_view s s' rt \<and> (\<forall>f. mapping_count (infos s' f) = mapping_count (infos s f))" "takes_free 3 s s'"
    "keeps_kernel s s' rt" "user_kept s s' rt" "r = Inr () \<longrightarrow> user_mapped s' rt va fl" by blast
  show thesis
  proof (cases "r = Inr ()")
    case False
    have "vm_ok s' rt" by (rule vm_ok_same [OF ok p(2,3)]) (use p(6) False in auto)
    then show ?thesis using that [OF p(1)] p(3-10) False by simp
  next
    case True
    have c: "is_canonical va" "va mod 4096 = 0" "pa mod 4096 = 0" "unat pa < unat (ft_num s) * 4096" "resolve s rt va 3 = None"
      using p(4) True unfolding map_outcomes_def by (simp_all add: not_le not_Some_eq [symmetric] split: if_splits)
    have pa: "unat pa < 2 ^ 36" using c(4) ram by simp
    have num: "unat (ft_num s) < 2 ^ 32" using ram by simp
    have it: "in_table s (ucast (pa div 4096))" unfolding in_table_iff by (rule unat_page [OF c(3,4) num])
    have "vm_ok s' rt"
      by (rule vm_ok_map [OF ok p(2,3) c(1,2,5) _ entry_frame_leaf [OF fl c(3) pa] it n]) (use p(6) True in auto)
    then show ?thesis using that [OF p(1)] p(3-10) True c pa by simp
  qed
qed

lemma frame_of_inject:
  fixes pa pa' :: u64
  assumes "pa mod 4096 = 0" "pa' mod 4096 = 0" "unat pa < 2 ^ 44" "unat pa' < 2 ^ 44"
    "ucast (pa div 4096) = (ucast (pa' div 4096) :: u32)"
  shows "pa = pa'"
proof -
  have "unat (ucast (p div 4096 :: u64) :: u32) = unat (p div 4096)" if "unat p < 2 ^ 44" for p
    using that by (intro unat_ucast_down) (simp add: unat_div)
  then have "pa div 4096 = pa' div 4096" using assms(3-5) by (metis word_unat_eq_iff)
  then show ?thesis using same_page assms(1,2) by metis
qed

interpretation page_space: address_space "\<lambda>s. vm_ok s rt" "page_look rt" page_legal
    "\<lambda>s va pa. pt_map s (PageTable rt) va pa kernel_flags" "\<lambda>s va. pt_unmap s (PageTable rt) va" for rt
proof
  fix s va pa assume s: "vm_ok s rt" "page_legal s pa"
  have pa: "pa mod 4096 = 0" "unat pa < unat (ft_num s) * 4096" "mapping_count (infos s (ucast (pa div 4096))) \<noteq> - 1"
    using s(2) by (simp_all add: page_legal_def)
  have ram: "unat (ft_num s) \<le> 2 ^ 24" using s(1) by (simp add: vm_ok_def)
  obtain r s' where p: "pt_map s (PageTable rt) va pa kernel_flags = Some (r, s')" "vm_ok s' rt" "ft_num s' = ft_num s"
    "if r = Inr () then is_canonical va \<and> va mod 4096 = 0 \<and> pa mod 4096 = 0 \<and> unat pa < 2 ^ 36 \<and> resolve s rt va 3 = None \<and>
         remapped s s' rt va (Some (pa OR bits kernel_flags OR PTE_PRESENT)) \<and> mapped_once s s' (ucast (pa div 4096))
       else same_view s s' rt \<and> (\<forall>f. mapping_count (infos s' f) = mapping_count (infos s f))"
    by (rule pt_map_ok [OF s(1) kernel_flags_valid pa(3), of va])
  have legal: "page_legal s' pa'" if "pa' \<noteq> pa" "page_legal s pa'" for pa'
  proof -
    have l: "pa' mod 4096 = 0" "unat pa' < unat (ft_num s) * 4096" "mapping_count (infos s (ucast (pa' div 4096))) \<noteq> - 1"
      using that(2) by (simp_all add: page_legal_def)
    then have "(ucast (pa' div 4096) :: u32) \<noteq> ucast (pa div 4096)"
      using frame_of_inject [OF l(1) pa(1)] that(1) pa(2) ram by force
    then show ?thesis using l p(3,4) by (auto simp: page_legal_def mapped_once_def split: if_splits)
  qed
  have look: "if r = Inr () then page_look rt s va = None \<and> page_look rt s' = (page_look rt s)(va \<mapsto> pa)
      else page_look rt s' = page_look rt s"
  proof (cases "r = Inr ()")
    case False
    then show ?thesis using p(4) page_look_same_view by simp
  next
    case True
    then have c: "is_canonical va" "va mod 4096 = 0" "unat pa < 2 ^ 36" "resolve s rt va 3 = None"
      "remapped s s' rt va (Some (pa OR bits kernel_flags OR PTE_PRESENT))" using p(4) by simp_all
    then have "page_look rt s va = None" by (simp add: page_look_def)
    then show ?thesis
      using True page_look_remapped [OF c(5,1,2)] leaf_entry(2) [OF kernel_flags_valid, of pa] masked_page [OF pa(1) c(3)] by simp
  qed
  show "\<exists>r s'. pt_map s (PageTable rt) va pa kernel_flags = Some (r, s') \<and> vm_ok s' rt \<and>
      (if r = Inr () then page_look rt s va = None \<and> page_look rt s' = (page_look rt s)(va \<mapsto> pa) else page_look rt s' = page_look rt s) \<and>
      (\<forall>v'. v' \<noteq> pa \<longrightarrow> page_legal s v' \<longrightarrow> page_legal s' v')"
    using p(1,2) look legal by blast
next
  fix s va pa assume s: "vm_ok s rt" "page_look rt s va = Some pa"
  then obtain x where x: "is_canonical va" "va mod 4096 = 0" "resolve s rt va 3 = Some (x, 0)"
    unfolding page_look_def by (auto split: if_splits option.splits nat.splits)
  then have "unmap_outcome s rt va = Inr ()" by (simp add: unmap_outcome_def)
  with pt_unmap_post [OF s(1), of va] obtain s' where "pt_unmap s (PageTable rt) va = Some (Inr (), s')" "vm_ok s' rt"
    "remapped s s' rt va None" by auto
  then show "\<exists>s'. pt_unmap s (PageTable rt) va = Some (Inr (), s') \<and> vm_ok s' rt \<and> page_look rt s' = (page_look rt s)(va := None)"
    using page_look_remapped [OF _ x(1,2), of s s' rt None] by auto
qed

section \<open>A machine with more than 64 GiB\<close>

text \<open>Four free frames, and RAM that ends just above 64 GiB.\<close>

definition big_pmm :: pmm where
  "big_pmm = \<lparr>phys_map_base = 0xFFFF800000000000,
     mem = (\<lambda>_. 0)(0xFFFF800000001000 := 2, 0xFFFF800000002000 := 3, 0xFFFF800000003000 := 4, 0xFFFF800000004000 := 0xFFFFFFFF),
     ft_base = 0xFFFF800000010000, ft_num = 0x1000001,
     infos = (\<lambda>f. if f \<in> {1, 2, 3, 4} then zero_info\<lparr>owner_word := raw FREE\<rparr> else zero_info),
     shards = \<lparr>head = 1, count = 4\<rparr> # replicate 63 empty_shard, global = empty_shard\<rparr>"

lemma big_free: "free_frames big_pmm = {1, 2, 3, 4}"
  by (auto simp: free_frames_def big_pmm_def in_table_def)

lemma big_inv: "pmm_inv big_pmm [1, 2, 3, 4] []"
proof (rule pmm_invI)
  show t: "table_ok big_pmm" by (simp add: table_ok_def physmap_covers_def) (simp add: big_pmm_def)
  show "shards big_pmm = \<lparr>head = 1, count = 4\<rparr> # replicate 63 empty_shard" by (simp add: big_pmm_def)
  show "shard_ok big_pmm \<lparr>head = 1, count = 4\<rparr> [1, 2, 3, 4]" "shard_ok big_pmm (global big_pmm) []"
    by (simp_all add: big_pmm_def shard_ok_def empty_shard_def next_of_def frame_va_def read_u32_def frame_phys_def kconsts)
  show "set ([1, 2, 3, 4] @ []) = set (free_list big_pmm)" using free_list_facts(2) [OF t] big_free by simp
qed simp

lemma example_canonical: "is_canonical 0xFFFF900000000000" "(0xFFFF900000000000 :: u64) mod 4096 = 0"
  by (rule is_canonical_high) simp_all

lemma big_space: "\<exists>rt s. pt_new big_pmm = Some (Some (PageTable rt), s) \<and> vm_inv s rt \<and> ft_num s = 0x1000001 \<and>
    card (free_frames s) = 3 \<and> resolve s rt 0xFFFF900000000000 3 = None"
proof -
  obtain rt s1 where z: "alloc_frame big_pmm = Some (Some rt, s1)" "zero_table s1 rt = Some (zeroed s1 rt)"
    "windows_inv (zeroed s1 rt) rt" "same_counts big_pmm (zeroed s1 rt)" "\<forall>va. resolve (zeroed s1 rt) rt va 3 = None"
    "card (free_frames big_pmm) = Suc (card (free_frames (zeroed s1 rt)))"
    by (rule zero_table_windows [OF big_inv]) (simp_all add: big_free)
  moreover have "card (free_frames big_pmm) = 4" by (simp add: big_free)
  moreover have "ft_num big_pmm = 0x1000001" by (simp add: big_pmm_def)
  ultimately show ?thesis by (simp add: pt_new_def windows_inv_def same_counts_def)
qed

section \<open>Properties\<close>

lemma translate_none: "vm_inv s rt \<Longrightarrow> is_canonical va \<Longrightarrow> translate s (PageTable rt) va = Some None \<longleftrightarrow> resolve s rt va 3 = None"
  by (simp add: translate_eq)

lemma translate_remapped:
  assumes "vm_inv s rt" "vm_inv s' rt" "remapped s s' rt va x"
  shows "translate s' (PageTable rt) va' =
    (if is_canonical va' \<and> va' div 4096 = va div 4096 then Some (map_option (\<lambda>x. (x AND ADDR_MASK_4K) + (va' AND 0xfff)) x)
     else translate s (PageTable rt) va')"
  using assms by (cases x) (simp_all add: translate_eq remapped_def leaf_addr_def)

lemma translate_same_view:
  "vm_inv s rt \<Longrightarrow> vm_inv s' rt \<Longrightarrow> same_view s s' rt \<Longrightarrow> translate s' (PageTable rt) va = translate s (PageTable rt) va"
  by (simp add: translate_eq same_view_def)

lemma low_12: "va mod 4096 = 0 \<Longrightarrow> va AND 0xfff = 0" for va :: u64
proof -
  have m: "(0xfff :: u64) = mask 12" by (simp add: mask_eq_exp_minus_1)
  show "va mod 4096 = 0 \<Longrightarrow> va AND 0xfff = 0"
    unfolding m take_bit_eq_mask [symmetric] by (simp add: take_bit_eq_mod)
qed

lemma frame_phys_entry: "frame_phys (entry_frame x) = x AND ADDR_MASK_4K"
proof (rule bit_word_eqI)
  fix n
  show "bit (frame_phys (entry_frame x)) n = bit (x AND ADDR_MASK_4K) n"
    unfolding entry_frame_def drop_bit_div [symmetric] bit_frame_phys mask_4k
    by (auto simp: bit_simps dest: bit_imp_le_length)
qed

lemma masked_mod:
  assumes "pa mod 4096 = 0"
  shows "unat (pa AND ADDR_MASK_4K) = unat pa mod 2 ^ 36"
proof -
  have lo: "take_bit 12 pa = 0" using assms by (simp add: take_bit_eq_mod)
  have "pa AND ADDR_MASK_4K = take_bit 36 pa"
  proof (rule bit_word_eqI)
    fix n
    have "bit pa n \<longrightarrow> 12 \<le> n" using arg_cong [OF lo, of "\<lambda>w. bit w n"] by (auto simp: bit_take_bit_iff)
    then show "bit (pa AND ADDR_MASK_4K) n = bit (take_bit 36 pa) n"
      unfolding mask_4k by (auto simp: bit_simps dest: bit_imp_le_length)
  qed
  then show ?thesis by (simp add: take_bit_eq_mod unat_mod)
qed

text \<open>C3: \<^verbatim>\<open>map\<close> on a well-formed address space (RAM below 64 GiB) never panics. It refuses a
  non-canonical or unaligned address, a frame beyond RAM and a page already mapped, each with its
  error and without changing any translation, fails for lack of memory only when fewer than three
  frames are free, and otherwise makes exactly the addresses of the page translate to the frame
  and counts one mapping of it. The page can then be written from ring 3 exactly when the flags
  carry both WRITABLE and USER (the walk sets USER on the tables above it), and no page that ring 3
  could write before is lost to it.\<close>

theorem pt_map_correct:
  assumes "vm_ok s rt" "valid_flags fl" "mapping_count (infos s (ucast (pa div 4096))) \<noteq> - 1"
  shows "\<exists>r s'. pt_map s (PageTable rt) va pa fl = Some (r, s') \<and> vm_ok s' rt \<and>
    r \<in> (if \<not> is_canonical va then {Inl NonCanonical}
         else if va mod 4096 \<noteq> 0 \<or> pa mod 4096 \<noteq> 0 then {Inl NotAligned}
         else if unat (ft_num s) * 4096 \<le> unat pa then {Inl OutOfRange}
         else if translate s (PageTable rt) va \<noteq> Some None then {Inl Conflict}
         else if card (free_frames s) < 3 then {Inr (), Inl AllocFailed} else {Inr ()}) \<and>
    (\<forall>va'. translate s' (PageTable rt) va' =
       (if r = Inr () \<and> is_canonical va' \<and> va' div 4096 = va div 4096 then Some (Some (pa + (va' AND 0xfff)))
        else translate s (PageTable rt) va')) \<and>
    (\<forall>f. mapping_count (infos s' f) = mapping_count (infos s f) + (if r = Inr () \<and> f = ucast (pa div 4096) then 1 else 0)) \<and>
    user_kept s s' rt \<and> (r = Inr () \<longrightarrow> user_mapped s' rt va fl)"
proof -
  obtain r s' where p: "pt_map s (PageTable rt) va pa fl = Some (r, s')" "vm_ok s' rt" "r \<in> map_outcomes s rt va pa"
    "r = Inl AllocFailed \<longrightarrow> card (free_frames s) < 3"
    "if r = Inr () then is_canonical va \<and> va mod 4096 = 0 \<and> pa mod 4096 = 0 \<and> unat pa < 2 ^ 36 \<and> resolve s rt va 3 = None \<and>
         remapped s s' rt va (Some (pa OR bits fl OR PTE_PRESENT)) \<and> mapped_once s s' (ucast (pa div 4096))
       else same_view s s' rt \<and> (\<forall>f. mapping_count (infos s' f) = mapping_count (infos s f))"
    "user_kept s s' rt" "r = Inr () \<longrightarrow> user_mapped s' rt va fl"
    by (rule pt_map_ok [OF assms, of va])
  have inv: "vm_inv s rt" "vm_inv s' rt" using assms(1) p(2) by (simp_all add: vm_ok_def)
  note tr = translate_remapped [OF inv, of va "Some (pa OR bits fl OR PTE_PRESENT)"] translate_same_view [OF inv]
  have m: "(pa OR bits fl OR PTE_PRESENT) AND ADDR_MASK_4K = pa" if "r = Inr ()"
    using p(5) that leaf_entry(2) [OF assms(2)] masked_page by simp
  show ?thesis
    using p tr m translate_none [OF inv(1)]
    by (intro exI [of _ r] exI [of _ s'] conjI) (simp_all add: map_outcomes_def mapped_once_def split: if_splits)
qed

lemma example_space: "\<exists>rt s. pt_new example_pmm = Some (Some (PageTable rt), s) \<and> vm_ok s rt \<and>
    (\<forall>va. resolve s rt va 3 = None) \<and> mapping_count (infos s 3) = 0 \<and> ft_num s = 5"
proof -
  have "unat (ft_num example_pmm) \<le> 2 ^ 24" by (simp add: example_pmm_def)
  from pt_new_ok [OF example_inv this] example_simps(2) have "\<exists>rt s. pt_new example_pmm = Some (Some (PageTable rt), s) \<and> vm_ok s rt \<and>
    (\<forall>va. resolve s rt va 3 = None) \<and> mapping_count (infos s 3) = 0 \<and> ft_num s = ft_num example_pmm" by (auto simp: example_free)
  then show ?thesis by (simp add: example_pmm_def)
qed

theorem pt_map_correct_witness:
  "\<exists>rt s r s'. vm_ok s rt \<and> pt_map s (PageTable rt) 0xFFFF900000000000 0x3000 F_PRESENT = Some (r, s') \<and> vm_ok s' rt \<and>
     r \<in> {Inr (), Inl AllocFailed} \<and>
     translate s' (PageTable rt) 0xFFFF900000000004 = (if r = Inr () then Some (Some 0x3004) else Some None) \<and>
     (r = Inr () \<longrightarrow> \<not> user_page s' rt 0xFFFF900000000004 3)"
proof -
  obtain rt s where e: "vm_ok s rt" "mapping_count (infos s 3) = 0" "\<forall>va. resolve s rt va 3 = None" "ft_num s = 5"
    using example_space by blast
  have "mapping_count (infos s (ucast ((0x3000 :: u64) div 4096))) \<noteq> - 1" using e(2) by simp
  from pt_map_correct [OF e(1) valid_flags_consts(1) this, of "0xFFFF900000000000"] obtain r s' where
    p: "pt_map s (PageTable rt) 0xFFFF900000000000 0x3000 F_PRESENT = Some (r, s')" "vm_ok s' rt"
    "r \<in> (if unat (ft_num s) * 4096 \<le> 0x3000 then {Inl OutOfRange}
       else if translate s (PageTable rt) 0xFFFF900000000000 \<noteq> Some None then {Inl Conflict}
       else if card (free_frames s) < 3 then {Inr (), Inl AllocFailed} else {Inr ()})"
    "\<forall>va'. translate s' (PageTable rt) va' =
       (if r = Inr () \<and> is_canonical va' \<and> va' div 4096 = 0xFFFF900000000000 div 4096 then Some (Some (0x3000 + (va' AND 0xfff)))
        else translate s (PageTable rt) va')" "r = Inr () \<longrightarrow> user_mapped s' rt 0xFFFF900000000000 F_PRESENT"
    using example_canonical by (simp del: split_paired_Ex) blast
  have c: "is_canonical 0xFFFF900000000004" by (rule is_canonical_high) simp
  have "vm_inv s rt" using e(1) by (simp add: vm_ok_def)
  note t = translate_none [OF this]
  have r: "r \<in> {Inr (), Inl AllocFailed}" using p(3) t [OF example_canonical(1)] e(3,4) by (simp split: if_splits)
  have u: "\<not> user_page s' rt 0xFFFF900000000004 3" if "r = Inr ()"
    using p(5) that c by (simp add: user_mapped_def F_PRESENT_def PTE_PRESENT_def)
  have "translate s' (PageTable rt) 0xFFFF900000000004 = (if r = Inr () then Some (Some 0x3004) else Some None)"
    using p(4) c t [OF c] e(3) by simp
  then show ?thesis using e(1) p(1,2) r u by blast
qed

text \<open>C16: \<^verbatim>\<open>unmap\<close> never panics on a well-formed address space: the frame of a mapped page always has
  a mapping to drop. Exactly the addresses of the page stop translating, the frame loses one
  mapping (and is reclaimed if it was waiting for that), and a huge, missing, unaligned or
  non-canonical page is refused with its error and no change.\<close>

theorem pt_unmap_correct:
  assumes "vm_ok s rt"
  shows "\<exists>r s'. pt_unmap s (PageTable rt) va = Some (r, s') \<and> vm_ok s' rt \<and>
    r = (if \<not> is_canonical va then Inl NonCanonical else if va mod 4096 \<noteq> 0 then Inl NotAligned
         else case resolve s rt va 3 of None \<Rightarrow> Inl NotMapped | Some (x, m) \<Rightarrow> if m = 0 then Inr () else Inl Conflict) \<and>
    (\<forall>va'. translate s' (PageTable rt) va' =
       (if r = Inr () \<and> is_canonical va' \<and> va' div 4096 = va div 4096 then Some None else translate s (PageTable rt) va')) \<and>
    (r = Inr () \<longrightarrow> (\<exists>f. translate s (PageTable rt) va = Some (Some (frame_phys f)) \<and> unmapped_once s s' f)) \<and>
    (r \<noteq> Inr () \<longrightarrow> s' = s)"
proof -
  from pt_unmap_post [OF assms, of va] obtain s' where p: "pt_unmap s (PageTable rt) va = Some (unmap_outcome s rt va, s')"
    "vm_ok s' rt" "if unmap_outcome s rt va = Inr () then remapped s s' rt va None \<and>
      unmapped_once s s' (entry_frame (fst (the (resolve s rt va 3)))) else s' = s" by (auto split: if_splits)
  have inv: "vm_inv s rt" "vm_inv s' rt" using assms p(2) by (simp_all add: vm_ok_def)
  have "\<exists>f. translate s (PageTable rt) va = Some (Some (frame_phys f)) \<and> unmapped_once s s' f" if out: "unmap_outcome s rt va = Inr ()"
  proof -
    obtain x where x: "is_canonical va" "va mod 4096 = 0" "resolve s rt va 3 = Some (x, 0)"
      using out unfolding unmap_outcome_def by (simp split: if_splits option.splits prod.splits)
    then have "translate s (PageTable rt) va = Some (Some (frame_phys (entry_frame x)))"
      using translate_eq [OF inv(1), of va] low_12 [OF x(2)] by (simp add: leaf_addr_def frame_phys_entry)
    then show ?thesis using p(3) out x(3) by auto
  qed
  moreover have "translate s' (PageTable rt) va' = (if unmap_outcome s rt va = Inr () \<and> is_canonical va' \<and> va' div 4096 = va div 4096
      then Some None else translate s (PageTable rt) va')" for va'
    using p(3) translate_remapped [OF inv, of va None va'] by (cases "unmap_outcome s rt va = Inr ()") auto
  ultimately show ?thesis using p by (intro exI [of _ "unmap_outcome s rt va"] exI [of _ s']) (auto simp: unmap_outcome_def)
qed

theorem pt_unmap_correct_witness:
  "\<exists>rt s. vm_ok s rt \<and> pt_unmap s (PageTable rt) 0xFFFF900000000000 = Some (Inl NotMapped, s)"
proof -
  obtain rt s where e: "vm_ok s rt" "\<forall>va. resolve s rt va 3 = None" using example_space by blast
  from pt_unmap_correct [OF e(1), of "0xFFFF900000000000"] e example_canonical show ?thesis by auto
qed

text \<open>C33: The page tables are an address space: mapping a batch of pages to distinct frames, as far
  as it gets, and unmapping the pages it mapped restores the translation of every page.\<close>

theorem map_unmap_restores:
  assumes "vm_ok s rt" "distinct (map snd pages)" "\<forall>pa\<in>set (map snd pages). page_legal s pa"
  shows "\<exists>vas s1 s2. put_all (\<lambda>s va pa. pt_map s (PageTable rt) va pa kernel_flags) pages s = Some (vas, s1) \<and>
    del_all (\<lambda>s va. pt_unmap s (PageTable rt) va) vas s1 = Some s2 \<and> vm_ok s2 rt \<and> page_look rt s2 = page_look rt s"
  by (rule page_space.put_del_restores [OF assms])

theorem map_unmap_restores_witness:
  "\<exists>s rt vas s1 s2. vm_ok s rt \<and>
    put_all (\<lambda>s va pa. pt_map s (PageTable rt) va pa kernel_flags) [(0xFFFF900000000000, 0x3000)] s = Some (vas, s1) \<and>
    del_all (\<lambda>s va. pt_unmap s (PageTable rt) va) vas s1 = Some s2 \<and> page_look rt s2 = page_look rt s"
proof -
  obtain rt s where e: "vm_ok s rt" "page_legal s 0x3000"
  proof -
    have "unat (ft_num example_pmm) \<le> 2 ^ 24" by (simp add: example_pmm_def)
    from pt_new_ok [OF example_inv this] obtain rt s where n: "vm_ok s rt" "ft_num s = ft_num example_pmm"
      "\<forall>f. mapping_count (infos s f) = mapping_count (infos example_pmm f)" by (auto simp: example_free)
    then have "page_legal s 0x3000" using example_simps(2) by (simp add: page_legal_def) (simp add: example_pmm_def)
    with n show ?thesis using that by blast
  qed
  have "distinct (map snd [(0xFFFF900000000000 :: u64, 0x3000 :: u64)])"
    "\<forall>pa\<in>set (map snd [(0xFFFF900000000000 :: u64, 0x3000)]). page_legal s pa" using e(2) by simp_all
  from map_unmap_restores [OF e(1) this] e(1) show ?thesis by blast
qed

text \<open>C34: On a machine with more than 64 GiB a page mapped to a frame at or above 64 GiB translates to
  another frame: the address mask keeps 36 bits of the physical address.\<close>

theorem pt_map_truncates:
  assumes "vm_inv s rt" "valid_flags fl" "pt_map s (PageTable rt) va pa fl = Some (Inr (), s')"
  shows "\<exists>q. translate s' (PageTable rt) va = Some (Some q) \<and> unat q = unat pa mod 2 ^ 36 \<and> (2 ^ 36 \<le> unat pa \<longrightarrow> q \<noteq> pa)"
proof -
  from pt_map_post [OF assms(1,2), of va pa] assms(3) have p: "vm_inv s' rt" "Inr () \<in> map_outcomes s rt va pa"
    "remapped s s' rt va (Some (pa OR bits fl OR PTE_PRESENT))" by auto
  have c: "is_canonical va" "va mod 4096 = 0" "pa mod 4096 = 0"
    using p(2) unfolding map_outcomes_def by (simp_all split: if_splits)
  have "translate s' (PageTable rt) va = Some (Some (pa AND ADDR_MASK_4K))"
    using translate_remapped [OF assms(1) p(1,3), of va] c(1) low_12 [OF c(2)] leaf_entry(2) [OF assms(2), of pa] by simp
  moreover have "pa AND ADDR_MASK_4K \<noteq> pa" if "2 ^ 36 \<le> unat pa"
  proof
    assume "pa AND ADDR_MASK_4K = pa"
    then have "unat pa = unat pa mod 2 ^ 36" using masked_mod [OF c(3)] by simp
    then have "unat pa < 2 ^ 36" by (metis mod_less_divisor zero_less_numeral zero_less_power)
    with that show False by simp
  qed
  ultimately show ?thesis using masked_mod [OF c(3)] by blast
qed

theorem pt_map_truncates_witness:
  "\<exists>rt s s' q. pt_map s (PageTable rt) 0xFFFF900000000000 0x1000000000 F_PRESENT = Some (Inr (), s') \<and>
    translate s' (PageTable rt) 0xFFFF900000000000 = Some (Some q) \<and> q \<noteq> 0x1000000000"
proof -
  obtain rt s where e: "vm_inv s rt" "ft_num s = 0x1000001" "card (free_frames s) = 3" "resolve s rt 0xFFFF900000000000 3 = None"
    using big_space by blast
  obtain r s' where m: "pt_map s (PageTable rt) 0xFFFF900000000000 0x1000000000 F_PRESENT = Some (r, s')"
    "r \<in> map_outcomes s rt 0xFFFF900000000000 0x1000000000" "r = Inl AllocFailed \<longrightarrow> card (free_frames s) < 3"
    using pt_map_post [OF e(1) valid_flags_consts(1), of "0xFFFF900000000000" "0x1000000000"] by blast
  then have "r = Inr ()" using e example_canonical by (auto simp: map_outcomes_def)
  with m(1) have run: "pt_map s (PageTable rt) 0xFFFF900000000000 0x1000000000 F_PRESENT = Some (Inr (), s')" by simp
  from pt_map_truncates [OF e(1) valid_flags_consts(1) run] run show ?thesis by auto
qed

text \<open>C17: \<^verbatim>\<open>new_kernel\<close> never panics; given more than four frames per 2 MiB of RAM it succeeds, and then
  the address space it returns translates exactly the identity window and the physmap window.\<close>

theorem new_kernel_windows:
  assumes "pmm_inv s l g" "align_up ram LARGE_PAGE = Some window" "unat window \<le> 2 ^ 44"
    "unat (phys_map_base s) mod 0x200000 = 0" "0xFFFF800000000000 \<le> phys_map_base s"
    "unat (phys_map_base s) + unat window < 2 ^ 64"
  shows "\<exists>r s'. pt_new_kernel s ram = Some (r, s') \<and>
    (case r of
       None \<Rightarrow> card (free_frames s) < 1 + 4 * (unat window div 0x200000)
     | Some pt \<Rightarrow> vm_inv s' (root pt) \<and> same_counts s s' \<and> card (free_frames s) \<le> card (free_frames s') + 1 + 4 * (unat window div 0x200000) \<and>
         (unat (ft_num s) \<le> 2 ^ 24 \<longrightarrow> vm_ok s' (root pt)) \<and>
         (\<forall>va. translate s' pt va = Some (kernel_view (phys_map_base s) window va)))"
  by (rule new_kernel_post [OF assms])

theorem new_kernel_windows_witness:
  "\<exists>window r s'. align_up 0x5000 LARGE_PAGE = Some window \<and> pt_new_kernel example_pmm 0x5000 = Some (r, s') \<and>
    (\<forall>pt. r = Some pt \<longrightarrow> translate s' pt 0x1000 = Some (Some 0x1000))"
proof -
  have "is_power_of_two 0x200000" unfolding is_power_of_two_iff by (rule exI [of _ 21]) simp
  then have w: "align_up 0x5000 LARGE_PAGE = Some 0x200000"
    by (simp add: align_up_def uadd_def usub_def LARGE_PAGE_def)
  have "\<exists>r s'. pt_new_kernel example_pmm 0x5000 = Some (r, s') \<and> (\<forall>pt. r = Some pt \<longrightarrow>
      (\<forall>va. translate s' pt va = Some (kernel_view (phys_map_base example_pmm) 0x200000 va)))"
    using new_kernel_windows [OF example_inv w] by (fastforce simp: example_pmm_def split: option.splits)
  moreover have "kernel_view (phys_map_base example_pmm) 0x200000 0x1000 = Some 0x1000"
    using is_canonical_low [of "0x1000"] by (simp add: kernel_view_def)
  ultimately show ?thesis using w by auto
qed

end
