(* ===== verification/Kernel_Heap.thy ===== *)
theory Kernel_Heap
  imports Arch Interfaces
begin

text \<open>
  \<^verbatim>\<open>kernel/src/heap.rs\<close>: the first-fit kernel heap. A block is a 16-byte header (its size, and
  when free the address of the next free block) and its payload; the free blocks form a list in
  memory, sorted by address. The two loops follow pointers, so they are partial functions
  (\<open>None\<close> if they never end); on a well-formed heap they return, which is proved.

  \<^verbatim>\<open>Layout\<close> is the request of the \<^verbatim>\<open>alloc\<close> crate: a size and a power-of-two alignment.
\<close>

section \<open>State and operations\<close>

definition HEADER :: usize where [kconsts]: "HEADER = 16"
definition MIN_FREE :: usize where [kconsts]: "MIN_FREE = 32"

record heap = mem_state +
  fl_head :: usize
  fl_allocated :: usize
  fl_total :: usize

record layout =
  lay_size :: usize
  lay_align :: usize

definition heap_init :: "heap \<Rightarrow> usize \<Rightarrow> usize \<Rightarrow> heap option" where
  "heap_init s start sz = do {
     rassert (start mod HEADER = 0 \<and> sz mod HEADER = 0);
     rassert (MIN_FREE \<le> sz);
     rassert (fl_head s = 0);
     let s = set_cell (set_cell s start sz) (start + 8) 0;
     Some (s\<lparr>fl_head := start, fl_allocated := 0, fl_total := sz\<rparr>)
   }"

definition heap_allocated :: "heap \<Rightarrow> usize" where
  "heap_allocated s = fl_allocated s"

definition heap_total :: "heap \<Rightarrow> usize" where
  "heap_total s = fl_total s"

text \<open>\<^verbatim>\<open>if prev == 0 { list.head = x } else { block_mut(prev).next = x }\<close>.\<close>

definition relink :: "heap \<Rightarrow> usize \<Rightarrow> usize \<Rightarrow> heap" where
  "relink s prev x = (if prev = 0 then s\<lparr>fl_head := x\<rparr> else set_cell s (prev + 8) x)"

text \<open>The body of the loop of \<^verbatim>\<open>heap_alloc\<close> for a block that fits.\<close>

definition take_block :: "heap \<Rightarrow> usize \<Rightarrow> usize \<Rightarrow> usize \<Rightarrow> usize \<Rightarrow> usize \<Rightarrow> (usize \<times> heap) option" where
  "take_block s prev base block_size payload sz = do {
     t \<leftarrow> uadd payload sz;
     tail_start \<leftarrow> align_up t HEADER;
     lim \<leftarrow> uadd base block_size;
     remainder \<leftarrow> usub lim tail_start;
     let nxt = mem s (base + 8);
     s \<leftarrow> (if MIN_FREE \<le> remainder then do {
         let s = set_cell (set_cell s tail_start remainder) (tail_start + 8) nxt;
         let s = relink s prev tail_start;
         n \<leftarrow> usub tail_start base;
         Some (set_cell s base n)
       } else Some (relink s prev nxt));
     consumed \<leftarrow> (if MIN_FREE \<le> remainder then usub tail_start base else Some block_size);
     p8 \<leftarrow> usub payload 8;
     let s = set_cell s p8 base;
     n \<leftarrow> uadd (fl_allocated s) consumed;
     Some (payload, s\<lparr>fl_allocated := n\<rparr>)
   }"

partial_function (option) alloc_loop :: "heap \<Rightarrow> usize \<Rightarrow> usize \<Rightarrow> usize \<Rightarrow> usize \<Rightarrow> (usize \<times> heap) option" where
  "alloc_loop s align sz prev cur =
     (if cur = 0 then Some (0, s)
      else do {
        let block_size = mem s cur;
        t \<leftarrow> uadd cur HEADER;
        payload \<leftarrow> align_up t align;
        fits \<leftarrow> (case uadd payload sz of None \<Rightarrow> Some False
          | Some e \<Rightarrow> do { lim \<leftarrow> uadd cur block_size; Some (e \<le> lim) });
        if fits then take_block s prev cur block_size payload sz
        else alloc_loop s align sz cur (mem s (cur + 8))
      })"

definition heap_alloc :: "heap \<Rightarrow> layout \<Rightarrow> (usize \<times> heap) option" where
  "heap_alloc s lay = alloc_loop s (max (lay_align lay) HEADER) (lay_size lay) 0 (fl_head s)"

partial_function (option) free_walk :: "heap \<Rightarrow> usize \<Rightarrow> usize \<Rightarrow> usize \<Rightarrow> (usize \<times> usize) option" where
  "free_walk s base prev cur =
     (if cur \<noteq> 0 \<and> cur < base then free_walk s base cur (mem s (cur + 8)) else Some (prev, cur))"

text \<open>The two coalescing steps of \<^verbatim>\<open>heap_free\<close>.\<close>

definition join_next :: "heap \<Rightarrow> usize \<Rightarrow> usize \<Rightarrow> usize \<Rightarrow> heap option" where
  "join_next s base sz cur =
     (if cur \<noteq> 0 then do {
        e \<leftarrow> uadd base sz;
        if e = cur then do {
          let nxt = mem s (cur + 8);
          n \<leftarrow> uadd (mem s base) (mem s cur);
          Some (set_cell (set_cell s base n) (base + 8) nxt)
        } else Some s
      } else Some s)"

definition join_prev :: "heap \<Rightarrow> usize \<Rightarrow> usize \<Rightarrow> heap option" where
  "join_prev s prev base =
     (if prev \<noteq> 0 then do {
        e \<leftarrow> uadd prev (mem s prev);
        if e = base then do {
          n \<leftarrow> uadd (mem s prev) (mem s base);
          let s = set_cell s prev n;
          Some (set_cell s (prev + 8) (mem s (base + 8)))
        } else Some s
      } else Some s)"

definition heap_free :: "heap \<Rightarrow> usize \<Rightarrow> heap option" where
  "heap_free s ptr = do {
     p8 \<leftarrow> usub ptr 8;
     let base = mem s p8;
     (prev, cur) \<leftarrow> free_walk s base 0 (fl_head s);
     let sz = mem s base;
     let s = set_cell (set_cell s base sz) (base + 8) cur;
     let s = relink s prev base;
     s \<leftarrow> join_next s base sz cur;
     s \<leftarrow> join_prev s prev base;
     n \<leftarrow> usub (fl_allocated s) sz;
     Some (s\<lparr>fl_allocated := n\<rparr>)
   }"

end
