(* ===== verification/Heap_Lists.thy ===== *)
theory Heap_Lists
  imports Kernel_Heap
begin

text \<open>
  The free list of \<^verbatim>\<open>kernel/src/heap.rs\<close>: lists of blocks, sorted and coalesced, and how they lie in
  memory. A coalesced list is determined by the addresses it spans. The search of \<^verbatim>\<open>heap_alloc\<close>
  is the first fit of such a list.
\<close>

section \<open>Lists of blocks\<close>

text \<open>A block is its address and its size; \<open>rng\<close> is the set of its addresses.\<close>

type_synonym blk = "u64 \<times> u64"

definition rng :: "blk \<Rightarrow> nat set" where
  "rng b = {unat (fst b)..<unat (fst b) + unat (snd b)}"

definition spans :: "blk list \<Rightarrow> nat set" where
  "spans bs = (\<Union>b\<in>set bs. rng b)"

text \<open>Sorted by address, with a gap between any two neighbours.\<close>

definition coalesced :: "blk list \<Rightarrow> bool" where
  "coalesced bs \<longleftrightarrow> sorted_wrt (\<lambda>b c. unat (fst b) + unat (snd b) < unat (fst c)) bs \<and> (\<forall>b\<in>set bs. 0 < unat (snd b))"

lemma spans_simps [simp]: "spans [] = {}" "spans (b # bs) = rng b \<union> spans bs" "spans (bs @ cs) = spans bs \<union> spans cs"
  by (auto simp: spans_def)

lemma coalesced_Cons:
  "coalesced (b # bs) \<longleftrightarrow> 0 < unat (snd b) \<and> (\<forall>c\<in>set bs. unat (fst b) + unat (snd b) < unat (fst c)) \<and> coalesced bs"
  by (auto simp: coalesced_def)

lemma coalesced_append:
  "coalesced (bs @ cs) \<longleftrightarrow> coalesced bs \<and> coalesced cs \<and>
     (\<forall>b\<in>set bs. \<forall>c\<in>set cs. unat (fst b) + unat (snd b) < unat (fst c))"
  by (auto simp: coalesced_def sorted_wrt_append)

text \<open>The first block of a coalesced list is the first run of addresses it spans.\<close>

lemma coalesced_head:
  assumes "coalesced (b # bs)"
  shows "x < unat (fst b) \<Longrightarrow> x \<notin> spans (b # bs)" "unat (fst b) \<in> spans (b # bs)"
    "unat (fst b) + unat (snd b) \<notin> spans (b # bs)" "spans bs = spans (b # bs) - rng b"
proof -
  have "x \<notin> rng c" if "c \<in> set bs" "x \<le> unat (fst b) + unat (snd b)" for c x
    using assms that by (auto simp: coalesced_Cons rng_def)
  then have tail: "x \<notin> spans bs" if "x \<le> unat (fst b) + unat (snd b)" for x using that by (auto simp: spans_def)
  show "x < unat (fst b) \<Longrightarrow> x \<notin> spans (b # bs)" "unat (fst b) + unat (snd b) \<notin> spans (b # bs)"
    using tail by (auto simp: rng_def)
  show "unat (fst b) \<in> spans (b # bs)" using assms by (simp add: rng_def coalesced_Cons)
  show "spans bs = spans (b # bs) - rng b" using tail by (auto simp: rng_def)
qed

text \<open>A coalesced list is determined by the addresses it spans.\<close>

lemma coalesced_unique:
  assumes "coalesced bs" "coalesced cs" "spans bs = spans cs"
  shows "bs = cs"
  using assms
proof (induction bs arbitrary: cs)
  case Nil
  then show ?case using coalesced_head(2) by (cases cs) (simp, metis empty_iff spans_simps(1))
next
  case (Cons b bs)
  then obtain c cs' where cs: "cs = c # cs'" using coalesced_head(2) [OF Cons.prems(1)] by (cases cs) auto
  note hb = coalesced_head [OF Cons.prems(1)] and hc = coalesced_head [OF Cons.prems(2) [unfolded cs]]
  have eq: "spans (b # bs) = spans (c # cs')" using Cons.prems(3) cs by simp
  have "\<not> unat (fst b) < unat (fst c)" "\<not> unat (fst c) < unat (fst b)" using hb(1,2) hc(1,2) eq by metis+
  then have a: "unat (fst b) = unat (fst c)" by simp
  have in_b: "x \<in> spans (b # bs)" if "unat (fst b) \<le> x" "x < unat (fst b) + unat (snd b)" for x using that by (auto simp: rng_def)
  have in_c: "x \<in> spans (c # cs')" if "unat (fst c) \<le> x" "x < unat (fst c) + unat (snd c)" for x using that by (auto simp: rng_def)
  have "\<not> unat (snd b) < unat (snd c)" "\<not> unat (snd c) < unat (snd b)"
    using in_c [of "unat (fst b) + unat (snd b)"] in_b [of "unat (fst c) + unat (snd c)"] hb(3) hc(3) eq a by auto
  with a have "b = c" by (simp add: prod_eq_iff word_unat_eq_iff)
  moreover have "bs = cs'"
  proof (rule Cons.IH)
    show "coalesced bs" "coalesced cs'" using Cons.prems(1,2) cs by (simp_all add: coalesced_Cons)
    show "spans bs = spans cs'" using hb(4) hc(4) eq \<open>b = c\<close> by argo
  qed
  ultimately show ?case using cs by simp
qed

section \<open>Blocks in memory\<close>

text \<open>\<open>hseg s h bs y\<close>: the list from \<open>h\<close> is \<open>bs\<close> and ends at \<open>y\<close>; \<open>blk_ok\<close>: a block is aligned and
  inside the heap, which ends below \<open>2 ^ 64\<close>.\<close>

fun hseg :: "heap \<Rightarrow> u64 \<Rightarrow> blk list \<Rightarrow> u64 \<Rightarrow> bool" where
  "hseg s h [] y \<longleftrightarrow> h = y"
| "hseg s h ((a, n) # bs) y \<longleftrightarrow> h = a \<and> a \<noteq> 0 \<and> mem s a = n \<and> hseg s (mem s (a + 8)) bs y"

definition blk_ok :: "nat \<Rightarrow> nat \<Rightarrow> blk \<Rightarrow> bool" where
  "blk_ok lo hi b \<longleftrightarrow> 0 < lo \<and> hi < 2 ^ 64 \<and> 16 dvd unat (fst b) \<and> 16 dvd unat (snd b) \<and> 0 < unat (snd b) \<and>
     lo \<le> unat (fst b) \<and> unat (fst b) + unat (snd b) \<le> hi"

lemma blk_okD:
  assumes "blk_ok lo hi (a, n)"
  shows "a \<noteq> 0" "unat (a + 8) = unat a + 8" "16 \<le> unat n" "uadd a n = Some (a + n)" "unat (a + n) = unat a + unat n"
    "unat a \<in> rng (a, n)" "unat (a + 8) \<in> rng (a, n)"
proof -
  have b: "0 < unat a" "unat a + unat n < 2 ^ 64" "16 dvd unat n" "0 < unat n" using assms by (auto simp: blk_ok_def)
  then show "a \<noteq> 0" by auto
  show n: "16 \<le> unat n" using b(3,4) by (simp add: dvd_imp_le)
  show a: "unat (a + 8) = unat a + 8" using b(2) n by (simp add: unat_add_no_wrap)
  show "uadd a n = Some (a + n)" "unat (a + n) = unat a + unat n" using b(2) by (simp_all add: uadd_def unat_add_no_wrap)
  show "unat a \<in> rng (a, n)" "unat (a + 8) \<in> rng (a, n)" using n a by (simp_all add: rng_def)
qed

lemma hseg_append: "hseg s h (bs @ cs) y \<longleftrightarrow> (\<exists>z. hseg s h bs z \<and> hseg s z cs y)"
  by (induction bs arbitrary: h) auto

lemma hseg_cong:
  assumes "\<And>a n. (a, n) \<in> set bs \<Longrightarrow> mem s' a = mem s a \<and> mem s' (a + 8) = mem s (a + 8)"
  shows "hseg s' h bs y = hseg s h bs y"
  using assms
proof (induction bs arbitrary: h)
  case (Cons b bs)
  obtain a n where b: "b = (a, n)" by force
  have "mem s' a = mem s a" "mem s' (a + 8) = mem s (a + 8)" using Cons.prems [of a n] b by simp_all
  moreover have "hseg s' h bs y = hseg s h bs y" for h by (rule Cons.IH) (use Cons.prems in \<open>meson list.set_intros(2)\<close>)
  ultimately show ?case by (simp add: b)
qed simp

text \<open>A write outside the blocks of a list leaves it as it is.\<close>

lemma hseg_set_cell:
  assumes "\<forall>b\<in>set bs. blk_ok lo hi b" "unat x \<notin> spans bs"
  shows "hseg (set_cell s x v) h bs y = hseg s h bs y"
proof (rule hseg_cong)
  fix a n assume b: "(a, n) \<in> set bs"
  then have "x \<noteq> a" "x \<noteq> a + 8" using blk_okD(6,7) [of lo hi a n] assms by (auto simp: spans_def)
  then show "mem (set_cell s x v) a = mem s a \<and> mem (set_cell s x v) (a + 8) = mem s (a + 8)" by (simp add: set_cell_def)
qed

lemma set_cell_simps [simp]:
  "fl_head (set_cell s x v) = fl_head s" "fl_allocated (set_cell s x v) = fl_allocated s" "fl_total (set_cell s x v) = fl_total s"
  "phys_map_base (set_cell s x v) = phys_map_base s" for s :: heap
  by (simp_all add: set_cell_def)

lemma mem_set_cell: "mem (set_cell s x v) y = (if y = x then v else mem s y)"
  by (simp add: set_cell_def)

lemma hseg_update [simp]: "hseg (s\<lparr>fl_head := a\<rparr>) h bs y = hseg s h bs y" "hseg (s\<lparr>fl_allocated := a\<rparr>) h bs y = hseg s h bs y"
  by (rule hseg_cong, simp)+

definition prev_of :: "blk list \<Rightarrow> u64" where
  "prev_of bs = (if bs = [] then 0 else fst (last bs))"

lemma disjoint_Cons: "coalesced (b # bs) \<Longrightarrow> rng b \<inter> spans bs = {}"
  using coalesced_head(4) by blast

lemma coalesced_disjoint:
  assumes "coalesced (bs @ cs)"
  shows "spans bs \<inter> spans cs = {}"
proof -
  have "x \<notin> rng c" if "b \<in> set bs" "c \<in> set cs" "x \<in> rng b" for b c x
    using assms that by (fastforce simp: coalesced_append rng_def)
  then show ?thesis unfolding spans_def by blast
qed

text \<open>Linking \<open>x\<close> behind the blocks \<open>pre\<close>.\<close>

lemma hseg_relink:
  assumes ok: "\<forall>b\<in>set pre. blk_ok lo hi b" "\<forall>b\<in>set bs. blk_ok lo hi b" and dis: "coalesced pre" "spans pre \<inter> spans bs = {}"
    and pre: "hseg s (fl_head s) pre z" and bs: "hseg s x bs 0"
  shows "hseg (relink s (prev_of pre) x) (fl_head (relink s (prev_of pre) x)) (pre @ bs) 0"
proof (cases pre rule: rev_cases)
  case Nil
  then show ?thesis using bs by (simp add: relink_def prev_of_def)
next
  case (snoc pre' b)
  obtain p k where b: "b = (p, k)" by force
  have pk: "blk_ok lo hi (p, k)" using ok(1) snoc b by simp
  have c: "coalesced (pre' @ [(p, k)])" using dis(1) snoc b by simp
  have d: "unat (p + 8) \<notin> spans pre'" "unat (p + 8) \<notin> spans bs" "p \<noteq> p + 8"
    using coalesced_disjoint [OF c] dis(2) snoc b blk_okD(7) [OF pk] by auto
  have p: "hseg s (fl_head s) pre' p" "mem s p = k" "p \<noteq> 0" using pre snoc b by (auto simp: hseg_append)
  let ?s = "set_cell s (p + 8) x"
  have r: "relink s (prev_of pre) x = ?s" using p(3) snoc b by (simp add: relink_def prev_of_def)
  have "hseg ?s (fl_head s) pre' p" "hseg ?s x bs 0"
    using p(1) bs hseg_set_cell [of pre' lo hi "p + 8" s x] hseg_set_cell [of bs lo hi "p + 8" s x] d ok snoc by simp_all
  then show ?thesis unfolding r using p d snoc b by (auto simp: hseg_append mem_set_cell)
qed

section \<open>The search\<close>

definition pay :: "nat \<Rightarrow> blk \<Rightarrow> nat" where
  "pay al b = (unat (fst b) + 16 + al - 1) div al * al"

definition fits_blk :: "nat \<Rightarrow> nat \<Rightarrow> blk \<Rightarrow> bool" where
  "fits_blk al n b \<longleftrightarrow> pay al b + n \<le> unat (fst b) + unat (snd b)"

fun first_fit :: "nat \<Rightarrow> nat \<Rightarrow> blk list \<Rightarrow> (blk list \<times> blk \<times> blk list) option" where
  "first_fit al n [] = None"
| "first_fit al n (b # bs) = (if fits_blk al n b then Some ([], b, bs)
     else map_option (\<lambda>(pre, c, post). (b # pre, c, post)) (first_fit al n bs))"

lemma first_fit_Some:
  "first_fit al n bs = Some (pre, b, post) \<Longrightarrow> bs = pre @ b # post \<and> fits_blk al n b \<and> (\<forall>c\<in>set pre. \<not> fits_blk al n c)"
  by (induction bs arbitrary: pre) (auto split: if_splits)

lemma first_fit_None: "first_fit al n bs = None \<longleftrightarrow> (\<forall>b\<in>set bs. \<not> fits_blk al n b)"
  by (induction bs) auto

lemma payload_eq:
  assumes ok: "blk_ok lo hi (a, n)" and al: "is_power_of_two al" "hi + unat al < 2 ^ 64"
  obtains p where "uadd a HEADER = Some (a + 16)" "align_up (a + 16) al = Some p" "unat p = pay (unat al) (a, n)"
proof -
  have b: "unat a + 16 \<le> hi" using blk_okD(3) [OF ok] ok by (simp add: blk_ok_def)
  have pos: "0 < unat al" using al(1) by (rule is_power_of_two_pos)
  have a16: "uadd a HEADER = Some (a + 16)" "unat (a + 16) = unat a + 16"
    using b ok by (simp_all add: uadd_def unat_add_no_wrap kconsts blk_ok_def)
  have "unat (a + 16) + unat al < 2 ^ 64" using a16 b al(2) by linarith
  from align_up_eq [OF al(1) this] show thesis using that a16 by (auto simp: pay_def)
qed

lemma fits_eq:
  assumes ok: "blk_ok lo hi (a, n)" and p: "unat p = pay (unat al) (a, n)"
  shows "(case uadd p sz of None \<Rightarrow> Some False | Some e \<Rightarrow> do { lim \<leftarrow> uadd a n; Some (e \<le> lim) }) =
    Some (fits_blk (unat al) (unat sz) (a, n))"
proof (cases "unat p + unat sz < 2 ^ 64")
  case True
  then show ?thesis using blk_okD(4,5) [OF ok] p by (simp add: uadd_def fits_blk_def word_le_nat_alt unat_add_no_wrap)
next
  case False
  then show ?thesis using ok p by (simp add: uadd_def fits_blk_def blk_ok_def)
qed

text \<open>The loop of \<^verbatim>\<open>heap_alloc\<close> returns, at the first block that fits.\<close>

lemma alloc_loop_eq:
  assumes "hseg s cur bs 0" "\<forall>b\<in>set bs. blk_ok lo hi b" and al: "is_power_of_two al" "hi + unat al < 2 ^ 64"
  shows "case first_fit (unat al) (unat sz) bs of
      None \<Rightarrow> alloc_loop s al sz prev cur = Some (0, s)
    | Some (pre, (a, n), post) \<Rightarrow> \<exists>p. unat p = pay (unat al) (a, n) \<and>
        alloc_loop s al sz prev cur = take_block s (if pre = [] then prev else prev_of pre) a n p sz"
  using assms(1,2)
proof (induction bs arbitrary: prev cur)
  case Nil
  then show ?case by (simp add: alloc_loop.simps)
next
  case (Cons b bs)
  obtain a n where b: "b = (a, n)" by force
  have ok: "blk_ok lo hi (a, n)" using Cons.prems(2) b by simp
  have h: "cur = a" "a \<noteq> 0" "mem s a = n" "hseg s (mem s (a + 8)) bs 0" using Cons.prems(1) b by auto
  obtain p where p: "uadd a HEADER = Some (a + 16)" "align_up (a + 16) al = Some p" "unat p = pay (unat al) (a, n)"
    by (rule payload_eq [OF ok al])
  have step: "alloc_loop s al sz prev cur = (if fits_blk (unat al) (unat sz) (a, n) then take_block s prev a n p sz
      else alloc_loop s al sz a (mem s (a + 8)))"
    unfolding h(1) using h(2,3) p fits_eq [OF ok p(3), of sz] by (subst alloc_loop.simps) simp
  show ?case
  proof (cases "fits_blk (unat al) (unat sz) (a, n)")
    case True
    then show ?thesis using step p(3) b by auto
  next
    case False
    have "case first_fit (unat al) (unat sz) bs of
        None \<Rightarrow> alloc_loop s al sz a (mem s (a + 8)) = Some (0, s)
      | Some (pre, (c, m), post) \<Rightarrow> \<exists>p. unat p = pay (unat al) (c, m) \<and>
          alloc_loop s al sz a (mem s (a + 8)) = take_block s (if pre = [] then a else prev_of pre) c m p sz"
      by (rule Cons.IH [OF h(4)]) (use Cons.prems(2) in simp)
    then show ?thesis using False step b by (auto simp: prev_of_def split: option.splits)
  qed
qed

end
