(* ===== verification/Heap_Ops.thy ===== *)
theory Heap_Ops
  imports Heap_Lists
begin

text \<open>
  The invariant of the kernel heap and the effect of \<^verbatim>\<open>heap_alloc\<close> and \<^verbatim>\<open>heap_free\<close> on it: both
  always return, and the free list stays sorted and coalesced.
\<close>

section \<open>The invariant\<close>

text \<open>
  \<open>live\<close> maps the payloads handed out to their blocks. Free and live blocks are disjoint and
  together make up the whole heap; the word before a payload holds the address of its block; the
  counter holds the number of bytes that are not free.
\<close>

definition live_ok :: "heap \<Rightarrow> nat \<Rightarrow> nat \<Rightarrow> u64 \<Rightarrow> blk \<Rightarrow> bool" where
  "live_ok s lo hi p b \<longleftrightarrow> blk_ok lo hi b \<and> 16 dvd unat p \<and> unat (fst b) + 16 \<le> unat p \<and>
     unat p \<le> unat (fst b) + unat (snd b) \<and> mem s (p - 8) = fst b \<and> mem s (fst b) = snd b"

definition heap_inv :: "heap \<Rightarrow> nat \<Rightarrow> nat \<Rightarrow> blk list \<Rightarrow> (u64 \<rightharpoonup> blk) \<Rightarrow> bool" where
  "heap_inv s lo hi fs live \<longleftrightarrow> hseg s (fl_head s) fs 0 \<and> coalesced fs \<and> (\<forall>b\<in>set fs. blk_ok lo hi b) \<and> 0 < lo \<and> hi < 2 ^ 64 \<and>
     (\<forall>p b. live p = Some b \<longrightarrow> live_ok s lo hi p b \<and> rng b \<inter> spans fs = {}) \<and>
     (\<forall>p q b c. live p = Some b \<longrightarrow> live q = Some c \<longrightarrow> p \<noteq> q \<longrightarrow> rng b \<inter> rng c = {}) \<and>
     spans fs \<union> (\<Union>b\<in>ran live. rng b) = {lo..<hi} \<and>
     unat (fl_allocated s) + card (spans fs) = hi - lo"

lemma heap_invD:
  assumes "heap_inv s lo hi fs live"
  shows "hseg s (fl_head s) fs 0" "coalesced fs" "\<And>b. b \<in> set fs \<Longrightarrow> blk_ok lo hi b" "0 < lo" "hi < 2 ^ 64"
    "\<And>p b. live p = Some b \<Longrightarrow> live_ok s lo hi p b" "\<And>p b. live p = Some b \<Longrightarrow> rng b \<inter> spans fs = {}"
    "\<And>p q b c. live p = Some b \<Longrightarrow> live q = Some c \<Longrightarrow> p \<noteq> q \<Longrightarrow> rng b \<inter> rng c = {}"
    "spans fs \<union> (\<Union>b\<in>ran live. rng b) = {lo..<hi}" "unat (fl_allocated s) + card (spans fs) = hi - lo"
  using assms unfolding heap_inv_def by ((elim conjE, (assumption | (drule (1) bspec, assumption) | meson))+)

lemma spans_finite [simp]: "finite (spans bs)"
  by (simp add: spans_def rng_def)

lemma live_cells:
  assumes "live_ok s lo hi p b"
  shows "unat (p - 8) \<in> rng b" "unat (fst b) \<in> rng b" "unat (p - 8) = unat p - 8" "unat (p - 8) \<noteq> unat (fst b)" "8 \<le> p"
proof -
  have a: "unat (fst b) + 16 \<le> unat p" "unat p \<le> unat (fst b) + unat (snd b)" "0 < unat (snd b)"
    using assms by (simp_all add: live_ok_def blk_ok_def)
  then show e: "8 \<le> p" by (simp add: word_le_nat_alt)
  then show u: "unat (p - 8) = unat p - 8" by (simp add: unat_sub)
  then show "unat (p - 8) \<in> rng b" "unat (p - 8) \<noteq> unat (fst b)" using a by (auto simp: rng_def)
  show "unat (fst b) \<in> rng b" using a by (simp add: rng_def)
qed

text \<open>A live block keeps its words when only free memory is written.\<close>

lemma live_ok_keep:
  assumes "live_ok s lo hi p b" "rng b \<inter> X = {}" "\<And>x. unat x \<notin> X \<Longrightarrow> mem s' x = mem s x"
  shows "live_ok s' lo hi p b"
  using assms live_cells [OF assms(1)] unfolding live_ok_def by (metis disjoint_iff)

lemma live_distinct:
  assumes "live_ok s lo hi p b" "live_ok s' lo hi p c"
  shows "rng b \<inter> rng c \<noteq> {}"
  using live_cells(1) [OF assms(1)] live_cells(1) [OF assms(2)] by blast

section \<open>Taking a block\<close>

lemma mem_relink: "mem (relink s prev x) y = (if prev \<noteq> 0 \<and> y = prev + 8 then x else mem s y)"
  by (simp add: relink_def mem_set_cell)

lemma relink_simps [simp]: "fl_allocated (relink s prev x) = fl_allocated s" "fl_total (relink s prev x) = fl_total s"
  by (simp_all add: relink_def)

lemma prev_cell:
  assumes "\<forall>b\<in>set pre. blk_ok lo hi b" "prev_of pre \<noteq> 0"
  shows "unat (prev_of pre + 8) \<in> spans pre"
proof -
  have ne: "pre \<noteq> []" using assms(2) by (auto simp: prev_of_def)
  obtain p k where l: "last pre = (p, k)" by force
  then have "(p, k) \<in> set pre" using ne last_in_set by metis
  with blk_okD(7) [of lo hi p k] assms(1) show ?thesis using ne l by (auto simp: prev_of_def spans_def)
qed

lemma pay_facts:
  assumes "16 dvd al" "0 < al" "16 dvd unat (fst b)"
  shows "unat (fst b) + 16 \<le> pay al b" "16 dvd pay al b" "al dvd pay al b"
proof -
  show "unat (fst b) + 16 \<le> pay al b" unfolding pay_def by (rule round_up_bounds(1) [OF assms(2)])
  show "al dvd pay al b" by (simp add: pay_def)
  then show "16 dvd pay al b" using assms(1) dvd_trans by blast
qed

text \<open>The parts of a block that fits: the block taken, and the tail that stays free.\<close>

definition tail_at :: "nat \<Rightarrow> nat \<Rightarrow> nat" where
  "tail_at p n = (p + n + 15) div 16 * 16"

lemma tail_facts:
  assumes "blk_ok lo hi (a, n)" "unat p = pay al (a, n)" "fits_blk al (unat sz) (a, n)" "16 dvd al" "0 < al" "hi + 16 < 2 ^ 64"
  obtains t where "do { t \<leftarrow> uadd p sz; align_up t HEADER } = Some t" "unat t = tail_at (unat p) (unat sz)"
    "unat p + unat sz \<le> unat t" "unat t \<le> unat a + unat n" "16 dvd unat t" "unat a + 16 \<le> unat t" "unat p \<le> unat t"
proof -
  have b: "unat a + unat n < 2 ^ 64" "16 dvd unat a" "16 dvd unat n" "unat a + unat n \<le> hi" "hi < 2 ^ 64" using assms(1) by (auto simp: blk_ok_def)
  have f: "unat p + unat sz \<le> unat a + unat n" using assms(2,3) by (simp add: fits_blk_def)
  note pf = pay_facts [OF assms(4,5), of "(a, n)"]
  have pw: "is_power_of_two HEADER" unfolding is_power_of_two_iff HEADER_def by (rule exI [of _ 4]) simp
  have s: "uadd p sz = Some (p + sz)" "unat (p + sz) = unat p + unat sz" using f b(1) by (simp_all add: uadd_def unat_add_no_wrap)
  have le: "tail_at (unat p) (unat sz) \<le> unat a + unat n"
    using round_up_le [of 16 "unat p + unat sz" "unat a + unat n"] f b(2,3) by (simp add: tail_at_def ac_simps)
  have "unat (p + sz) + unat HEADER < 2 ^ 64" using s(2) f b(4) assms(6) by (simp add: HEADER_def)
  from align_up_eq [OF pw this] obtain t where t: "align_up (p + sz) HEADER = Some t"
    "unat t = (unat (p + sz) + unat HEADER - 1) div unat HEADER * unat HEADER" .
  then have ut: "unat t = tail_at (unat p) (unat sz)" using s(2) by (simp add: HEADER_def tail_at_def)
  have ge: "unat p + unat sz \<le> unat t" using round_up_bounds(1) [of 16 "unat p + unat sz"] ut by (simp add: tail_at_def)
  show thesis
    using that [OF _ ut ge] t(1) s(1) ut le ge pf assms(2) b(2) by (simp add: tail_at_def)
qed

lemma card_rng [simp]: "card (rng b) = unat (snd b)"
  by (simp add: rng_def)

lemma finite_rng [simp]: "finite (rng b)"
  by (simp add: rng_def)

lemma heap_inv_take:
  assumes inv: "heap_inv s lo hi fs live"
    and list: "hseg s' (fl_head s') fs' 0" "coalesced fs'" "\<forall>c\<in>set fs'. blk_ok lo hi c"
    and b: "live_ok s' lo hi p b" "rng b \<subseteq> spans fs" "spans fs' = spans fs - rng b"
    and keep: "\<And>x. unat x \<notin> spans fs \<Longrightarrow> mem s' x = mem s x"
    and count: "unat (fl_allocated s') = unat (fl_allocated s) + unat (snd b)"
  shows "heap_inv s' lo hi fs' (live(p \<mapsto> b))" "live p = None"
proof -
  note i = heap_invD [OF inv]
  have old: "live_ok s' lo hi q c" "rng c \<inter> spans fs = {}" if "live q = Some c" for q c
    using live_ok_keep [OF i(6) [OF that] i(7) [OF that] keep] i(7) [OF that] by blast+
  show none: "live p = None"
  proof (cases "live p")
    case (Some c)
    then show ?thesis using live_distinct [OF old(1) [OF Some] b(1)] old(2) [OF Some] b(2) by blast
  qed
  have ran: "ran (live(p \<mapsto> b)) = insert b (ran live)" using none by (rule ran_map_upd)
  have new: "rng b \<inter> spans fs' = {}" using b(3) by blast
  have "live_ok s' lo hi q c \<and> rng c \<inter> spans fs' = {}" if "(live(p \<mapsto> b)) q = Some c" for q c
    using that old [of q c] b(1,3) new by (cases "q = p") auto
  moreover have "rng c \<inter> rng d = {}" if "(live(p \<mapsto> b)) q = Some c" "(live(p \<mapsto> b)) r = Some d" "q \<noteq> r" for q r c d
    using that old(2) b(2) i(8) [of q c r d] by (fastforce split: if_splits)
  moreover have "spans fs' \<union> (\<Union>c\<in>ran (live(p \<mapsto> b)). rng c) = {lo..<hi}"
    using i(9) b(2,3) unfolding ran by blast
  moreover have "card (spans fs') + unat (snd b) = card (spans fs)"
    using b(2,3) card_Diff_subset [of "rng b" "spans fs"] card_mono [of "spans fs" "rng b"] by simp
  then have "unat (fl_allocated s') + card (spans fs') = hi - lo" using count i(10) by linarith
  ultimately show "heap_inv s' lo hi fs' (live(p \<mapsto> b))" unfolding heap_inv_def using list i(4,5) by blast
qed

lemma heap_room:
  assumes inv: "heap_inv s lo hi fs live" and b: "rng b \<subseteq> spans fs"
  shows "unat (fl_allocated s) + unat (snd b) < 2 ^ 64"
  using heap_invD(5,10) [OF inv] card_mono [OF _ b] by simp

lemma mid_facts:
  assumes inv: "heap_inv s lo hi (pre @ (a, n) # post) live"
  shows "hseg s (fl_head s) pre a" "hseg s (mem s (a + 8)) post 0" "mem s a = n"
    "blk_ok lo hi (a, n)" "coalesced pre" "coalesced post" "coalesced (pre @ post)"
    "\<forall>b\<in>set pre. blk_ok lo hi b" "\<forall>b\<in>set post. blk_ok lo hi b"
    "spans pre \<inter> spans post = {}" "spans pre \<inter> rng (a, n) = {}" "spans post \<inter> rng (a, n) = {}"
    "\<And>b. b \<in> set pre \<Longrightarrow> unat (fst b) + unat (snd b) < unat a"
    "\<And>b. b \<in> set post \<Longrightarrow> unat a + unat n < unat (fst b)"
proof -
  note i = heap_invD [OF inv]
  show "hseg s (fl_head s) pre a" "hseg s (mem s (a + 8)) post 0" "mem s a = n" using i(1) by (auto simp: hseg_append)
  show "blk_ok lo hi (a, n)" "\<forall>b\<in>set pre. blk_ok lo hi b" "\<forall>b\<in>set post. blk_ok lo hi b" using i(3) by simp_all
  show "coalesced pre" "coalesced post" "coalesced (pre @ post)" "\<And>b. b \<in> set pre \<Longrightarrow> unat (fst b) + unat (snd b) < unat a"
    "\<And>b. b \<in> set post \<Longrightarrow> unat a + unat n < unat (fst b)"
    using i(2) by (auto simp: coalesced_append coalesced_Cons)
  show "spans pre \<inter> spans post = {}" "spans pre \<inter> rng (a, n) = {}" using coalesced_disjoint [OF i(2)] by auto
  show "spans post \<inter> rng (a, n) = {}" using disjoint_Cons [of "(a, n)" post] i(2) by (auto simp: coalesced_append)
qed

text \<open>What the allocation of \<open>p\<close> in a block of the list leaves behind.\<close>

definition took :: "heap \<Rightarrow> nat \<Rightarrow> nat \<Rightarrow> blk list \<Rightarrow> (u64 \<rightharpoonup> blk) \<Rightarrow> u64 \<Rightarrow> nat \<Rightarrow> heap \<Rightarrow> blk list \<Rightarrow> blk \<Rightarrow> bool" where
  "took s lo hi fs live p n s' fs' b \<longleftrightarrow> heap_inv s' lo hi fs' (live(p \<mapsto> b)) \<and> live p = None \<and>
     rng b \<subseteq> spans fs \<and> spans fs' = spans fs - rng b \<and> unat p + n \<le> unat (fst b) + unat (snd b) \<and>
     (\<forall>x. unat x \<notin> spans fs \<longrightarrow> mem s' x = mem s x) \<and> fl_total s' = fl_total s"

lemma take_whole:
  assumes inv: "heap_inv s lo hi (pre @ (a, n) # post) live" (is "heap_inv s lo hi ?fs live")
    and p: "16 dvd unat p" "unat a + 16 \<le> unat p" "unat p \<le> unat a + unat n"
    and sz: "unat p + sz \<le> unat a + unat n"
  defines "s' \<equiv> set_cell (relink s (prev_of pre) (mem s (a + 8))) (p - 8) a"
  shows "took s lo hi ?fs live p sz (s'\<lparr>fl_allocated := fl_allocated s + n\<rparr>) (pre @ post) (a, n)"
proof -
  note m = mid_facts [OF inv]
  let ?r = "relink s (prev_of pre) (mem s (a + 8))"
  let ?t = "s'\<lparr>fl_allocated := fl_allocated s + n\<rparr>"
  have p8: "unat (p - 8) = unat p - 8" using p(2) by (simp add: unat_sub word_le_nat_alt)
  then have p8r: "unat (p - 8) \<in> rng (a, n)" "p - 8 \<noteq> a" using p by (auto simp: rng_def)
  have pr: "unat (prev_of pre + 8) \<in> spans pre" if "prev_of pre \<noteq> 0" using prev_cell [OF m(8) that] .
  have okfs: "\<forall>c\<in>set (pre @ post). blk_ok lo hi c" using m(8,9) by auto
  have "hseg ?r (fl_head ?r) (pre @ post) 0" by (rule hseg_relink [OF m(8,9,5,10,1,2)])
  moreover have "unat (p - 8) \<notin> spans (pre @ post)" using m(11,12) p8r(1) by auto
  ultimately have "hseg s' (fl_head s') (pre @ post) 0" unfolding s'_def by (simp add: hseg_set_cell [OF okfs])
  then have list: "hseg ?t (fl_head ?t) (pre @ post) 0" by simp
  have free: "rng (a, n) \<subseteq> spans ?fs" "spans (pre @ post) = spans ?fs - rng (a, n)" using m(11,12) by auto
  have keep: "mem ?t x = mem s x" if "unat x \<notin> spans ?fs" for x
    using that p8r pr by (auto simp: s'_def mem_set_cell mem_relink)
  have "a \<noteq> prev_of pre + 8 \<or> prev_of pre = 0" using pr m(11) blk_okD(6) [OF m(4)] by blast
  then have ok: "live_ok ?t lo hi p (a, n)"
    using p m(3,4) p8r(2) by (auto simp: live_ok_def s'_def mem_set_cell mem_relink)
  have count: "unat (fl_allocated ?t) = unat (fl_allocated s) + unat (snd (a, n))"
    using heap_room [OF inv free(1)] by (simp add: unat_add_no_wrap)
  from heap_inv_take [OF inv list m(7) okfs ok free keep count] show ?thesis
    unfolding took_def using free keep sz by (simp add: s'_def)
qed

lemma take_split:
  assumes inv: "heap_inv s lo hi (pre @ (a, n) # post) live" (is "heap_inv s lo hi ?fs live")
    and p: "16 dvd unat p" "unat a + 16 \<le> unat p" "unat p \<le> unat t"
    and sz: "unat p + sz \<le> unat t"
    and t: "16 dvd unat t" "unat t + 32 \<le> unat a + unat n" "unat t + unat r = unat a + unat n" "unat a + unat c = unat t"
  defines "s1 \<equiv> relink (set_cell (set_cell s t r) (t + 8) (mem s (a + 8))) (prev_of pre) t"
  defines "s' \<equiv> set_cell (set_cell s1 a c) (p - 8) a"
  shows "took s lo hi ?fs live p sz (s'\<lparr>fl_allocated := fl_allocated s + c\<rparr>) (pre @ (t, r) # post) (a, c)"
proof -
  note m = mid_facts [OF inv]
  let ?s0 = "set_cell (set_cell s t r) (t + 8) (mem s (a + 8))"
  let ?t = "s'\<lparr>fl_allocated := fl_allocated s + c\<rparr>"
  let ?fs' = "pre @ (t, r) # post"
  have n16: "16 dvd unat a" "16 dvd unat n" using m(4) by (simp_all add: blk_ok_def)
  have "16 dvd unat t + unat r" "16 dvd unat a + unat c" using n16 t(1,3,4) by simp_all
  then have r16: "16 dvd unat r" "16 dvd unat c" using t(1) n16 dvd_add_right_iff by blast+
  have okt: "blk_ok lo hi (t, r)" using m(4) t r16 by (auto simp: blk_ok_def)
  have okc: "blk_ok lo hi (a, c)" using m(4) t r16 p by (auto simp: blk_ok_def)
  have sub: "rng (t, r) \<subseteq> rng (a, n)" "rng (a, c) \<subseteq> rng (a, n)" "rng (t, r) = rng (a, n) - rng (a, c)"
    using t by (auto simp: rng_def)
  have tc: "unat t \<in> rng (t, r)" "unat (t + 8) \<in> rng (t, r)" "t \<noteq> t + 8" "t \<noteq> 0" using blk_okD [OF okt] by auto
  have p8: "unat (p - 8) = unat p - 8" using p(2) by (simp add: unat_sub word_le_nat_alt)
  then have p8r: "unat (p - 8) \<in> rng (a, c)" "p - 8 \<noteq> a" using p t(4) by (auto simp: rng_def)
  have ac: "unat a \<in> rng (a, c)" using blk_okD(6) [OF okc] .
  have pr: "unat (prev_of pre + 8) \<in> spans pre" if "prev_of pre \<noteq> 0" using prev_cell [OF m(8) that] .
  have out: "unat t \<notin> spans pre" "unat (t + 8) \<notin> spans pre" "unat t \<notin> spans post" "unat (t + 8) \<notin> spans post"
    using tc sub(1) m(11,12) by blast+
  have "hseg ?s0 (fl_head ?s0) pre a" "hseg ?s0 (mem s (a + 8)) post 0"
    using m(1,2,8,9) out by (simp_all add: hseg_set_cell [of pre lo hi] hseg_set_cell [of post lo hi])
  moreover from this have "hseg ?s0 t ((t, r) # post) 0" using tc by (simp add: mem_set_cell)
  moreover have "\<forall>b\<in>set ((t, r) # post). blk_ok lo hi b" "spans pre \<inter> spans ((t, r) # post) = {}" using okt m(9,10,11) sub(1) by auto
  ultimately have "hseg s1 (fl_head s1) ?fs' 0" unfolding s1_def using hseg_relink [OF m(8)] m(5) by blast
  moreover have okfs: "\<forall>b\<in>set ?fs'. blk_ok lo hi b" using m(8,9) okt by auto
  moreover have out': "unat a \<notin> spans ?fs'" "unat (p - 8) \<notin> spans ?fs'" using ac p8r(1) sub m(11,12) by auto
  ultimately have list: "hseg ?t (fl_head ?t) ?fs' 0"
    unfolding s'_def by (simp add: hseg_set_cell [OF okfs out'(1)] hseg_set_cell [OF okfs out'(2)])
  have coal: "coalesced ?fs'" using m(5,6,7,13,14) t by (force simp: coalesced_append coalesced_Cons)
  have free: "rng (a, c) \<subseteq> spans ?fs" "spans ?fs' = spans ?fs - rng (a, c)" using sub m(11,12) by auto
  have keep: "mem ?t x = mem s x" if "unat x \<notin> spans ?fs" for x
    using that p8r ac pr sub tc by (auto simp: s'_def s1_def mem_set_cell mem_relink)
  have ok: "live_ok ?t lo hi p (a, c)" using p p8r(2) okc t(4) by (auto simp: live_ok_def s'_def mem_set_cell)
  have count: "unat (fl_allocated ?t) = unat (fl_allocated s) + unat (snd (a, c))"
    using heap_room [OF inv free(1)] by (simp add: unat_add_no_wrap)
  from heap_inv_take [OF inv list coal okfs ok free keep count] show ?thesis
    unfolding took_def using free keep sz t(4) by (simp add: s'_def s1_def)
qed

lemma take_block_post:
  assumes inv: "heap_inv s lo hi (pre @ (a, n) # post) live" (is "heap_inv s lo hi ?fs live")
    and p: "unat p = pay al (a, n)" "fits_blk al (unat sz) (a, n)" and al: "16 dvd al" "0 < al" "hi + 16 < 2 ^ 64"
  shows "\<exists>s' fs' b. take_block s (prev_of pre) a n p sz = Some (p, s') \<and> took s lo hi ?fs live p (unat sz) s' fs' b \<and>
    fst b = a \<and> unat a + unat (snd b) < unat p + unat sz + 47"
proof -
  note m = mid_facts [OF inv]
  obtain t where t: "do { t \<leftarrow> uadd p sz; align_up t HEADER } = Some t" "unat p + unat sz \<le> unat t"
    "unat t \<le> unat a + unat n" "16 dvd unat t" "unat a + 16 \<le> unat t" "unat p \<le> unat t" "unat t = tail_at (unat p) (unat sz)"
    using tail_facts [OF m(4) p al] by metis
  have tight: "unat t \<le> unat p + unat sz + 15" unfolding t(7) tail_at_def by simp
  have pf: "unat a + 16 \<le> unat p" "16 dvd unat p" using pay_facts [OF al(1,2), of "(a, n)"] m(4) p(1) by (auto simp: blk_ok_def)
  obtain e where e: "uadd p sz = Some e" "align_up e HEADER = Some t" using t(1) by (auto simp: bind_eq_Some_conv)
  note an = blk_okD [OF m(4)]
  define r where "r = a + n - t"
  have r: "usub (a + n) t = Some r" "unat r = unat a + unat n - unat t"
    using t(3) an(5) by (simp_all add: usub_def r_def word_le_nat_alt unat_sub)
  have p8: "usub p 8 = Some (p - 8)" using pf(1) by (simp add: usub_def word_le_nat_alt)
  have ex: "take_block s (prev_of pre) a n p sz = Some (p, s') \<and> took s lo hi ?fs live p (unat sz) s' fs' b \<Longrightarrow>
      fst b = a \<and> unat a + unat (snd b) < unat p + unat sz + 47 \<Longrightarrow> ?thesis" for s' fs' b
    by blast
  show ?thesis
  proof (cases "32 \<le> unat r")
    case True
    define c where "c = t - a"
    have c: "usub t a = Some c" "unat a + unat c = unat t" using t(5) by (simp_all add: usub_def c_def word_le_nat_alt unat_sub)
    have tk: "unat t + 32 \<le> unat a + unat n" "unat t + unat r = unat a + unat n" using True r(2) by simp_all
    note took = take_split [OF inv pf(2,1) t(6,2,4) tk c(2)]
    have "rng (a, c) \<subseteq> spans ?fs" using took by (simp only: took_def)
    then have cnt: "uadd (fl_allocated s) c = Some (fl_allocated s + c)" using heap_room [OF inv, of "(a, c)"] by (simp add: uadd_def)
    show ?thesis
      by (rule ex, rule conjI [OF _ took])
        (use cnt True e an(4) r(1) c p8 tight in \<open>simp_all add: take_block_def word_le_nat_alt MIN_FREE_def\<close>)
  next
    case False
    have pn: "unat p \<le> unat a + unat n" "unat p + unat sz \<le> unat a + unat n" using t by simp_all
    note took = take_whole [OF inv pf(2,1) pn]
    have "rng (a, n) \<subseteq> spans ?fs" using took by (simp only: took_def)
    then have cnt: "uadd (fl_allocated s) n = Some (fl_allocated s + n)" using heap_room [OF inv, of "(a, n)"] by (simp add: uadd_def)
    show ?thesis
      by (rule ex, rule conjI [OF _ took])
        (use cnt False e an(4) r p8 tight in \<open>simp_all add: take_block_def word_le_nat_alt MIN_FREE_def\<close>)
  qed
qed

definition eff_align :: "layout \<Rightarrow> u64" where
  "eff_align lay = max (lay_align lay) HEADER"

lemma eff_align:
  assumes "is_power_of_two (lay_align lay)"
  shows "is_power_of_two (eff_align lay)" "16 dvd unat (eff_align lay)" "unat (lay_align lay) dvd unat (eff_align lay)" "16 \<le> unat (eff_align lay)"
proof -
  obtain k where k: "k < 64" "lay_align lay = 2 ^ k" using assms by (auto simp: is_power_of_two_iff)
  have u: "unat (lay_align lay) = 2 ^ k" "unat HEADER = 2 ^ 4" using k by (simp_all add: unat_power_two HEADER_def)
  have "eff_align lay = 2 ^ max k 4"
  proof (cases "4 \<le> k")
    case True
    then have "(2::nat) ^ 4 \<le> 2 ^ k" by (intro power_increasing) simp_all
    then have "HEADER \<le> lay_align lay" using u by (simp only: word_le_nat_alt)
    then show ?thesis using k True by (simp add: eff_align_def max.absorb1)
  next
    case False
    then have "(2::nat) ^ k < 2 ^ 4" using power_strict_increasing [of k 4 "2::nat"] by simp
    then show ?thesis using u k False by (simp add: eff_align_def max_def word_le_nat_alt HEADER_def)
  qed
  moreover have "max k 4 < 64" using k by simp
  ultimately have e: "is_power_of_two (eff_align lay)" "unat (eff_align lay) = 2 ^ max k 4"
    by (auto simp: is_power_of_two_iff unat_power_two simp del: max_less_iff_conj)
  show "is_power_of_two (eff_align lay)" using e by simp
  have "(2::nat) ^ 4 dvd 2 ^ max k 4" "(2::nat) ^ k dvd 2 ^ max k 4" by (rule le_imp_power_dvd, simp)+
  then show "16 dvd unat (eff_align lay)" "unat (lay_align lay) dvd unat (eff_align lay)" using e u by simp_all
  then show "16 \<le> unat (eff_align lay)" using e by (simp add: dvd_imp_le)
qed

lemma heap_alloc_post:
  assumes inv: "heap_inv s lo hi fs live" and al: "is_power_of_two (lay_align lay)" "hi + unat (eff_align lay) < 2 ^ 64"
  shows "if \<exists>b\<in>set fs. fits_blk (unat (eff_align lay)) (unat (lay_size lay)) b
    then \<exists>p s' fs' b. heap_alloc s lay = Some (p, s') \<and> took s lo hi fs live p (unat (lay_size lay)) s' fs' b \<and>
      p \<noteq> 0 \<and> unat (lay_align lay) dvd unat p \<and> fst b \<in> fst ` set fs \<and>
      unat (snd b) < unat (lay_size lay) + unat (eff_align lay) + 62
    else heap_alloc s lay = Some (0, s)"
proof -
  note ea = eff_align [OF al(1)] and i = heap_invD [OF inv]
  let ?al = "unat (eff_align lay)" and ?sz = "unat (lay_size lay)"
  have def: "heap_alloc s lay = alloc_loop s (eff_align lay) (lay_size lay) 0 (fl_head s)" by (simp add: heap_alloc_def eff_align_def)
  have "\<forall>b\<in>set fs. blk_ok lo hi b" using i(3) by blast
  note loop = alloc_loop_eq [OF i(1) this ea(1) al(2), of "lay_size lay" 0]
  show ?thesis
  proof (cases "first_fit ?al ?sz fs")
    case None
    then have "\<not> (\<exists>b\<in>set fs. fits_blk ?al ?sz b)" using first_fit_None by blast
    then show ?thesis using loop def None by simp
  next
    case (Some w)
    then obtain pre a n post where w: "first_fit ?al ?sz fs = Some (pre, (a, n), post)" by (cases w) auto
    then have fs: "fs = pre @ (a, n) # post" "fits_blk ?al ?sz (a, n)" using first_fit_Some by blast+
    from loop w obtain p where p: "unat p = pay ?al (a, n)"
      "heap_alloc s lay = take_block s (prev_of pre) a n p (lay_size lay)"
      by (auto simp: def prev_of_def)
    have pos: "0 < ?al" "hi + 16 < 2 ^ 64" using ea(4) al(2) by simp_all
    obtain s' fs' b where t: "take_block s (prev_of pre) a n p (lay_size lay) = Some (p, s')" "took s lo hi fs live p ?sz s' fs' b"
      "fst b = a" "unat a + unat (snd b) < unat p + ?sz + 47"
      using take_block_post [OF inv [unfolded fs(1)] p(1) fs(2) ea(2) pos] fs(1) by blast
    have "?al dvd unat p" "16 \<le> unat p" using p(1) pay_facts [OF ea(2) pos(1), of "(a, n)"] i(3) [of "(a, n)"] fs(1) by (simp_all add: blk_ok_def)
    then have "unat (lay_align lay) dvd unat p" "p \<noteq> 0" using ea(3) dvd_trans by (blast, auto)
    moreover have "unat p \<le> unat a + 15 + ?al" unfolding p(1) pay_def by (rule order_trans [OF div_times_less_eq_dividend]) simp
    then have "unat (snd b) < ?sz + ?al + 62" using t(4) by simp
    moreover have "fst b \<in> fst ` set fs" using t(3) fs(1) by force
    moreover have "\<exists>b\<in>set fs. fits_blk ?al ?sz b" using fs by auto
    ultimately show ?thesis using t p(2) by metis
  qed
qed

section \<open>Freeing\<close>

definition next_of :: "blk list \<Rightarrow> u64" where
  "next_of bs = (case bs of [] \<Rightarrow> 0 | b # _ \<Rightarrow> fst b)"

lemma hseg_next: "hseg s h bs 0 \<Longrightarrow> h = next_of bs"
  by (cases bs) (auto simp: next_of_def)

text \<open>The walk of \<^verbatim>\<open>heap_free\<close> returns, at the first block that is not below \<open>base\<close>.\<close>

lemma free_walk_eq:
  assumes "hseg s cur (pre @ post) 0" "\<forall>b\<in>set pre. fst b < base" "post \<noteq> [] \<Longrightarrow> \<not> fst (hd post) < base"
  shows "free_walk s base prev cur = Some (if pre = [] then prev else prev_of pre, next_of post)"
  using assms
proof (induction pre arbitrary: prev cur)
  case Nil
  then have "cur = next_of post" "\<not> (cur \<noteq> 0 \<and> cur < base)" by (cases post; auto simp: next_of_def)+
  then show ?case by (subst free_walk.simps) auto
next
  case (Cons b pre)
  then have "free_walk s base cur (mem s (cur + 8)) = Some (if pre = [] then cur else prev_of pre, next_of post)"
    by (cases b) (auto intro!: Cons.IH)
  moreover have "cur = fst b" "cur \<noteq> 0" "cur < base" using Cons.prems by (cases b; auto)+
  ultimately show ?case by (subst free_walk.simps) (auto simp: prev_of_def)
qed

lemma join_next_post:
  assumes l: "hseg s h (pre @ (a, n) # post) 0" and ok: "\<forall>b\<in>set (pre @ (a, n) # post). blk_ok lo hi b"
    and post: "coalesced post" "\<forall>c\<in>set post. unat a + unat n \<le> unat (fst c)" and pre: "spans pre \<inter> rng (a, n) = {}" "spans pre \<inter> spans post = {}"
  shows "\<exists>s' n' post'. join_next s a n (next_of post) = Some s' \<and> hseg s' h (pre @ (a, n') # post') 0 \<and>
    (\<forall>b\<in>set (pre @ (a, n') # post'). blk_ok lo hi b) \<and> coalesced ((a, n') # post') \<and> spans ((a, n') # post') = spans ((a, n) # post) \<and>
    (\<forall>x. x \<noteq> a \<longrightarrow> x \<noteq> a + 8 \<longrightarrow> mem s' x = mem s x) \<and> fl_head s' = fl_head s \<and> fl_allocated s' = fl_allocated s \<and> fl_total s' = fl_total s"
proof -
  have oka: "blk_ok lo hi (a, n)" using ok by simp
  note a = blk_okD [OF oka]
  have n0: "0 < unat n" using a(3) by simp
  have la: "mem s a = n" "hseg s h pre a" "hseg s (mem s (a + 8)) post 0" using l by (auto simp: hseg_append)
  show ?thesis
  proof (cases "next_of post \<noteq> 0 \<and> a + n = next_of post")
    case False
    have "unat a + unat n < unat (fst c)" if "c \<in> set post" for c
    proof (cases post)
      case (Cons b bs)
      have bb: "blk_ok lo hi b" using ok Cons by simp
      have "unat a + unat n \<noteq> unat (fst b)" using False Cons a(5) bb by (auto simp: next_of_def blk_ok_def word_unat_eq_iff)
      moreover have "unat (fst b) \<le> unat (fst c)" using post(1) that Cons by (auto simp: coalesced_Cons)
      ultimately show ?thesis using post(2) Cons by fastforce
    qed (use that in simp)
    then have "coalesced ((a, n) # post)" using post(1) n0 by (simp add: coalesced_Cons)
    moreover have "join_next s a n (next_of post) = Some s" using False a(4) by (auto simp: join_next_def)
    ultimately show ?thesis using l ok by blast
  next
    case True
    then obtain m post' where p: "post = (a + n, m) # post'" by (cases post) (auto simp: next_of_def)
    have okm: "blk_ok lo hi (a + n, m)" using ok p by simp
    have m: "mem s (a + n) = m" "hseg s (mem s (a + n + 8)) post' 0" using la(3) p by auto
    have nm: "uadd n m = Some (n + m)" "unat (n + m) = unat n + unat m"
      using okm a(5) by (simp_all add: blk_ok_def uadd_def unat_add_no_wrap)
    let ?s = "set_cell (set_cell s a (n + m)) (a + 8) (mem s (a + n + 8))"
    have j: "join_next s a n (next_of post) = Some ?s" using True a(4) la(1) m(1) nm(1) p by (simp add: join_next_def next_of_def)
    have ok': "blk_ok lo hi (a, n + m)" using oka okm nm(2) a(5) by (simp add: blk_ok_def)
    have rng: "rng (a, n + m) = rng (a, n) \<union> rng (a + n, m)" using nm(2) a(5) by (auto simp: rng_def)
    have out: "unat a \<notin> spans pre" "unat (a + 8) \<notin> spans pre" "unat a \<notin> spans post'" "unat (a + 8) \<notin> spans post'"
    proof -
      show "unat a \<notin> spans pre" "unat (a + 8) \<notin> spans pre" using pre(1) a(6,7) by auto
      have "x \<notin> spans post'" if "x \<in> rng (a, n)" for x using that post(2) p by (fastforce simp: spans_def rng_def)
      then show "unat a \<notin> spans post'" "unat (a + 8) \<notin> spans post'" using a(6,7) by auto
    qed
    have okp: "\<forall>b\<in>set pre. blk_ok lo hi b" "\<forall>b\<in>set post'. blk_ok lo hi b" using ok p by auto
    have "hseg ?s h pre a" "hseg ?s (mem s (a + n + 8)) post' 0"
      using la(2) m(2) by (simp_all add: hseg_set_cell [OF okp(1) out(1)] hseg_set_cell [OF okp(1) out(2)]
        hseg_set_cell [OF okp(2) out(3)] hseg_set_cell [OF okp(2) out(4)])
    then have "hseg ?s h (pre @ (a, n + m) # post') 0" using a(1,2) by (auto simp: hseg_append mem_set_cell)
    moreover have "coalesced ((a, n + m) # post')" using post(1) p nm(2) a(5) n0 by (auto simp: coalesced_Cons)
    moreover have "\<forall>b\<in>set (pre @ (a, n + m) # post'). blk_ok lo hi b" using okp ok' by auto
    moreover have "spans ((a, n + m) # post') = spans ((a, n) # post)" using rng p by auto
    ultimately show ?thesis using j
      by (intro exI [of _ ?s] exI [of _ "n + m"] exI [of _ post']) (simp add: mem_set_cell)
  qed
qed

lemma join_prev_post:
  assumes l: "hseg s h (pre @ (a, n) # post) 0" and ok: "\<forall>b\<in>set (pre @ (a, n) # post). blk_ok lo hi b"
    and post: "coalesced ((a, n) # post)" and pre: "coalesced pre" "\<forall>c\<in>set pre. unat (fst c) + unat (snd c) \<le> unat a"
  shows "\<exists>s' fs'. join_prev s (prev_of pre) a = Some s' \<and> hseg s' h fs' 0 \<and>
    (\<forall>b\<in>set fs'. blk_ok lo hi b) \<and> coalesced fs' \<and> spans fs' = spans (pre @ (a, n) # post) \<and>
    (\<forall>x. unat x \<notin> spans pre \<longrightarrow> mem s' x = mem s x) \<and> fl_head s' = fl_head s \<and> fl_allocated s' = fl_allocated s \<and> fl_total s' = fl_total s"
proof (cases pre rule: rev_cases)
  case Nil
  then show ?thesis using l ok post by (intro exI [of _ s] exI [of _ "(a, n) # post"]) (simp add: join_prev_def prev_of_def)
next
  case (snoc pre' b)
  obtain q k where b: "b = (q, k)" by force
  have p: "pre = pre' @ [(q, k)]" using snoc b by simp
  have okq: "blk_ok lo hi (q, k)" and oka: "blk_ok lo hi (a, n)" using ok p by auto
  note q = blk_okD [OF okq] and a = blk_okD [OF oka]
  have lq: "mem s q = k" "hseg s h pre' q" "mem s (q + 8) = a" "mem s a = n" "hseg s (mem s (a + 8)) post 0" using l p by (auto simp: hseg_append)
  have pq: "prev_of pre = q" using p by (simp add: prev_of_def)
  have below: "unat (fst c) + unat (snd c) < unat q" if "c \<in> set pre'" for c using that pre(1) p by (auto simp: coalesced_append)
  have above: "unat a + unat n < unat (fst c)" if "c \<in> set post" for c using that post by (auto simp: coalesced_Cons)
  show ?thesis
  proof (cases "q + k = a")
    case False
    then have lt: "unat q + unat k < unat a" using pre(2) p q(5) by (auto simp: word_unat_eq_iff order_le_less)
    have "coalesced (pre @ (a, n) # post)" unfolding coalesced_append
      using pre(1) post lt below above p a(3) by (fastforce simp: coalesced_Cons)
    moreover have "join_prev s (prev_of pre) a = Some s" using False q(4) lq(1) by (simp add: join_prev_def pq)
    ultimately show ?thesis using l ok by blast
  next
    case True
    have kn: "uadd k n = Some (k + n)" "unat (k + n) = unat k + unat n"
      using oka q(5) True by (auto simp: blk_ok_def uadd_def unat_add_no_wrap)
    have qa: "a \<noteq> q" "a + 8 \<noteq> q" using q(3,5) a(2) True by (auto simp: word_unat_eq_iff)
    let ?s = "set_cell (set_cell s q (k + n)) (q + 8) (mem s (a + 8))"
    have j: "join_prev s (prev_of pre) a = Some ?s"
      using True q(1,4) lq(1,4) kn(1) qa by (simp add: join_prev_def pq mem_set_cell)
    have ok': "blk_ok lo hi (q, k + n)" using oka okq kn(2) q(5) True by (auto simp: blk_ok_def)
    have rng: "rng (q, k + n) = rng (q, k) \<union> rng (a, n)" using kn(2) q(5) True by (auto simp: rng_def)
    have out: "x \<notin> spans pre'" "x \<notin> spans post" if "x \<in> rng (q, k)" for x
      using that below above q(5) True by (fastforce simp: spans_def rng_def)+
    have okp: "\<forall>b\<in>set pre'. blk_ok lo hi b" "\<forall>b\<in>set post. blk_ok lo hi b" using ok p by auto
    have "hseg ?s h pre' q" "hseg ?s (mem s (a + 8)) post 0"
      using lq(2,5) by (simp_all add: hseg_set_cell [OF okp(1) out(1)] hseg_set_cell [OF okp(2) out(2)] q(6,7))
    then have "hseg ?s h (pre' @ (q, k + n) # post) 0" using q(1,2) by (auto simp: hseg_append mem_set_cell)
    moreover have "coalesced (pre' @ (q, k + n) # post)" unfolding coalesced_append coalesced_Cons
      using pre(1) post below above p kn(2) q(5) True by (auto simp: coalesced_append coalesced_Cons) force+
    moreover have "\<forall>b\<in>set (pre' @ (q, k + n) # post). blk_ok lo hi b" using okp ok' by auto
    moreover have "spans (pre' @ (q, k + n) # post) = spans (pre @ (a, n) # post)" using rng p by auto
    moreover have "mem ?s x = mem s x" if "unat x \<notin> spans pre" for x using that p q(6,7) by (auto simp: mem_set_cell)
    ultimately show ?thesis using j
      by (intro exI [of _ ?s] exI [of _ "pre' @ (q, k + n) # post"]) (simp only: set_cell_simps simp_thms, blast)
  qed
qed

lemma heap_inv_free:
  assumes inv: "heap_inv s lo hi fs live" and p: "live p = Some b"
    and list: "hseg s' (fl_head s') fs' 0" "coalesced fs'" "\<forall>c\<in>set fs'. blk_ok lo hi c" "spans fs' = spans fs \<union> rng b"
    and keep: "\<And>x. unat x \<notin> spans fs' \<Longrightarrow> mem s' x = mem s x"
    and count: "unat (fl_allocated s') + unat (snd b) = unat (fl_allocated s)"
  shows "heap_inv s' lo hi fs' (live(p := None))"
proof -
  note i = heap_invD [OF inv]
  have ran: "ran live = insert b (ran (live(p := None)))" using p unfolding ran_def fun_upd_def by (auto split: if_splits) (metis option.inject)
  have free: "rng c \<inter> spans fs' = {}" if "live q = Some c" "q \<noteq> p" for q c
    using i(7) [OF that(1)] i(8) [OF that(1) p that(2)] list(4) by blast
  have "live_ok s' lo hi q c \<and> rng c \<inter> spans fs' = {}" if "(live(p := None)) q = Some c" for q c
  proof -
    have q: "live q = Some c" "q \<noteq> p" using that by (auto split: if_splits)
    show ?thesis using live_ok_keep [OF i(6) [OF q(1)] free [OF q] keep] free [OF q] by blast
  qed
  moreover have "rng c \<inter> rng d = {}" if "(live(p := None)) q = Some c" "(live(p := None)) r = Some d" "q \<noteq> r" for q r c d
    using that i(8) [of q c r d] by (auto split: if_splits)
  moreover have "spans fs' \<union> (\<Union>c\<in>ran (live(p := None)). rng c) = {lo..<hi}"
    using i(9) list(4) unfolding ran by blast
  moreover have "card (spans fs') = card (spans fs) + unat (snd b)"
    using i(7) [OF p] list(4) card_Un_disjoint [of "spans fs" "rng b"] by (simp add: Int_commute)
  then have "unat (fl_allocated s') + card (spans fs') = hi - lo" using count i(10) by linarith
  ultimately show ?thesis unfolding heap_inv_def using list(1-3) i(4,5) by blast
qed

text \<open>The place of a live block in the free list.\<close>

lemma free_split:
  assumes inv: "heap_inv s lo hi fs live" and p: "live p = Some (a, n)"
  obtains pre post where "fs = pre @ post" "\<forall>c\<in>set pre. fst c < a" "post \<noteq> [] \<Longrightarrow> \<not> fst (hd post) < a"
    "\<forall>c\<in>set pre. unat (fst c) + unat (snd c) \<le> unat a" "\<forall>c\<in>set post. unat a + unat n \<le> unat (fst c)"
proof -
  note i = heap_invD [OF inv] and concl = that
  define pre where "pre = takeWhile (\<lambda>c. fst c < a) fs"
  define post where "post = dropWhile (\<lambda>c. fst c < a) fs"
  have fs: "fs = pre @ post" by (simp add: pre_def post_def)
  have pre: "\<forall>c\<in>set pre. fst c < a" using set_takeWhileD by (fastforce simp: pre_def)
  have post: "post \<noteq> [] \<Longrightarrow> \<not> fst (hd post) < a" unfolding post_def by (rule hd_dropWhile)
  have ok: "blk_ok lo hi (a, n)" using i(6) [OF p] by (simp add: live_ok_def)
  have dis: "rng (a, n) \<inter> rng c = {}" if "c \<in> set fs" for c using i(7) [OF p] that by (auto simp: spans_def)
  have "unat (fst c) + unat (snd c) \<le> unat a" if "c \<in> set pre" for c
    using dis [of c] pre that fs blk_okD(6) [OF ok] by (auto simp: rng_def word_less_nat_alt disjoint_iff not_le)
  moreover have "unat a + unat n \<le> unat (fst c)" if c: "c \<in> set post" for c
  proof -
    obtain d ds where d: "post = d # ds" using c by (cases post) auto
    have "coalesced (d # ds)" using i(2) fs d by (simp add: coalesced_append)
    then have "unat (fst d) \<le> unat (fst c)" using c d by (auto simp: coalesced_Cons)
    then have "unat a \<le> unat (fst c)" using post d by (simp add: word_less_nat_alt)
    moreover have "unat (fst c) \<in> rng c" using i(3) [of c] c fs by (auto simp: rng_def blk_ok_def)
    then have "unat (fst c) \<notin> rng (a, n)" using dis [of c] c fs by auto
    ultimately show ?thesis by (simp add: rng_def)
  qed
  ultimately show thesis using post by (intro concl [OF fs pre]) blast+
qed

text \<open>The list with the freed block in place, before and after the coalescing steps.\<close>

lemma free_linked:
  assumes l: "hseg s (fl_head s) (pre @ post) 0" and ok: "\<forall>c\<in>set (pre @ (a, n) # post). blk_ok lo hi c" and c: "coalesced (pre @ post)"
    and dis: "rng (a, n) \<inter> spans (pre @ post) = {}"
  defines "s2 \<equiv> relink (set_cell (set_cell s a n) (a + 8) (next_of post)) (prev_of pre) a"
  shows "hseg s2 (fl_head s2) (pre @ (a, n) # post) 0"
    "unat x \<notin> spans (pre @ (a, n) # post) \<Longrightarrow> mem s2 x = mem s x" "fl_allocated s2 = fl_allocated s" "fl_total s2 = fl_total s"
proof -
  have okp: "\<forall>c\<in>set pre. blk_ok lo hi c" "\<forall>c\<in>set post. blk_ok lo hi c" "\<forall>c\<in>set ((a, n) # post). blk_ok lo hi c" "blk_ok lo hi (a, n)"
    using ok by auto
  note an = blk_okD [OF okp(4)]
  define s1 where "s1 = set_cell (set_cell s a n) (a + 8) (next_of post)"
  have out: "unat a \<notin> spans pre" "unat (a + 8) \<notin> spans pre" "unat a \<notin> spans post" "unat (a + 8) \<notin> spans post"
    using dis an(6,7) by auto
  obtain z where z: "hseg s (fl_head s) pre z" "hseg s z post 0" using l by (auto simp: hseg_append)
  have h1: "hseg s1 (fl_head s1) pre z" "hseg s1 (next_of post) post 0" unfolding s1_def
    using z hseg_next [OF z(2)] by (simp_all add: hseg_set_cell [OF okp(1) out(1)] hseg_set_cell [OF okp(1) out(2)]
        hseg_set_cell [OF okp(2) out(3)] hseg_set_cell [OF okp(2) out(4)])
  then have "hseg s1 a ((a, n) # post) 0" using an(1,2) by (simp add: s1_def mem_set_cell)
  moreover have "coalesced pre" "spans pre \<inter> spans ((a, n) # post) = {}"
    using coalesced_disjoint [OF c] c dis by (auto simp: coalesced_append)
  ultimately show "hseg s2 (fl_head s2) (pre @ (a, n) # post) 0"
    unfolding s2_def s1_def [symmetric] using hseg_relink [OF okp(1,3) _ _ h1(1)] by blast
  have pr: "unat (prev_of pre + 8) \<in> spans pre" if "prev_of pre \<noteq> 0" using prev_cell [OF okp(1) that] .
  show "unat x \<notin> spans (pre @ (a, n) # post) \<Longrightarrow> mem s2 x = mem s x"
    using pr an(6,7) by (auto simp: s2_def mem_relink mem_set_cell)
  show "fl_allocated s2 = fl_allocated s" "fl_total s2 = fl_total s" by (simp_all add: s2_def)
qed

lemma free_joined:
  assumes inv: "heap_inv s lo hi fs live" and p: "live p = Some (a, n)"
  obtains pre post s2 s3 s4 fs' where "free_walk s a 0 (fl_head s) = Some (prev_of pre, next_of post)"
    "s2 = relink (set_cell (set_cell s a n) (a + 8) (next_of post)) (prev_of pre) a"
    "join_next s2 a n (next_of post) = Some s3" "join_prev s3 (prev_of pre) a = Some s4"
    "hseg s4 (fl_head s4) fs' 0" "\<forall>c\<in>set fs'. blk_ok lo hi c" "coalesced fs'" "spans fs' = spans fs \<union> rng (a, n)"
    "\<forall>x. unat x \<notin> spans fs' \<longrightarrow> mem s4 x = mem s x" "fl_allocated s4 = fl_allocated s" "fl_total s4 = fl_total s"
proof -
  note i = heap_invD [OF inv] and concl = that
  obtain pre post where sp: "fs = pre @ post" "\<forall>c\<in>set pre. fst c < a" "post \<noteq> [] \<Longrightarrow> \<not> fst (hd post) < a"
    "\<forall>c\<in>set pre. unat (fst c) + unat (snd c) \<le> unat a" "\<forall>c\<in>set post. unat a + unat n \<le> unat (fst c)"
    using free_split [OF inv p] by metis
  have ok: "blk_ok lo hi (a, n)" "rng (a, n) \<inter> spans (pre @ post) = {}" using i(6,7) [OF p] sp(1) by (simp_all add: live_ok_def)
  then have okp: "\<forall>c\<in>set (pre @ (a, n) # post). blk_ok lo hi c" using i(3) sp(1) by auto
  note an = blk_okD [OF ok(1)]
  have dis: "spans pre \<inter> spans post = {}" "coalesced pre" "coalesced post" "spans pre \<inter> rng (a, n) = {}"
    using coalesced_disjoint [of pre post] i(2) sp(1) ok(2) by (auto simp: coalesced_append)
  have walk: "free_walk s a 0 (fl_head s) = Some (prev_of pre, next_of post)"
    using free_walk_eq [OF i(1) [unfolded sp(1)] sp(2,3)] by (simp add: prev_of_def)
  define s2 where "s2 = relink (set_cell (set_cell s a n) (a + 8) (next_of post)) (prev_of pre) a"
  note lk = free_linked [OF i(1) [unfolded sp(1)] okp i(2) [unfolded sp(1)] ok(2), folded s2_def]
  obtain s3 n' post' where s3: "join_next s2 a n (next_of post) = Some s3" "hseg s3 (fl_head s2) (pre @ (a, n') # post') 0"
    "\<forall>c\<in>set (pre @ (a, n') # post'). blk_ok lo hi c" "coalesced ((a, n') # post')" "spans ((a, n') # post') = spans ((a, n) # post)"
    "\<forall>x. x \<noteq> a \<longrightarrow> x \<noteq> a + 8 \<longrightarrow> mem s3 x = mem s2 x" "fl_head s3 = fl_head s2" "fl_allocated s3 = fl_allocated s2" "fl_total s3 = fl_total s2"
    using join_next_post [OF lk(1) okp dis(3) sp(5) dis(4,1)] by blast
  obtain s4 fs' where s4: "join_prev s3 (prev_of pre) a = Some s4" "hseg s4 (fl_head s2) fs' 0" "\<forall>c\<in>set fs'. blk_ok lo hi c"
    "coalesced fs'" "spans fs' = spans (pre @ (a, n') # post')" "\<forall>x. unat x \<notin> spans pre \<longrightarrow> mem s4 x = mem s3 x"
    "fl_head s4 = fl_head s3" "fl_allocated s4 = fl_allocated s3" "fl_total s4 = fl_total s3"
    using join_prev_post [OF s3(2,3,4) dis(2) sp(4)] by blast
  have sps: "spans fs' = spans (pre @ (a, n) # post)" using s4(5) s3(5) by auto
  have keep: "mem s4 x = mem s x" if "unat x \<notin> spans fs'" for x
  proof -
    have "x \<noteq> a" "x \<noteq> a + 8" "unat x \<notin> spans pre" using that an(6,7) sps by auto
    then have "mem s4 x = mem s2 x" using s4(6) s3(6) by simp
    then show ?thesis using lk(2) that sps by metis
  qed
  show thesis
    by (rule concl [OF walk s2_def s3(1) s4(1) _ s4(3,4)]) (use s4(2,7,8,9) s3(7,8,9) lk(3,4) sps sp(1) keep in auto)
qed

lemma heap_free_post:
  assumes inv: "heap_inv s lo hi fs live" and p: "live p = Some b"
  shows "\<exists>s' fs'. heap_free s p = Some s' \<and> heap_inv s' lo hi fs' (live(p := None)) \<and> spans fs' = spans fs \<union> rng b \<and>
    (\<forall>x. unat x \<notin> spans fs' \<longrightarrow> mem s' x = mem s x) \<and> unat (fl_allocated s') + unat (snd b) = unat (fl_allocated s) \<and> fl_total s' = fl_total s"
proof -
  note i = heap_invD [OF inv]
  obtain a n where b: "b = (a, n)" by force
  have lv: "live_ok s lo hi p (a, n)" "rng (a, n) \<inter> spans fs = {}" using i(6,7) [OF p] b by simp_all
  then have ok: "blk_ok lo hi (a, n)" "mem s (p - 8) = a" "mem s a = n" by (simp_all add: live_ok_def)
  have p8: "usub p 8 = Some (p - 8)" using live_cells(5) [OF lv(1)] by (simp add: usub_def)
  obtain pre post s2 s3 s4 fs' where j: "free_walk s a 0 (fl_head s) = Some (prev_of pre, next_of post)"
    "s2 = relink (set_cell (set_cell s a n) (a + 8) (next_of post)) (prev_of pre) a"
    "join_next s2 a n (next_of post) = Some s3" "join_prev s3 (prev_of pre) a = Some s4"
    "hseg s4 (fl_head s4) fs' 0" "\<forall>c\<in>set fs'. blk_ok lo hi c" "coalesced fs'" "spans fs' = spans fs \<union> rng (a, n)"
    "\<forall>x. unat x \<notin> spans fs' \<longrightarrow> mem s4 x = mem s x" "fl_allocated s4 = fl_allocated s" "fl_total s4 = fl_total s"
    using free_joined [OF inv p [unfolded b]] by blast
  have "rng b \<subseteq> {lo..<hi} - spans fs" using lv(2) ok(1) b by (auto simp: rng_def blk_ok_def)
  then have "card (rng b) + card (spans fs) \<le> hi - lo"
    using i(9) card_mono [of "{lo..<hi}" "rng b \<union> spans fs"] card_Un_disjoint [of "rng b" "spans fs"] lv(2) b by auto
  then have le: "unat n \<le> unat (fl_allocated s)" using i(10) b by simp
  let ?t = "s4\<lparr>fl_allocated := fl_allocated s - n\<rparr>"
  have cnt: "unat (fl_allocated ?t) + unat (snd b) = unat (fl_allocated s)" using le b by (simp add: unat_sub word_le_nat_alt)
  have free: "heap_free s p = Some ?t"
    using p8 ok(2,3) j(1,3,4,10) le unfolding j(2) by (simp add: heap_free_def Let_def usub_def word_le_nat_alt)
  have keep: "mem ?t x = mem s x" if "unat x \<notin> spans fs'" for x using j(9) that by simp
  have "hseg ?t (fl_head ?t) fs' 0" using j(5) by simp
  from heap_inv_free [OF inv p this j(7,6) _ keep cnt] show ?thesis using free j(8,11) b keep cnt by auto
qed

end
