(* ===== verification/Heap_System.thy ===== *)
theory Heap_System
  imports Heap_Ops
begin

text \<open>
  The kernel heap together with its clients, as a \<open>safe_system\<close>, and the properties of the heap.
\<close>

section \<open>Initialisation\<close>

lemma word_mod_16: "unat (x mod 16) = unat x mod 16" for x :: u64
  by (simp add: unat_mod)

lemma heap_init_inv:
  assumes h: "heap_init s0 start sz = Some s" and b: "0 < unat start" "unat start + unat sz < 2 ^ 64"
  shows "heap_inv s (unat start) (unat start + unat sz) [(start, sz)] Map.empty"
proof -
  have m: "unat start mod 16 = 0" "unat sz mod 16 = 0" "32 \<le> unat sz"
    and s: "s = (set_cell (set_cell s0 start sz) (start + 8) 0)\<lparr>fl_head := start, fl_allocated := 0, fl_total := sz\<rparr>"
    using h by (auto simp: heap_init_def kconsts word_le_nat_alt Let_def simp flip: word_mod_16 split: if_splits)
  have ok: "blk_ok (unat start) (unat start + unat sz) (start, sz)" using b m by (auto simp: blk_ok_def mod_eq_0_iff_dvd)
  then have "hseg s (fl_head s) [(start, sz)] 0" using blk_okD [OF ok] unfolding s by (simp add: mem_set_cell)
  moreover have "coalesced [(start, sz)]" using m(3) by (simp add: coalesced_def)
  moreover have "unat (fl_allocated s) + card (spans [(start, sz)]) = unat sz" by (simp add: s)
  ultimately show ?thesis using ok b by (simp add: heap_inv_def) (simp add: rng_def)
qed

section \<open>The heap and its clients\<close>

text \<open>
  A state is the heap together with the blocks handed out. The clients may ask for any layout whose
  alignment does not reach past the top of the address space, free what they hold, and write the
  bytes they were given.
\<close>

inductive heap_step :: "nat \<Rightarrow> heap \<times> (u64 \<rightharpoonup> blk) \<Rightarrow> heap \<times> (u64 \<rightharpoonup> blk) \<Rightarrow> bool" for hi where
  grant: "is_power_of_two (lay_align lay) \<Longrightarrow> hi + unat (eff_align lay) < 2 ^ 64 \<Longrightarrow> heap_alloc s lay = Some (p, s') \<Longrightarrow> p \<noteq> 0 \<Longrightarrow>
    heap_step hi (s, live) (s', live(p \<mapsto> (mem s' (p - 8), mem s' (mem s' (p - 8)))))"
| refuse: "is_power_of_two (lay_align lay) \<Longrightarrow> hi + unat (eff_align lay) < 2 ^ 64 \<Longrightarrow> heap_alloc s lay = Some (0, s') \<Longrightarrow>
    heap_step hi (s, live) (s', live)"
| give_back: "live p \<noteq> None \<Longrightarrow> heap_free s p = Some s' \<Longrightarrow> heap_step hi (s, live) (s', live(p := None))"
| put: "live p = Some (a, n) \<Longrightarrow> unat p \<le> unat x \<Longrightarrow> unat x < unat a + unat n \<Longrightarrow> heap_step hi (s, live) (set_cell s x v, live)"

definition heap_start :: "usize \<Rightarrow> usize \<Rightarrow> heap \<times> (u64 \<rightharpoonup> blk) \<Rightarrow> bool" where
  "heap_start start sz w \<longleftrightarrow> 0 < unat start \<and> unat start + unat sz < 2 ^ 64 \<and> (\<exists>s0. heap_init s0 start sz = Some (fst w)) \<and> snd w = Map.empty"

definition heap_good :: "usize \<Rightarrow> usize \<Rightarrow> heap \<times> (u64 \<rightharpoonup> blk) \<Rightarrow> bool" where
  "heap_good start sz w \<longleftrightarrow> 0 < unat sz \<and> unat start + unat sz < 2 ^ 64 \<and>
     (\<exists>fs. heap_inv (fst w) (unat start) (unat start + unat sz) fs (snd w))"

lemma tookD:
  assumes "took s lo hi fs live p n s' fs' b"
  shows "heap_inv s' lo hi fs' (live(p \<mapsto> b))" "b = (mem s' (p - 8), mem s' (mem s' (p - 8)))" "spans fs' = spans fs - rng b"
    "live p = None" "rng b \<subseteq> spans fs" "live_ok s' lo hi p b" "unat p + n \<le> unat (fst b) + unat (snd b)" "fl_total s' = fl_total s"
    "\<And>x. unat x \<notin> spans fs \<Longrightarrow> mem s' x = mem s x"
proof -
  show inv: "heap_inv s' lo hi fs' (live(p \<mapsto> b))" and "spans fs' = spans fs - rng b" "live p = None" "rng b \<subseteq> spans fs"
    "unat p + n \<le> unat (fst b) + unat (snd b)" "fl_total s' = fl_total s" "\<And>x. unat x \<notin> spans fs \<Longrightarrow> mem s' x = mem s x"
    using assms by (simp_all only: took_def simp_thms)
  show l: "live_ok s' lo hi p b" using heap_invD(6) [OF inv, of p b] by simp
  then show "b = (mem s' (p - 8), mem s' (mem s' (p - 8)))" by (cases b) (simp add: live_ok_def)
qed

text \<open>Whatever is written into a payload disturbs neither the lists nor the words the heap keeps in live blocks.\<close>

lemma heap_inv_payload:
  assumes inv: "heap_inv s lo hi fs live" and p: "live p = Some (a, n)"
    and m: "\<And>x. \<not> (unat p \<le> unat x \<and> unat x < unat a + unat n) \<Longrightarrow> m x = mem s x"
  shows "heap_inv (s\<lparr>mem := m\<rparr>) lo hi fs live"
proof -
  note i = heap_invD [OF inv]
  have lp: "live_ok s lo hi p (a, n)" using i(6) [OF p] .
  have out: "m x = mem s x" if "unat x \<notin> rng (a, n)" for x using m [of x] that lp by (auto simp: rng_def live_ok_def)
  have "m (fst b) = mem s (fst b) \<and> m (fst b + 8) = mem s (fst b + 8)" if b: "b \<in> set fs" for b
  proof -
    have c: "unat (fst b) \<in> rng b" "unat (fst b + 8) \<in> rng b" using i(3) [OF b] blk_okD [of lo hi "fst b" "snd b"] by (auto simp: rng_def)
    have "rng b \<subseteq> spans fs" using b by (auto simp: spans_def)
    then have "unat (fst b) \<notin> rng (a, n)" "unat (fst b + 8) \<notin> rng (a, n)" using i(7) [OF p] c by blast+
    then show ?thesis using out by blast
  qed
  then have list: "hseg (s\<lparr>mem := m\<rparr>) (fl_head s) fs 0" using i(1) by (subst hseg_cong) auto
  have "live_ok (s\<lparr>mem := m\<rparr>) lo hi q b" if q: "live q = Some b" for q b
  proof (cases "q = p")
    case True
    then have b: "b = (a, n)" using p q by simp
    have "\<not> unat p \<le> unat (p - 8)" "\<not> unat p \<le> unat a" using lp live_cells [OF lp] by (auto simp: live_ok_def)
    then show ?thesis using lp True b m [of "p - 8"] m [of a] by (simp add: live_ok_def)
  next
    case False
    then have d: "rng b \<inter> rng (a, n) = {}" using i(8) [OF q p] by blast
    show ?thesis by (rule live_ok_keep [OF i(6) [OF q] d]) (use out in simp)
  qed
  then show ?thesis using list i(2-5,7-10) unfolding heap_inv_def by simp
qed

lemma heap_inv_write:
  assumes "heap_inv s lo hi fs live" "live p = Some (a, n)" "unat p \<le> unat x" "unat x < unat a + unat n"
  shows "heap_inv (set_cell s x v) lo hi fs live"
  unfolding set_cell_def by (rule heap_inv_payload [OF assms(1,2)]) (use assms(3,4) in auto)

lemma heap_step_good:
  assumes good: "heap_good start sz w" and st: "heap_step (unat start + unat sz) w w'"
  shows "heap_good start sz w'"
proof -
  let ?lo = "unat start" and ?hi = "unat start + unat sz"
  obtain fs where i: "heap_inv (fst w) ?lo ?hi fs (snd w)" using good by (auto simp: heap_good_def)
  from st have "\<exists>fs'. heap_inv (fst w') ?lo ?hi fs' (snd w')"
  proof (cases rule: heap_step.cases)
    case (grant lay s p s' live)
    note post = heap_alloc_post [OF i [unfolded grant(1) fst_conv snd_conv] grant(3,4)]
    then obtain fs' b where "took s ?lo ?hi fs live p (unat (lay_size lay)) s' fs' b" using grant(5,6) by (auto split: if_splits)
    then show ?thesis using tookD(1,2) grant(2) by (metis fst_conv snd_conv)
  next
    case (refuse lay s s' live)
    note post = heap_alloc_post [OF i [unfolded refuse(1) fst_conv snd_conv] refuse(3,4)]
    then show ?thesis using refuse(1,2,5) i by (auto split: if_splits)
  next
    case (give_back live p s s')
    then obtain b where b: "live p = Some b" by auto
    show ?thesis using heap_free_post [OF i [unfolded give_back(1) fst_conv snd_conv] b] give_back by auto
  next
    case (put live p a n x s v)
    show ?thesis using heap_inv_write [OF i [unfolded put(1) fst_conv snd_conv] put(3,4,5)] put(2) by auto
  qed
  then show ?thesis using good by (auto simp: heap_good_def)
qed

lemma heap_start_good:
  assumes "heap_start start sz w"
  shows "heap_good start sz w"
proof -
  obtain s0 where h: "heap_init s0 start sz = Some (fst w)" "0 < unat start" "unat start + unat sz < 2 ^ 64" "snd w = Map.empty"
    using assms by (auto simp: heap_start_def)
  from heap_init_inv [OF h(1-3)] have "heap_inv (fst w) (unat start) (unat start + unat sz) [(start, sz)] (snd w)" using h(4) by simp
  moreover from heap_invD(3) [OF this] have "0 < unat sz" by (simp add: blk_ok_def)
  ultimately show ?thesis using h(3) by (auto simp: heap_good_def)
qed

interpretation heap_sys: safe_system "heap_start start sz" "heap_step (unat start + unat sz)" "heap_good start sz" for start sz
  by unfold_locales (fact heap_start_good heap_step_good)+

section \<open>Properties\<close>

text \<open>C18: For a layout with a power-of-two alignment that does not reach past the top of the address space,
  \<^verbatim>\<open>heap_alloc\<close> always returns. If a free block is large enough it returns a non-null payload with the
  requested alignment, whose bytes lie in a block disjoint from every live block and from what stays
  free; otherwise it returns null and changes nothing. The words of the live blocks are untouched and
  the counter grows by the size of the block.\<close>

theorem heap_alloc_correct:
  assumes inv: "heap_inv s lo hi fs live" and al: "is_power_of_two (lay_align lay)" "hi + unat (eff_align lay) < 2 ^ 64"
  shows "if \<exists>b\<in>set fs. fits_blk (unat (eff_align lay)) (unat (lay_size lay)) b
    then \<exists>p s' fs' b. heap_alloc s lay = Some (p, s') \<and> heap_inv s' lo hi fs' (live(p \<mapsto> b)) \<and> p \<noteq> 0 \<and>
      unat (lay_align lay) dvd unat p \<and> live p = None \<and> {unat p..<unat p + unat (lay_size lay)} \<subseteq> rng b \<and>
      (\<forall>q c. live q = Some c \<longrightarrow> rng b \<inter> rng c = {}) \<and> spans fs' = spans fs - rng b \<and>
      (\<forall>x. unat x \<notin> spans fs \<longrightarrow> mem s' x = mem s x) \<and> unat (heap_allocated s') = unat (heap_allocated s) + unat (snd b)
    else heap_alloc s lay = Some (0, s)"
proof (cases "\<exists>b\<in>set fs. fits_blk (unat (eff_align lay)) (unat (lay_size lay)) b")
  case True
  then obtain p s' fs' b where t: "heap_alloc s lay = Some (p, s')" "took s lo hi fs live p (unat (lay_size lay)) s' fs' b"
    "p \<noteq> 0" "unat (lay_align lay) dvd unat p"
    using heap_alloc_post [OF inv al] by auto
  note k = tookD [OF t(2)]
  have "{unat p..<unat p + unat (lay_size lay)} \<subseteq> rng b" using k(6,7) by (auto simp: rng_def live_ok_def)
  moreover have "rng b \<inter> rng c = {}" if "live q = Some c" for q c using heap_invD(7) [OF inv that] k(5) by blast
  moreover have "card (spans fs') + unat (snd b) = card (spans fs)"
    using k(3,5) card_Diff_subset [of "rng b" "spans fs"] card_mono [of "spans fs" "rng b"] by simp
  then have "unat (heap_allocated s') = unat (heap_allocated s) + unat (snd b)"
    using heap_invD(10) [OF inv] heap_invD(10) [OF k(1)] by (simp add: heap_allocated_def)
  ultimately have "heap_alloc s lay = Some (p, s') \<and> heap_inv s' lo hi fs' (live(p \<mapsto> b)) \<and> p \<noteq> 0 \<and>
      unat (lay_align lay) dvd unat p \<and> live p = None \<and> {unat p..<unat p + unat (lay_size lay)} \<subseteq> rng b \<and>
      (\<forall>q c. live q = Some c \<longrightarrow> rng b \<inter> rng c = {}) \<and> spans fs' = spans fs - rng b \<and>
      (\<forall>x. unat x \<notin> spans fs \<longrightarrow> mem s' x = mem s x) \<and> unat (heap_allocated s') = unat (heap_allocated s) + unat (snd b)"
    using t k by blast
  then show ?thesis unfolding if_P [OF True] by blast
next
  case False
  show ?thesis using heap_alloc_post [OF inv al] unfolding if_not_P [OF False] .
qed

definition example_heap :: heap where
  "example_heap = \<lparr>phys_map_base = 0, mem = (\<lambda>x. if x = 4096 then 4096 else 0), fl_head = 4096, fl_allocated = 0, fl_total = 4096\<rparr>"

definition example_layout :: layout where
  "example_layout = \<lparr>lay_size = 100, lay_align = 64\<rparr>"

lemma example_heap_init: "heap_init \<lparr>phys_map_base = 0, mem = (\<lambda>x. 0), fl_head = 0, fl_allocated = 0, fl_total = 0\<rparr> 4096 4096 = Some example_heap"
  by (auto simp: heap_init_def example_heap_def kconsts set_cell_def fun_eq_iff)

lemma example_heap_inv: "heap_inv example_heap 4096 8192 [(4096, 4096)] Map.empty"
  using heap_init_inv [OF example_heap_init] by simp

lemma example_layout_ok: "is_power_of_two (lay_align example_layout)" "eff_align example_layout = 64"
  by (auto simp: example_layout_def eff_align_def is_power_of_two_iff HEADER_def max_def intro!: exI [of _ 6])

lemma example_sizes: "unat (lay_size example_layout) = 100" "unat (eff_align example_layout) = 64" "unat (lay_align example_layout) = 64"
  using example_layout_ok by (simp_all add: example_layout_def)

lemma example_fits: "\<exists>b\<in>set [(4096, 4096)]. fits_blk 64 100 b"
  by (simp add: fits_blk_def pay_def)

lemma example_room: "8192 + unat (eff_align example_layout) < 2 ^ 64"
  by (simp add: example_layout_ok)

theorem heap_alloc_correct_witness:
  "\<exists>p s' fs' b. heap_alloc example_heap example_layout = Some (p, s') \<and> p \<noteq> 0 \<and> 64 dvd unat p \<and>
    heap_inv s' 4096 8192 fs' [p \<mapsto> b]"
  using heap_alloc_correct [OF example_heap_inv example_layout_ok(1) example_room]
  unfolding example_sizes if_P [OF example_fits] by blast

text \<open>C7: \<^verbatim>\<open>heap_free\<close> of a live payload always returns. It gives exactly the block's bytes back to the
  free list, which stays sorted and fully coalesced, writes nothing outside free memory, and takes
  the block's size off the counter without underflow.\<close>

theorem heap_free_correct:
  assumes "heap_inv s lo hi fs live" "live p = Some b"
  shows "\<exists>s' fs'. heap_free s p = Some s' \<and> heap_inv s' lo hi fs' (live(p := None)) \<and> spans fs' = spans fs \<union> rng b \<and>
    (\<forall>x. unat x \<notin> spans fs' \<longrightarrow> mem s' x = mem s x) \<and> unat (heap_allocated s') + unat (snd b) = unat (heap_allocated s) \<and>
    heap_total s' = heap_total s"
  using heap_free_post [OF assms] by (simp add: heap_allocated_def heap_total_def)

lemma example_alloc:
  obtains p s' fs' b where "heap_alloc example_heap example_layout = Some (p, s')" "p \<noteq> 0" "heap_inv s' 4096 8192 fs' [p \<mapsto> b]"
  using heap_alloc_post [OF example_heap_inv example_layout_ok(1) example_room] tookD(1)
  unfolding example_sizes if_P [OF example_fits] by blast

theorem heap_free_correct_witness:
  "\<exists>p s s' fs' b. heap_inv s 4096 8192 fs' [p \<mapsto> b] \<and> heap_free s p = Some s'"
proof -
  obtain p s' fs' b where a: "heap_inv s' 4096 8192 fs' [p \<mapsto> b]" by (rule example_alloc)
  from heap_free_correct [OF a, of p b] have "\<exists>s''. heap_free s' p = Some s''" by auto
  with a show ?thesis by blast
qed

text \<open>C35: An allocation followed by the free of its payload restores the free list, block by block, and
  the counter, whatever the client made of the payload's words in between.\<close>

theorem heap_alloc_free:
  assumes inv: "heap_inv s lo hi fs live" and al: "is_power_of_two (lay_align lay)" "hi + unat (eff_align lay) < 2 ^ 64"
    and a: "heap_alloc s lay = Some (p, s')" "p \<noteq> 0"
    and m: "\<And>x. \<not> (unat p \<le> unat x \<and> unat x < unat p + unat (lay_size lay)) \<Longrightarrow> m x = mem s' x"
  shows "\<exists>s''. heap_free (s'\<lparr>mem := m\<rparr>) p = Some s'' \<and> heap_inv s'' lo hi fs live \<and> heap_allocated s'' = heap_allocated s"
proof -
  obtain fs' b where t: "took s lo hi fs live p (unat (lay_size lay)) s' fs' b"
    using heap_alloc_post [OF inv al] a by (auto split: if_splits)
  note k = tookD [OF t]
  have p: "(live(p \<mapsto> b)) p = Some b" by simp
  have i: "heap_inv (s'\<lparr>mem := m\<rparr>) lo hi fs' (live(p \<mapsto> b))"
    by (rule heap_inv_payload [OF k(1), of p "fst b" "snd b"]) (use m k(7) in auto)
  obtain s'' gs where g: "heap_free (s'\<lparr>mem := m\<rparr>) p = Some s''" "heap_inv s'' lo hi gs ((live(p \<mapsto> b))(p := None))" "spans gs = spans fs' \<union> rng b"
    using heap_free_post [OF i p] by blast
  have "spans gs = spans fs" using g(3) k(3,5) by auto
  then have gs: "gs = fs" by (rule coalesced_unique [OF heap_invD(2) [OF g(2)] heap_invD(2) [OF inv]])
  have live: "(live(p \<mapsto> b))(p := None) = live" using k(4) by auto
  have "heap_allocated s'' = heap_allocated s"
    using heap_invD(10) [OF inv] heap_invD(10) [OF g(2)] gs by (simp add: heap_allocated_def word_unat_eq_iff)
  then show ?thesis using g(1,2) gs live by metis
qed

theorem heap_alloc_free_witness:
  "\<exists>p s' s''. heap_alloc example_heap example_layout = Some (p, s') \<and>
    heap_free (s'\<lparr>mem := \<lambda>x. if unat p \<le> unat x \<and> unat x < unat p + 100 then 7 else mem s' x\<rparr>) p = Some s'' \<and>
    heap_inv s'' 4096 8192 [(4096, 4096)] Map.empty"
proof -
  obtain p s' where a: "heap_alloc example_heap example_layout = Some (p, s')" "p \<noteq> 0" by (rule example_alloc)
  let ?m = "\<lambda>x. if unat p \<le> unat x \<and> unat x < unat p + 100 then 7 else mem s' x"
  have "\<exists>s''. heap_free (s'\<lparr>mem := ?m\<rparr>) p = Some s'' \<and> heap_inv s'' 4096 8192 [(4096, 4096)] Map.empty \<and> heap_allocated s'' = heap_allocated example_heap"
    by (rule heap_alloc_free [OF example_heap_inv example_layout_ok(1) example_room a]) (auto simp: example_layout_def)
  with a(1) show ?thesis by blast
qed

text \<open>C8: In every state reached from \<^verbatim>\<open>heap_init\<close> by allocations, frees of live payloads and writes into
  live payloads, distinct live payloads lie in disjoint blocks of the heap and the counter is the number
  of bytes not free; once everything has been freed the heap is again one free block of its full
  size and the counter is zero.\<close>

theorem heap_reachable_sound:
  assumes "heap_start start sz w" "(heap_step (unat start + unat sz))\<^sup>*\<^sup>* w (s, live)"
  shows "(\<exists>fs. heap_inv s (unat start) (unat start + unat sz) fs live) \<and>
    (live = Map.empty \<longrightarrow> heap_allocated s = 0 \<and> fl_head s = start \<and> mem s start = sz \<and> mem s (start + 8) = 0)"
proof -
  have "heap_good start sz (s, live)" by (rule heap_sys.reachable_inv [OF assms])
  then obtain fs where i: "heap_inv s (unat start) (unat start + unat sz) fs live" and sz: "0 < unat sz" by (auto simp: heap_good_def)
  have "heap_allocated s = 0 \<and> fl_head s = start \<and> mem s start = sz \<and> mem s (start + 8) = 0" if e: "live = Map.empty"
  proof -
    have sp: "spans fs = rng (start, sz)" using heap_invD(9) [OF i] e by (simp add: rng_def)
    have "coalesced [(start, sz)]" using sz by (simp add: coalesced_def)
    then have "fs = [(start, sz)]" using coalesced_unique [OF heap_invD(2) [OF i]] sp by simp
    then show ?thesis using heap_invD(1,10) [OF i] by (auto simp: heap_allocated_def unat_eq_0)
  qed
  then show ?thesis using i by blast
qed

theorem heap_reachable_sound_witness:
  "heap_start 4096 4096 (example_heap, Map.empty) \<and> heap_allocated example_heap = 0 \<and> (\<exists>fs. heap_inv example_heap 4096 8192 fs Map.empty)"
proof -
  have "heap_start 4096 4096 (example_heap, Map.empty)" using example_heap_init by (auto simp: heap_start_def)
  from heap_reachable_sound [OF this rtranclp.rtrancl_refl] this show ?thesis by simp
qed

end
