(* ===== verification/Serial.thy ===== *)
theory Serial
  imports Ports
begin

text \<open>
  \<^verbatim>\<open>boot/src/serial.rs\<close>: the polled 16550 driver on COM1. The waits for the transmitter have no
  bound, so they are partial functions; they return when the transmitter keeps draining.
\<close>

section \<open>Port and registers\<close>

definition COM1 :: u16 where [kconsts]: "COM1 = 0x3F8"
definition UART_RBR :: u16 where [kconsts]: "UART_RBR = 0"
definition UART_THR :: u16 where [kconsts]: "UART_THR = 0"
definition UART_IER :: u16 where [kconsts]: "UART_IER = 1"
definition UART_FCR :: u16 where [kconsts]: "UART_FCR = 2"
definition UART_LCR :: u16 where [kconsts]: "UART_LCR = 3"
definition UART_LSR :: u16 where [kconsts]: "UART_LSR = 5"

definition serial_init :: "bus \<Rightarrow> bus" where
  "serial_init h =
    (let h = outb h (COM1 + UART_IER) 0x00;
         h = outb h (COM1 + UART_LCR) 0x80;
         h = outb h (COM1 + UART_THR) 0x01;
         h = outb h (COM1 + UART_IER) 0x00;
         h = outb h (COM1 + UART_LCR) 0x03
     in outb h (COM1 + UART_FCR) 0xC7)"

text \<open>\<^verbatim>\<open>while inb(COM1 + UART_LSR) & 0x20 == 0 {}\<close>.\<close>

partial_function (option) wait_thr :: "device \<Rightarrow> bus \<Rightarrow> bus option" where
  "wait_thr dev h = (case inb dev h (COM1 + UART_LSR) of (v, h) \<Rightarrow> if v AND 0x20 = 0 then wait_thr dev h else Some h)"

definition write_byte :: "device \<Rightarrow> bus \<Rightarrow> u8 \<Rightarrow> bus option" where
  "write_byte dev h byte = do {
     h \<leftarrow> wait_thr dev h;
     Some (outb h (COM1 + UART_THR) byte)
   }"

definition try_read :: "device \<Rightarrow> bus \<Rightarrow> u8 option \<times> bus" where
  "try_read dev h =
    (case inb dev h (COM1 + UART_LSR) of (v, h) \<Rightarrow>
       if v AND 0x01 = 0 then (None, h)
       else case inb dev h (COM1 + UART_RBR) of (b, h) \<Rightarrow> (Some b, h))"

text \<open>10 is \<^verbatim>\<open>\n\<close> and 13 is \<^verbatim>\<open>\r\<close>.\<close>

fun raw_write :: "device \<Rightarrow> bus \<Rightarrow> u8 list \<Rightarrow> bus option" where
  "raw_write dev h [] = Some h"
| "raw_write dev h (b # bs) = do {
     h \<leftarrow> wait_thr dev h;
     raw_write dev (outb h (COM1 + UART_THR) (if b = 10 then 13 else b)) bs
   }"

fun serial_write_str :: "device \<Rightarrow> bus \<Rightarrow> u8 list \<Rightarrow> bus option" where
  "serial_write_str dev h [] = Some h"
| "serial_write_str dev h (b # bs) = do {
     h \<leftarrow> (if b = 10 then write_byte dev h 13 else Some h);
     h \<leftarrow> write_byte dev h b;
     serial_write_str dev h bs
   }"

section \<open>What reaches the line\<close>

text \<open>The documented transmitter: however long it has been polled, it becomes ready again.\<close>

fun polls :: "device \<Rightarrow> bus \<Rightarrow> nat \<Rightarrow> bus" where
  "polls dev h 0 = h"
| "polls dev h (Suc n) = polls dev (snd (inb dev h (COM1 + UART_LSR))) n"

definition thr_ready :: "device \<Rightarrow> bus \<Rightarrow> bool" where
  "thr_ready dev h \<longleftrightarrow> dev h (COM1 + UART_LSR) AND 0x20 \<noteq> 0"

definition uart_drains :: "device \<Rightarrow> bool" where
  "uart_drains dev \<longleftrightarrow> (\<forall>h. \<exists>n. thr_ready dev (polls dev h n))"

definition sent :: "bus \<Rightarrow> u8 list" where
  "sent h = outs (COM1 + UART_THR) h"

fun crlf :: "u8 list \<Rightarrow> u8 list" where
  "crlf [] = []"
| "crlf (b # bs) = (if b = 10 then [13, 10] else [b]) @ crlf bs"

lemma wait_thr_returns:
  "thr_ready dev (polls dev h n) \<Longrightarrow> \<exists>h'. wait_thr dev h = Some h' \<and> sent h' = sent h"
proof (induction n arbitrary: h)
  case 0
  then show ?case
    by (subst wait_thr.simps) (simp add: inb_def Let_def thr_ready_def sent_def)
next
  case (Suc n)
  obtain v g where i: "inb dev h (COM1 + UART_LSR) = (v, g)" by force
  then obtain h' where "wait_thr dev g = Some h'" "sent h' = sent g" using Suc by auto
  moreover have "sent g = sent h" using i outs_inb [of _ dev h "COM1 + UART_LSR"] by (simp add: sent_def)
  ultimately show ?case using i by (subst wait_thr.simps) auto
qed

lemma write_byte_sends:
  assumes "uart_drains dev"
  shows "\<exists>h'. write_byte dev h b = Some h' \<and> sent h' = sent h @ [b]"
  using assms wait_thr_returns [of dev h] by (fastforce simp: uart_drains_def write_byte_def sent_def)

lemma write_str_sends:
  assumes "uart_drains dev"
  shows "\<exists>h'. serial_write_str dev h s = Some h' \<and> sent h' = sent h @ crlf s"
proof (induction s arbitrary: h)
  case (Cons b bs)
  obtain h1 where 1: "(if b = 10 then write_byte dev h 13 else Some h) = Some h1" "sent h1 = sent h @ (if b = 10 then [13] else [])"
    using write_byte_sends [OF assms, of h 13] by (cases "b = 10") auto
  obtain h2 where 2: "write_byte dev h1 b = Some h2" "sent h2 = sent h1 @ [b]" using write_byte_sends [OF assms] by blast
  from Cons.IH [of h2] 1 2 show ?case by auto
qed simp

section \<open>Properties\<close>

text \<open>C36: On a transmitter that keeps draining, writing a string returns, and exactly its bytes reach the
  transmit register, in order, with a carriage return in front of every newline.\<close>

theorem serial_write_str_sends:
  assumes "uart_drains dev"
  shows "\<exists>h'. serial_write_str dev h s = Some h' \<and> sent h' = sent h @ crlf s"
  by (rule write_str_sends [OF assms])

definition ready_device :: device where
  "ready_device h p = 0x20"

lemma ready_drains: "uart_drains ready_device"
  by (auto simp: uart_drains_def thr_ready_def ready_device_def)

theorem serial_write_str_sends_witness:
  "\<exists>h'. serial_write_str ready_device [] [111, 107, 10] = Some h' \<and> sent h' = [111, 107, 13, 10]"
  using serial_write_str_sends [OF ready_drains, of "[]" "[111, 107, 10]"] by (simp add: sent_def)

text \<open>The lock-free path for panics drops the line feed: a newline becomes a lone carriage return.\<close>

lemma raw_write_sends:
  assumes "uart_drains dev"
  shows "\<exists>h'. raw_write dev h s = Some h' \<and> sent h' = sent h @ map (\<lambda>b. if b = 10 then 13 else b) s"
proof (induction s arbitrary: h)
  case (Cons b bs)
  obtain g where g: "wait_thr dev h = Some g" "sent g = sent h"
    using assms wait_thr_returns [of dev h] by (auto simp: uart_drains_def)
  let ?b = "if b = 10 then 13 else b"
  from Cons.IH [of "outb g (COM1 + UART_THR) ?b"] g show ?case by (auto simp: sent_def)
qed simp

end
