(* ===== verification/Harness.thy ===== *)
theory Harness
  imports Preemption Vmm_Space Heap_System Serial
begin

text \<open>
  Parts of the boot harness \<^verbatim>\<open>boot/src/main.rs\<close>: the freestanding memory routines, the panic buffer, printing over
  the locked serial port, and \<^verbatim>\<open>spawn_process\<close>, which ties the frame pool, the kernel page table and the
  scheduler together. Strings are their UTF-8 bytes. The console lock belongs to the one CPU: taking
  it while it is taken spins for ever, which is \<open>None\<close>.
\<close>

section \<open>Memory routines\<close>

type_synonym byte_mem = "usize \<Rightarrow> u8"

fun memcpy_loop :: "byte_mem \<Rightarrow> usize \<Rightarrow> usize \<Rightarrow> nat \<Rightarrow> nat \<Rightarrow> byte_mem" where
  "memcpy_loop m dst src i 0 = m"
| "memcpy_loop m dst src i (Suc n) = memcpy_loop (m(dst + word_of_nat i := m (src + word_of_nat i))) dst src (Suc i) n"

definition memcpy :: "byte_mem \<Rightarrow> usize \<Rightarrow> usize \<Rightarrow> usize \<Rightarrow> usize \<times> byte_mem" where
  "memcpy m dst src n = (dst, memcpy_loop m dst src 0 (unat n))"

fun memset_loop :: "byte_mem \<Rightarrow> usize \<Rightarrow> u8 \<Rightarrow> nat \<Rightarrow> nat \<Rightarrow> byte_mem" where
  "memset_loop m s c i 0 = m"
| "memset_loop m s c i (Suc n) = memset_loop (m(s + word_of_nat i := c)) s c (Suc i) n"

definition memset :: "byte_mem \<Rightarrow> usize \<Rightarrow> 32 word \<Rightarrow> usize \<Rightarrow> usize \<times> byte_mem" where
  "memset m s c n = (s, memset_loop m s (ucast c) 0 (unat n))"

fun memcmp_loop :: "byte_mem \<Rightarrow> usize \<Rightarrow> usize \<Rightarrow> nat \<Rightarrow> nat \<Rightarrow> int" where
  "memcmp_loop m s1 s2 i 0 = 0"
| "memcmp_loop m s1 s2 i (Suc n) =
    (let a = m (s1 + word_of_nat i); b = m (s2 + word_of_nat i)
     in if a \<noteq> b then uint a - uint b else memcmp_loop m s1 s2 (Suc i) n)"

definition memcmp :: "byte_mem \<Rightarrow> usize \<Rightarrow> usize \<Rightarrow> usize \<Rightarrow> int" where
  "memcmp m s1 s2 n = memcmp_loop m s1 s2 0 (unat n)"

text \<open>\<^verbatim>\<open>RawSink\<close>: its buffer and how much of it is used.\<close>

record raw_sink =
  sink_buf :: "u8 list"
  sink_len :: nat

fun raw_sink_write :: "raw_sink \<Rightarrow> u8 list \<Rightarrow> raw_sink" where
  "raw_sink_write w [] = w"
| "raw_sink_write w (b # bs) =
    raw_sink_write (if sink_len w < length (sink_buf w) then w\<lparr>sink_buf := (sink_buf w)[sink_len w := b], sink_len := sink_len w + 1\<rparr> else w) bs"

section \<open>Printing\<close>

record harness = kernel +
  pool :: pmm
  kheap :: heap
  kernel_pt :: "page_table option"
  umem :: byte_mem
  writer_locked :: bool
  serial_inited :: bool

definition with_serial :: "harness \<Rightarrow> (bus \<Rightarrow> ('r \<times> bus) option) \<Rightarrow> ('r \<times> harness) option" where
  "with_serial s f = do {
     let (saved, s) = irq_save s;
     rassert (\<not> writer_locked s);
     let s = s\<lparr>writer_locked := True\<rparr>;
     let s = (if serial_inited s then s else s\<lparr>serial_inited := True, io_bus := serial_init (io_bus s)\<rparr>);
     (r, b) \<leftarrow> f (io_bus s);
     let s = s\<lparr>io_bus := b, writer_locked := False\<rparr>;
     Some (r, irq_restore s saved)
   }"

definition kprint :: "device \<Rightarrow> harness \<Rightarrow> u8 list \<Rightarrow> harness option" where
  "kprint dev s str = map_option snd (with_serial s (\<lambda>b. map_option (Pair ()) (serial_write_str dev b str)))"

definition kprint_line :: "device \<Rightarrow> harness \<Rightarrow> u8 list \<Rightarrow> harness option" where
  "kprint_line dev s str = map_option snd (with_serial s (\<lambda>b. map_option (Pair ()) (serial_write_str dev b (str @ [10]))))"

definition user_putc :: "device \<Rightarrow> harness \<Rightarrow> u8 \<Rightarrow> harness option" where
  "user_putc dev s c = map_option snd (with_serial s (\<lambda>b. map_option (Pair ()) (write_byte dev b c)))"

section \<open>Starting a process\<close>

definition user_flags :: flags where
  "user_flags = with_flags (with_flags F_PRESENT F_WRITABLE) F_USER"

text \<open>\<open>umem\<close> holds the bytes of the frames given to user pages, by physical address (what the pool and the page
  tables keep in their own frames is in \<open>pool\<close>). \<^verbatim>\<open>copy_nonoverlapping\<close> writes at most one page through the virtual
  address just mapped: the MMU walks the tables, an address that does not translate faults, and the bytes land at
  the physical address the walk gives.\<close>

definition copy_in :: "byte_mem \<Rightarrow> usize \<Rightarrow> u8 list \<Rightarrow> byte_mem" where
  "copy_in u pa bs = (\<lambda>a. if unat (a - pa) < length bs then bs ! unat (a - pa) else u a)"

text \<open>The loop over the code frames. The flag says whether it ran to its end; otherwise \<^verbatim>\<open>alloc_frame()?\<close> has
  left the function with \<^verbatim>\<open>None\<close>. A failing \<^verbatim>\<open>map\<close> panics.\<close>

fun map_code :: "u8 list \<Rightarrow> page_table \<Rightarrow> usize \<Rightarrow> usize list \<Rightarrow> harness \<Rightarrow> (bool \<times> harness) option" where
  "map_code prog pt code_va [] s = Some (True, s)"
| "map_code prog pt code_va (i # is) s = do {
     (r, p) \<leftarrow> alloc_frame (pool s);
     case r of
       None \<Rightarrow> Some (False, s\<lparr>pool := p\<rparr>)
     | Some f \<Rightarrow> do {
         d \<leftarrow> umul i FRAME_SIZE;
         va \<leftarrow> uadd code_va d;
         (r, p) \<leftarrow> pt_map p pt va (frame_phys f) user_flags;
         rassert (r = Inr ());
         rest \<leftarrow> usub (word_of_nat (length prog)) d;
         let copy_len = min FRAME_SIZE rest;
         w \<leftarrow> translate p pt va;
         pa \<leftarrow> w;
         map_code prog pt code_va is (s\<lparr>pool := p, umem := copy_in (umem s) pa (take (unat copy_len) (drop (unat d) prog))\<rparr>)
       }
   }"

definition map_program :: "u8 list \<Rightarrow> page_table \<Rightarrow> usize \<Rightarrow> usize \<Rightarrow> harness \<Rightarrow> (bool \<times> harness) option" where
  "map_program prog pt code_va stack_va s = do {
     n \<leftarrow> uadd (word_of_nat (length prog)) FRAME_SIZE;
     n \<leftarrow> usub n 1;
     let code_frames = n div FRAME_SIZE;
     (done, s) \<leftarrow> map_code prog pt code_va (map word_of_nat [0..<unat code_frames]) s;
     if \<not> done then Some (False, s)
     else do {
       (r, p) \<leftarrow> alloc_frame (pool s);
       case r of
         None \<Rightarrow> Some (False, s\<lparr>pool := p\<rparr>)
       | Some sf \<Rightarrow> do {
           (r, p) \<leftarrow> pt_map p pt stack_va (frame_phys sf) user_flags;
           rassert (r = Inr ());
           Some (True, s\<lparr>pool := p\<rparr>)
         }
     }
   }"

definition spawn_message :: "u32 \<Rightarrow> u8 list \<Rightarrow> usize \<Rightarrow> usize \<Rightarrow> u8 list" where
  "spawn_message p name code_va stack_va =
    bytes (''spawned pid '' @ dec p @ '' ('' @ [CHR 0x27]) @ name @ bytes ([CHR 0x27] @ '') at '' @ hex code_va @ '', stack '' @ hex stack_va)"

definition spawn_process_locked :: "device \<Rightarrow> usize \<Rightarrow> u8 list \<Rightarrow> harness \<Rightarrow> u8 list \<Rightarrow> (u32 option \<times> harness) option" where
  "spawn_process_locked dev kstk prog s name = do {
     pt \<leftarrow> kernel_pt s;
     case free_slot s of
       None \<Rightarrow> Some (None, s)
     | Some p \<Rightarrow> do {
         code_va \<leftarrow> user_code_va p;
         t \<leftarrow> user_stack_top p;
         stack_va \<leftarrow> usub t FRAME_SIZE;
         m \<leftarrow> translate (pool s) pt code_va;
         (done, s) \<leftarrow> (if m \<noteq> None then Some (True, s) else map_program prog pt code_va stack_va s);
         if \<not> done then Some (None, s)
         else do {
           s \<leftarrow> start_process kstk s p code_va name;
           s \<leftarrow> kprint_line dev s (spawn_message p name code_va stack_va);
           Some (Some p, s)
         }
       }
   }"

definition spawn_process :: "device \<Rightarrow> usize \<Rightarrow> u8 list \<Rightarrow> harness \<Rightarrow> u8 list \<Rightarrow> (u32 option \<times> harness) option" where
  "spawn_process dev kstk prog s name = do {
     let (saved, s) = irq_save s;
     (r, s) \<leftarrow> spawn_process_locked dev kstk prog s name;
     Some (r, irq_restore s saved)
   }"

section \<open>The memory routines are right\<close>

lemma memcpy_loop_eq:
  assumes "\<forall>j\<in>{i..<i + n}. \<forall>k\<in>{i..<i + n}. src + word_of_nat k \<noteq> dst + word_of_nat j"
  shows "memcpy_loop m dst src i n a = (if \<exists>k\<in>{i..<i + n}. a = dst + word_of_nat k then m (src + (a - dst)) else m a)"
  using assms
proof (induction n arbitrary: m i)
  case (Suc n)
  let ?m = "m(dst + word_of_nat i := m (src + word_of_nat i))"
  have ih: "memcpy_loop ?m dst src (Suc i) n a = (if \<exists>k\<in>{Suc i..<Suc i + n}. a = dst + word_of_nat k then ?m (src + (a - dst)) else ?m a)"
    by (rule Suc.IH) (use Suc.prems in auto)
  have r: "(\<exists>k\<in>{i..<i + Suc n}. a = dst + word_of_nat k) \<longleftrightarrow> a = dst + word_of_nat i \<or> (\<exists>k\<in>{Suc i..<Suc i + n}. a = dst + word_of_nat k)"
  proof -
    have "{i..<i + Suc n} = insert i {Suc i..<Suc i + n}" by auto
    then show ?thesis by (simp del: of_nat_Suc)
  qed
  show ?case
  proof (cases "\<exists>k\<in>{Suc i..<Suc i + n}. a = dst + word_of_nat k")
    case True
    then obtain k where k: "k \<in> {Suc i..<Suc i + n}" "a = dst + word_of_nat k" by blast
    have "src + word_of_nat k \<noteq> dst + word_of_nat i" using Suc.prems k(1) by auto
    then have "?m (src + (a - dst)) = m (src + (a - dst))" using k(2) by simp
    then show ?thesis using ih True r by simp
  next
    case False
    then show ?thesis using ih r by simp
  qed
qed simp

lemma memset_loop_eq: "memset_loop m s c i n a = (if \<exists>k\<in>{i..<i + n}. a = s + word_of_nat k then c else m a)"
proof (induction n arbitrary: m i)
  case (Suc n)
  have "{i..<i + Suc n} = insert i {Suc i..<Suc i + n}" by auto
  then show ?case using Suc by (auto simp del: of_nat_Suc)
qed simp

lemma memcmp_loop_eq:
  "(memcmp_loop m s1 s2 i n = 0 \<longleftrightarrow> (\<forall>k\<in>{i..<i + n}. m (s1 + word_of_nat k) = m (s2 + word_of_nat k))) \<and>
   (memcmp_loop m s1 s2 i n < 0 \<longleftrightarrow> (\<exists>k\<in>{i..<i + n}. (\<forall>j\<in>{i..<k}. m (s1 + word_of_nat j) = m (s2 + word_of_nat j)) \<and>
     m (s1 + word_of_nat k) < m (s2 + word_of_nat k)))"
proof (induction n arbitrary: i)
  case (Suc n)
  let ?e = "\<lambda>k. m (s1 + word_of_nat k) = m (s2 + word_of_nat k)" and ?l = "\<lambda>k. m (s1 + word_of_nat k) < m (s2 + word_of_nat k)"
  have r: "{i..<i + Suc n} = insert i {Suc i..<Suc i + n}" by auto
  have step: "{i..<k} = insert i {Suc i..<k}" if "k \<in> {Suc i..<Suc i + n}" for k using that by auto
  have split: "(\<exists>k\<in>{i..<i + Suc n}. (\<forall>j\<in>{i..<k}. ?e j) \<and> ?l k) \<longleftrightarrow> ?l i \<or> ?e i \<and> (\<exists>k\<in>{Suc i..<Suc i + n}. (\<forall>j\<in>{Suc i..<k}. ?e j) \<and> ?l k)"
    unfolding r using step by (auto simp del: of_nat_Suc)
  show ?case
  proof (cases "?e i")
    case True
    then have "memcmp_loop m s1 s2 i (Suc n) = memcmp_loop m s1 s2 (Suc i) n" by simp
    then show ?thesis unfolding split unfolding r using Suc.IH [of "Suc i"] True by simp
  next
    case False
    then have "memcmp_loop m s1 s2 i (Suc n) = uint (m (s1 + word_of_nat i)) - uint (m (s2 + word_of_nat i))" by simp
    then show ?thesis unfolding split unfolding r using False by (simp add: word_less_def word_uint_eq_iff)
  qed
qed simp

section \<open>Properties of the memory routines\<close>

text \<open>C38: The freestanding routines do what C promises: \<^verbatim>\<open>memcpy\<close> of ranges that do not overlap copies the
  source and changes nothing else, \<^verbatim>\<open>memset\<close> stores the low byte of its argument throughout the range, and \<^verbatim>\<open>memcmp\<close> is zero
  exactly for equal ranges and negative exactly when the first range is smaller at the first difference.\<close>

theorem memory_routines_correct:
  "((\<forall>j<unat n. \<forall>k<unat n. src + word_of_nat k \<noteq> dst + word_of_nat j) \<longrightarrow>
     fst (memcpy m dst src n) = dst \<and>
     (\<forall>a. snd (memcpy m dst src n) a = (if \<exists>k<unat n. a = dst + word_of_nat k then m (src + (a - dst)) else m a))) \<and>
   (\<forall>a. snd (memset m dst c n) a = (if \<exists>k<unat n. a = dst + word_of_nat k then ucast c else m a)) \<and>
   (memcmp m dst src n = 0 \<longleftrightarrow> (\<forall>k<unat n. m (dst + word_of_nat k) = m (src + word_of_nat k))) \<and>
   (memcmp m dst src n < 0 \<longleftrightarrow> (\<exists>k<unat n. (\<forall>j<k. m (dst + word_of_nat j) = m (src + word_of_nat j)) \<and> m (dst + word_of_nat k) < m (src + word_of_nat k)))"
  using memcpy_loop_eq [of 0 "unat n" src dst] memset_loop_eq [of m dst "ucast c" 0 "unat n"] memcmp_loop_eq [of m dst src 0 "unat n"]
  by (auto simp: memcpy_def memset_def memcmp_def atLeast0LessThan lessThan_iff Bex_def Ball_def)

theorem memory_routines_correct_witness:
  "snd (memcpy (\<lambda>a. ucast a) 100 7 2) 101 = 8 \<and> snd (memset (\<lambda>a. 0) 100 0x1FF 2) 101 = 0xFF \<and> memcmp (\<lambda>a. ucast a) 5 9 3 < 0"
proof -
  have "\<forall>j<2. \<forall>k<2. (7 :: usize) + word_of_nat k \<noteq> 100 + word_of_nat j" by (auto simp: less_2_cases_iff)
  then have "snd (memcpy (\<lambda>a. ucast a) 100 7 2) 101 = 8"
    using memory_routines_correct [of 2 7 100 "\<lambda>a. ucast a" 0] by (auto intro!: exI [of _ 1])
  moreover have "snd (memset (\<lambda>a. 0) 100 0x1FF 2) 101 = 0xFF"
    using memory_routines_correct [of 2 7 100 "\<lambda>a. 0" "0x1FF"] by (auto intro!: exI [of _ 1])
  moreover have "memcmp (\<lambda>a. ucast a) 5 9 3 < 0"
    using memory_routines_correct [of 3 9 5 "\<lambda>a. ucast a" 0] by (auto intro!: exI [of _ 0])
  ultimately show ?thesis by blast
qed

end
