(* ===== verification/Harness_Spawn.thy ===== *)
theory Harness_Spawn
  imports Harness
begin

text \<open>Starting a process: the proofs about \<^verbatim>\<open>spawn_process\<close> of \<^verbatim>\<open>boot/src/main.rs\<close>. One page first (a frame from the
  pool, mapped with the user flags), then the loop over the program's pages, then the stack page; the invariants of the
  pool, the page table and the scheduler meet in \<open>spawn_process_correct\<close>.\<close>

section \<open>Mapping a program\<close>

definition unmapped_free :: "pmm \<Rightarrow> bool" where
  "unmapped_free p \<longleftrightarrow> (\<forall>f\<in>free_frames p. mapping_count (infos p f) = 0)"

lemma user_flags_valid: "valid_flags user_flags"
  unfolding user_flags_def using valid_flags_consts valid_flags_with by blast

lemma user_flags_user: "bit (bits user_flags) 1" "bit (bits user_flags) 2"
  by (simp_all add: user_flags_def with_flags_def F_PRESENT_def F_WRITABLE_def F_USER_def PTE_PRESENT_def PTE_WRITABLE_def bit_simps)

lemma takes_free_trans: "takes_free a s t \<Longrightarrow> takes_free b t u \<Longrightarrow> takes_free (a + b) s u"
  by (auto simp: takes_free_def)

lemma phys_frame: "ucast (frame_phys f div 4096) = f"
proof -
  have "unat (frame_phys f div 4096) = unat f" by (simp add: unat_div unat_frame_phys)
  then have "unat (ucast (frame_phys f div 4096) :: u32) = unat f" using unat_u32_bound [of f] by (subst unat_ucast_down) simp_all
  then show ?thesis by (simp add: word_unat_eq_iff)
qed

lemma alloc_page:
  assumes ok: "vm_ok p rt" and un: "unmapped_free p" and free: "free_frames p \<noteq> {}"
  obtains f q where "alloc_frame p = Some (Some f, q)" "vm_ok q rt" "unmapped_free q" "takes_free 1 p q" "same_view p q rt"
    "in_table q f" "f \<notin> free_frames q" "mapping_count (infos q f) = 0" "f \<in> free_frames p" "user_kept p q rt"
proof -
  have inv: "vm_inv p rt" using ok by (simp add: vm_ok_def)
  then obtain l g where lg: "pmm_inv p l g" by (auto simp: vm_inv_def tree_inv_def)
  obtain f q l' g' where a: "alloc_frame p = Some (Some f, q)" "f \<in> free_frames p" "free_frames q = free_frames p - {f}"
    "infos q = (infos p)(f := (infos p f)\<lparr>owner_word := raw KERNEL\<rparr>)" "links_only p q (free_frames p)" "pmm_inv q l' g'"
    using alloc_frame_post [OF lg] free by (clarsimp split: option.splits prod.splits)
  have num: "ft_num q = ft_num p" "in_table q = in_table p" using a(5) by (auto simp: links_only_def in_table_def)
  have tk: "tabs p rt 3 \<subseteq> kernel_frames p" using inv by (simp add: vm_inv_def tree_inv_def)
  have kk: "kernel_frames p \<subseteq> kernel_frames q" using a(2,4) num(2) by (auto simp: kernel_frames_def)
  note sm = same_tables_mono [OF links_same_tables [OF a(5)] tk]
  note st = same_tables_inv [OF inv sm a(6) order_trans [OF tk kk]]
  have uk: "user_kept p q rt" using same_tables_tree [OF sm] by (simp add: user_kept_def)
  have view: "same_view p q rt" using st(2) by (simp add: same_view_def)
  have cnt: "mapping_count (infos q h) = mapping_count (infos p h)" for h using a(4) by simp
  have "finite (free_frames p)" using pmm_inv_mem [OF lg] by (metis List.finite_set finite_Un)
  then have "card (free_frames p) = Suc (card (free_frames q))" using card.remove [OF _ a(2)] a(3) by simp
  then have "takes_free 1 p q" using a(3) by (auto simp: takes_free_def)
  moreover have "unmapped_free q" using un a(3) cnt by (auto simp: unmapped_free_def)
  moreover have "in_table q f" "f \<notin> free_frames q" "mapping_count (infos q f) = 0"
    using a(2,3) num un cnt by (auto simp: free_frames_def unmapped_free_def)
  ultimately show thesis using that a(1,2) vm_ok_same [OF ok st(1) num(1) view cnt] view uk by blast
qed

lemma map_page:
  assumes ok: "vm_ok p rt" and un: "unmapped_free p" and room: "4 \<le> card (free_frames p)"
    and va: "is_canonical va" "va mod 4096 = 0" "translate p (PageTable rt) va = Some None"
  obtains f q q' where "alloc_frame p = Some (Some f, q)" "pt_map q (PageTable rt) va (frame_phys f) user_flags = Some (Inr (), q')"
    "vm_ok q' rt" "unmapped_free q'" "takes_free 4 p q'"
    "\<forall>va'. translate q' (PageTable rt) va' = (if is_canonical va' \<and> va' div 4096 = va div 4096 then Some (Some (frame_phys f + (va' AND 0xfff)))
       else translate p (PageTable rt) va')"
    "f \<in> free_frames p" "f \<notin> free_frames q'" "user_kept p q' rt" "\<forall>va'. is_canonical va' \<and> va' div 4096 = va div 4096 \<longrightarrow> user_page q' rt va' 3"
proof -
  have ne: "free_frames p \<noteq> {}" using room by auto
  obtain f q where a: "alloc_frame p = Some (Some f, q)" "vm_ok q rt" "unmapped_free q" "takes_free 1 p q" "same_view p q rt"
    "in_table q f" "f \<notin> free_frames q" "mapping_count (infos q f) = 0" "f \<in> free_frames p" "user_kept p q rt" by (rule alloc_page [OF ok un ne])
  let ?pa = "frame_phys f"
  have inv: "vm_inv p rt" "vm_inv q rt" using ok a(2) by (simp_all add: vm_ok_def)
  have pf: "ucast (?pa div 4096) = f" by (rule phys_frame)
  have n: "mapping_count (infos q (ucast (?pa div 4096))) \<noteq> - 1" using a(8) by (simp add: pf)
  obtain r q' where m: "pt_map q (PageTable rt) va ?pa user_flags = Some (r, q')" "vm_ok q' rt" "r \<in> map_outcomes q rt va ?pa"
    "r = Inl AllocFailed \<longrightarrow> card (free_frames q) < 3" "takes_free 3 q q'"
    "if r = Inr () then is_canonical va \<and> va mod 4096 = 0 \<and> ?pa mod 4096 = 0 \<and> unat ?pa < 2 ^ 36 \<and> resolve q rt va 3 = None \<and>
         remapped q q' rt va (Some (?pa OR bits user_flags OR PTE_PRESENT)) \<and> mapped_once q q' (ucast (?pa div 4096))
       else same_view q q' rt \<and> (\<forall>f. mapping_count (infos q' f) = mapping_count (infos q f))"
    "user_kept q q' rt" "r = Inr () \<longrightarrow> user_mapped q' rt va user_flags"
    by (rule pt_map_ok [OF a(2) user_flags_valid n, of va])
  have "resolve q rt va 3 = None" using va(1,3) a(5) translate_none [OF inv(1)] by (simp add: same_view_def)
  moreover have "?pa mod 4096 = 0" "unat ?pa < unat (ft_num q) * 4096"
    using a(6) by (simp_all add: word_unat_eq_iff unat_mod unat_frame_phys in_table_iff)
  ultimately have r: "r = Inr ()" using m(3,4) va room a(4) by (auto simp: map_outcomes_def takes_free_def)
  have inv': "vm_inv q' rt" using m(2) by (simp add: vm_ok_def)
  have re: "remapped q q' rt va (Some (?pa OR bits user_flags OR PTE_PRESENT))" "mapped_once q q' f" using m(6) r by (simp_all add: pf)
  have "(?pa OR bits user_flags OR PTE_PRESENT) AND ADDR_MASK_4K = ?pa" using m(6) r leaf_entry(2) [OF user_flags_valid] masked_page by simp
  then have "translate q' (PageTable rt) va' = (if is_canonical va' \<and> va' div 4096 = va div 4096 then Some (Some (?pa + (va' AND 0xfff)))
       else translate p (PageTable rt) va')" for va'
    using translate_remapped [OF inv(2) inv' re(1), of va'] translate_same_view [OF inv a(5), of va'] by simp
  moreover have "unmapped_free q'" using a(3,7) m(5) re(2) by (auto simp: unmapped_free_def takes_free_def mapped_once_def)
  moreover have "takes_free 4 p q'" using takes_free_trans [OF a(4) m(5)] by simp
  moreover have "f \<notin> free_frames q'" using a(7) m(5) by (auto simp: takes_free_def)
  moreover have "user_kept p q' rt" using a(10) m(7) by (simp add: user_kept_def)
  moreover have "\<forall>va'. is_canonical va' \<and> va' div 4096 = va div 4096 \<longrightarrow> user_page q' rt va' 3"
    using m(8) r user_flags_user by (simp add: user_mapped_def)
  ultimately show thesis using that a(1,9) m(1,2) r by blast
qed

text \<open>The frame a physical address lies in, and the frames that left the pool between two states.\<close>

definition frame_of :: "usize \<Rightarrow> u32" where
  "frame_of pa = ucast (pa div 4096)"

definition taken :: "harness \<Rightarrow> harness \<Rightarrow> u32 set" where
  "taken s t = free_frames (pool s) - free_frames (pool t)"

lemma in_frame:
  assumes "unat d < 4096"
  shows "frame_of (frame_phys f + d) = f"
proof -
  have u: "unat (frame_phys f + d) = unat f * 4096 + unat d"
    using assms unat_u32_bound [of f] by (subst unat_add_no_wrap) (simp_all add: unat_frame_phys)
  then have "unat ((frame_phys f + d) div 4096) = unat f" using assms by (simp add: unat_div)
  then have "unat (frame_of (frame_phys f + d)) = unat f"
    unfolding frame_of_def using unat_u32_bound [of f] by (subst unat_ucast_down) simp_all
  then show ?thesis by (simp add: word_unat_eq_iff)
qed

lemma copy_in_frame:
  assumes "length bs \<le> 4096"
  shows "frame_of pa \<noteq> f \<Longrightarrow> copy_in u (frame_phys f) bs pa = u pa"
    "unat d < length bs \<Longrightarrow> copy_in u (frame_phys f) bs (frame_phys f + d) = bs ! unat d"
  using in_frame [of "pa - frame_phys f" f] assms by (auto simp: copy_in_def)

lemma page_offset: "unat (va AND 0xfff) = unat va mod 4096" for va :: u64
proof -
  have "va AND 0xfff = take_bit 12 va" by (simp add: take_bit_eq_mask mask_eq_exp_minus_1)
  then show ?thesis by (simp add: take_bit_eq_mod unat_mod)
qed

text \<open>The pages \<open>A\<close> (numbers of virtual pages) of a region that starts at \<open>cv\<close> are mapped, each to a frame of its
  own taken from the pool and open to ring 3, and hold the program's bytes. No other address changes its
  translation, and no frame but those taken changes its bytes.\<close>

definition pages_mapped :: "u8 list \<Rightarrow> u32 \<Rightarrow> usize \<Rightarrow> nat set \<Rightarrow> harness \<Rightarrow> harness \<Rightarrow> bool" where
  "pages_mapped prog rt cv A s t \<longleftrightarrow>
     vm_ok (pool t) rt \<and> unmapped_free (pool t) \<and> takes_free (4 * card A) (pool s) (pool t) \<and> user_kept (pool s) (pool t) rt \<and>
     (\<forall>va. if unat va div 4096 \<in> A
        then user_page (pool t) rt va 3 \<and> (\<exists>pa. translate (pool t) (PageTable rt) va = Some (Some pa) \<and> frame_of pa \<in> taken s t \<and>
          (unat va < unat cv + length prog \<longrightarrow> umem t pa = prog ! (unat va - unat cv)))
        else translate (pool t) (PageTable rt) va = translate (pool s) (PageTable rt) va) \<and>
     (\<forall>va va'. unat va div 4096 \<in> A \<and> unat va' div 4096 \<in> A \<and> translate (pool t) (PageTable rt) va = translate (pool t) (PageTable rt) va' \<longrightarrow> va = va') \<and>
     (\<forall>pa. frame_of pa \<notin> taken s t \<longrightarrow> umem t pa = umem s pa) \<and>
     t = s\<lparr>pool := pool t, umem := umem t\<rparr>"

lemma page_end: "a = 4096 * (b + i) + r \<Longrightarrow> c = 4096 * b \<Longrightarrow> r < 4096 \<Longrightarrow> a < c + i * 4096 + 4096" for a b c i r :: nat
  by simp

lemma page_addr:
  assumes "unat cv mod 4096 = 0" "unat cv + n * 4096 \<le> 2 ^ 47" "i < n"
  defines "va \<equiv> cv + word_of_nat i * FRAME_SIZE"
  shows "umul (word_of_nat i) FRAME_SIZE = Some (word_of_nat i * FRAME_SIZE)" "unat (word_of_nat i * FRAME_SIZE :: usize) = i * 4096"
    "uadd cv (word_of_nat i * FRAME_SIZE) = Some va" "unat va = unat cv + i * 4096" "is_canonical va" "va mod 4096 = 0"
    "is_canonical va' \<and> va' div 4096 = va div 4096 \<longleftrightarrow> unat va' div 4096 = unat cv div 4096 + i"
proof -
  have fs: "unat FRAME_SIZE = 4096" by (simp add: kconsts)
  have i: "i * 4096 + 4096 \<le> 2 ^ 47" using assms(2,3) by simp
  then have u: "unat (word_of_nat i :: usize) = i" by (simp add: unat_of_nat)
  then have p: "unat (word_of_nat i :: usize) * unat FRAME_SIZE < 2 ^ 64" using i fs by simp
  then show "umul (word_of_nat i) FRAME_SIZE = Some (word_of_nat i * FRAME_SIZE)" by (simp add: umul_def)
  show d: "unat (word_of_nat i * FRAME_SIZE :: usize) = i * 4096" using p u fs by (subst unat_mult_no_wrap) simp_all
  have b: "unat cv + i * 4096 < 2 ^ 47" using assms(2,3) by simp
  then show "uadd cv (word_of_nat i * FRAME_SIZE) = Some va" by (simp add: uadd_def d va_def)
  show v: "unat va = unat cv + i * 4096" unfolding va_def using b d by (subst unat_add_no_wrap) simp_all
  show "is_canonical va" by (rule is_canonical_low) (use v b in simp)
  show "va mod 4096 = 0" using v assms(1) by (simp add: word_unat_eq_iff unat_mod)
  have q: "unat va div 4096 = unat cv div 4096 + i" using v by simp
  have "is_canonical va'" if "unat va' div 4096 = unat cv div 4096 + i"
  proof (rule is_canonical_low)
    have "unat va' = 4096 * (unat cv div 4096 + i) + unat va' mod 4096" using that by (metis mult_div_mod_eq)
    moreover have "unat cv = 4096 * (unat cv div 4096)" using assms(1) mult_div_mod_eq [of 4096 "unat cv"] by linarith
    moreover have "unat va' mod 4096 < 4096" by simp
    ultimately have "unat va' < unat cv + i * 4096 + 4096" by (rule page_end)
    then show "unat va' < 2 ^ 47" using assms(2,3) by simp
  qed
  then show "is_canonical va' \<and> va' div 4096 = va div 4096 \<longleftrightarrow> unat va' div 4096 = unat cv div 4096 + i"
    using q by (auto simp: word_unat_eq_iff unat_div)
qed

lemma one_page:
  assumes m: "vm_ok q rt" "unmapped_free q" "takes_free 4 (pool s) q" "user_kept (pool s) q rt" and f: "f \<in> free_frames (pool s)" "f \<notin> free_frames q"
    and page: "\<And>va'. is_canonical va' \<and> va' div 4096 = va div 4096 \<longleftrightarrow> unat va' div 4096 = k"
    and user: "\<forall>va'. is_canonical va' \<and> va' div 4096 = va div 4096 \<longrightarrow> user_page q rt va' 3"
    and tr: "\<forall>va'. translate q (PageTable rt) va' = (if is_canonical va' \<and> va' div 4096 = va div 4096 then Some (Some (frame_phys f + (va' AND 0xfff)))
       else translate (pool s) (PageTable rt) va')"
    and here: "\<And>va'. unat va' div 4096 = k \<Longrightarrow> unat va' < unat cv + length prog \<Longrightarrow> u (frame_phys f + (va' AND 0xfff)) = prog ! (unat va' - unat cv)"
    and away: "\<And>pa. frame_of pa \<noteq> f \<Longrightarrow> u pa = umem s pa"
  shows "pages_mapped prog rt cv {k} s (s\<lparr>pool := q, umem := u\<rparr>)"
proof -
  let ?t = "s\<lparr>pool := q, umem := u\<rparr>"
  have tk: "f \<in> taken s ?t" using f by (simp add: taken_def)
  have fr: "frame_of (frame_phys f + (va' AND 0xfff)) = f" for va' :: u64 by (rule in_frame) (simp add: page_offset)
  have inj: "va1 = va2" if "unat va1 div 4096 = k" "unat va2 div 4096 = k" "translate q (PageTable rt) va1 = translate q (PageTable rt) va2" for va1 va2
  proof -
    have "va1 AND 0xfff = va2 AND 0xfff" using that tr by (simp add: page)
    then have "unat va1 mod 4096 = unat va2 mod 4096" by (metis page_offset)
    then show ?thesis using that(1,2) by (metis div_mult_mod_eq word_unat_eq_iff)
  qed
  have "\<forall>pa. frame_of pa \<notin> taken s ?t \<longrightarrow> u pa = umem s pa" using tk away by metis
  then show ?thesis unfolding pages_mapped_def using m user tr here inj tk fr by (simp add: page)
qed

lemma map_code_step:
  assumes ok: "vm_ok (pool s) rt" and un: "unmapped_free (pool s)" and room: "4 \<le> card (free_frames (pool s))"
    and cv: "unat cv mod 4096 = 0" "unat cv + n * 4096 \<le> 2 ^ 47" "i < n" and len: "i * 4096 < length prog" "length prog < 2 ^ 63"
    and free: "translate (pool s) (PageTable rt) (cv + word_of_nat i * FRAME_SIZE) = Some None"
  obtains t where "map_code prog (PageTable rt) cv (word_of_nat i # is) s = map_code prog (PageTable rt) cv is t"
    "pages_mapped prog rt cv {unat cv div 4096 + i} s t"
proof -
  note a = page_addr [OF cv]
  let ?d = "word_of_nat i * FRAME_SIZE" and ?bs = "take (unat (min FRAME_SIZE (word_of_nat (length prog) - word_of_nat i * FRAME_SIZE))) (drop (i * 4096) prog)"
  obtain f q q' where al: "alloc_frame (pool s) = Some (Some f, q)"
    and mp: "pt_map q (PageTable rt) (cv + ?d) (frame_phys f) user_flags = Some (Inr (), q')"
    and q': "vm_ok q' rt" "unmapped_free q'" "takes_free 4 (pool s) q'"
    and tr: "\<forall>va'. translate q' (PageTable rt) va' =
      (if is_canonical va' \<and> va' div 4096 = (cv + ?d) div 4096 then Some (Some (frame_phys f + (va' AND 0xfff))) else translate (pool s) (PageTable rt) va')"
    and f: "f \<in> free_frames (pool s)" "f \<notin> free_frames q'" and uk: "user_kept (pool s) q' rt"
    and us: "\<forall>va'. is_canonical va' \<and> va' div 4096 = (cv + ?d) div 4096 \<longrightarrow> user_page q' rt va' 3"
    by (rule map_page [OF ok un room a(5,6) free])
  have l: "unat (word_of_nat (length prog) :: usize) = length prog" using len(2) by (simp add: unat_of_nat)
  then have r: "usub (word_of_nat (length prog)) ?d = Some (word_of_nat (length prog) - ?d)" "unat (word_of_nat (length prog) - ?d :: usize) = length prog - i * 4096"
    using len(1) by (simp_all add: usub_def a(2) word_le_nat_alt unat_sub)
  then have m: "unat (min FRAME_SIZE (word_of_nat (length prog) - ?d :: usize)) = min 4096 (length prog - i * 4096)"
    by (auto simp: min_def word_le_nat_alt kconsts)
  let ?t = "s\<lparr>pool := q', umem := copy_in (umem s) (frame_phys f) ?bs\<rparr>"
  have bs: "length ?bs = min 4096 (length prog - i * 4096)" "length ?bs \<le> 4096" by (simp_all add: m)
  note ci = copy_in_frame [OF bs(2), where f = f and u = "umem s"]
  have tv: "translate q' (PageTable rt) (cv + ?d) = Some (Some (frame_phys f))" using tr a(5) low_12 [OF a(6)] by simp
  have "map_code prog (PageTable rt) cv (word_of_nat i # is) s = map_code prog (PageTable rt) cv is ?t"
    by (simp add: al mp tv a(1,2,3) r(1) rassert_def Let_def)
  moreover have "pages_mapped prog rt cv {unat cv div 4096 + i} s ?t"
  proof (rule one_page [OF q' uk f a(7) us tr _ ci(1)])
    fix va' :: usize assume v: "unat va' div 4096 = unat cv div 4096 + i" "unat va' < unat cv + length prog"
    have o: "unat va' = unat cv + i * 4096 + unat va' mod 4096"
      using v(1) cv(1) div_mult_mod_eq [of "unat va'" 4096] div_mult_mod_eq [of "unat cv" 4096] by simp
    then have lt: "unat va' mod 4096 < min 4096 (length prog - i * 4096)" using v(2) by simp
    then have "copy_in (umem s) (frame_phys f) ?bs (frame_phys f + (va' AND 0xfff)) = ?bs ! (unat va' mod 4096)"
      using ci(2) [of "va' AND 0xfff"] by (simp only: page_offset bs(1))
    also have "\<dots> = prog ! (i * 4096 + unat va' mod 4096)" using lt by (subst nth_take) (simp_all add: m)
    also have "i * 4096 + unat va' mod 4096 = unat va' - unat cv" using o by linarith
    finally show "copy_in (umem s) (frame_phys f) ?bs (frame_phys f + (va' AND 0xfff)) = prog ! (unat va' - unat cv)" .
  qed
  ultimately show ?thesis by (rule that)
qed

lemma pool_umem_upd: "t = s\<lparr>pool := p, umem := m\<rparr> \<Longrightarrow> u = t\<lparr>pool := p', umem := m'\<rparr> \<Longrightarrow> u = s\<lparr>pool := p', umem := m'\<rparr>"
  by simp

lemma pages_mapped_refl:
  assumes "vm_ok (pool s) rt" "unmapped_free (pool s)"
  shows "pages_mapped prog rt cv {} s s"
  using assms by (simp add: pages_mapped_def takes_free_def user_kept_refl)

lemma pages_mappedD:
  assumes "pages_mapped prog rt cv A s t"
  shows "unat va div 4096 \<in> A \<Longrightarrow> user_page (pool t) rt va 3 \<and> (\<exists>pa. translate (pool t) (PageTable rt) va = Some (Some pa) \<and> frame_of pa \<in> taken s t \<and>
      (unat va < unat cv + length prog \<longrightarrow> umem t pa = prog ! (unat va - unat cv)))"
    "unat va div 4096 \<notin> A \<Longrightarrow> translate (pool t) (PageTable rt) va = translate (pool s) (PageTable rt) va"
    "frame_of pa \<notin> taken s t \<Longrightarrow> umem t pa = umem s pa"
  using assms by (simp_all add: pages_mapped_def)

lemma pages_mapped_trans:
  assumes st: "pages_mapped prog rt cv A s t" and tu: "pages_mapped prog rt cv B t u" and ab: "A \<inter> B = {}" "finite A" "finite B"
  shows "pages_mapped prog rt cv (A \<union> B) s u"
proof -
  let ?tr = "\<lambda>s va. translate (pool s) (PageTable rt) va"
  have tf: "takes_free (4 * card (A \<union> B)) (pool s) (pool u)"
    using takes_free_trans [of "4 * card A" "pool s" "pool t" "4 * card B" "pool u"] st tu by (simp add: pages_mapped_def card_Un_disjoint [OF ab(2,3,1)])
  have sub: "free_frames (pool t) \<subseteq> free_frames (pool s)" "free_frames (pool u) \<subseteq> free_frames (pool t)"
    using st tu by (simp_all add: pages_mapped_def takes_free_def)
  then have tk: "taken s t \<subseteq> taken s u" "taken t u \<subseteq> taken s u" "taken s t \<inter> taken t u = {}" by (auto simp: taken_def)
  have uk: "user_kept (pool s) (pool t) rt" "user_kept (pool t) (pool u) rt" using st tu by (simp_all add: pages_mapped_def)
  have sm: "\<forall>pa. frame_of pa \<notin> taken s t \<longrightarrow> umem t pa = umem s pa" "\<forall>pa. frame_of pa \<notin> taken t u \<longrightarrow> umem u pa = umem t pa"
    using st tu by (simp_all add: pages_mapped_def)
  have A: "?tr u va = ?tr t va \<and> user_page (pool u) rt va 3 \<and> (\<exists>pa. ?tr u va = Some (Some pa) \<and> frame_of pa \<in> taken s t \<and>
      (unat va < unat cv + length prog \<longrightarrow> umem u pa = prog ! (unat va - unat cv)))" if va: "unat va div 4096 \<in> A" for va
  proof -
    have nb: "unat va div 4096 \<notin> B" using va ab(1) by blast
    then have e: "?tr u va = ?tr t va" using tu by (simp add: pages_mapped_def)
    obtain pa where pa: "?tr t va = Some (Some pa)" "frame_of pa \<in> taken s t" "unat va < unat cv + length prog \<longrightarrow> umem t pa = prog ! (unat va - unat cv)"
      "user_page (pool t) rt va 3" using pages_mappedD(1) [OF st va] by blast
    have "umem u pa = umem t pa" using sm(2) pa(2) tk(3) by blast
    then show ?thesis using e pa uk(2) by (simp add: user_kept_def)
  qed
  have B: "user_page (pool u) rt va 3 \<and> (\<exists>pa. ?tr u va = Some (Some pa) \<and> frame_of pa \<in> taken t u \<and>
      (unat va < unat cv + length prog \<longrightarrow> umem u pa = prog ! (unat va - unat cv)))" if "unat va div 4096 \<in> B" for va
    by (rule pages_mappedD(1) [OF tu that])
  have O: "?tr u va = ?tr s va" if "unat va div 4096 \<notin> A \<union> B" for va using st tu that by (simp add: pages_mapped_def)
  have tr: "if unat va div 4096 \<in> A \<union> B then user_page (pool u) rt va 3 \<and> (\<exists>pa. ?tr u va = Some (Some pa) \<and> frame_of pa \<in> taken s u \<and>
      (unat va < unat cv + length prog \<longrightarrow> umem u pa = prog ! (unat va - unat cv))) else ?tr u va = ?tr s va" for va
    using A [of va] B [of va] O [of va] tk(1,2) by (simp only: Un_iff split: if_splits) blast
  have ia: "?tr t va = ?tr t va' \<Longrightarrow> va = va'" if "unat va div 4096 \<in> A" "unat va' div 4096 \<in> A" for va va'
    using st that by (simp add: pages_mapped_def)
  have ib: "?tr u va = ?tr u va' \<Longrightarrow> va = va'" if "unat va div 4096 \<in> B" "unat va' div 4096 \<in> B" for va va'
    using tu that by (simp add: pages_mapped_def)
  have ac: "?tr u va \<noteq> ?tr u va'" if h: "unat va div 4096 \<in> A" "unat va' div 4096 \<in> B" for va va'
  proof -
    obtain pa pa' where "?tr u va = Some (Some pa)" "?tr u va' = Some (Some pa')" "frame_of pa \<in> taken s t" "frame_of pa' \<in> taken t u"
      using A [OF h(1)] B [OF h(2)] by blast
    then show ?thesis using tk(3) by auto
  qed
  have inj: "va = va'" if h: "unat va div 4096 \<in> A \<union> B" "unat va' div 4096 \<in> A \<union> B" "?tr u va = ?tr u va'" for va va'
    using h ia [of va va'] ib [of va va'] ac [of va va'] ac [of va' va] A [of va] A [of va'] by auto
  have um: "umem u pa = umem s pa" if "frame_of pa \<notin> taken s u" for pa using sm tk(1,2) that by (metis subsetD)
  have "t = s\<lparr>pool := pool t, umem := umem t\<rparr>" "u = t\<lparr>pool := pool u, umem := umem u\<rparr>" using st tu by (simp_all only: pages_mapped_def)
  then have eq: "u = s\<lparr>pool := pool u, umem := umem u\<rparr>" by (rule pool_umem_upd)
  have "user_kept (pool s) (pool u) rt" "vm_ok (pool u) rt" "unmapped_free (pool u)"
    using uk tu by (simp_all add: user_kept_def pages_mapped_def)
  then show ?thesis unfolding pages_mapped_def using tf tr inj um eq by blast
qed

lemma map_code_maps:
  assumes "i \<le> n" "vm_ok (pool s) rt" "unmapped_free (pool s)" "4 * (n - i) \<le> card (free_frames (pool s))"
    and cv: "unat cv mod 4096 = 0" "unat cv + n * 4096 \<le> 2 ^ 47" and len: "\<forall>k < n. k * 4096 < length prog" "length prog < 2 ^ 63"
    and "\<And>k. i \<le> k \<Longrightarrow> k < n \<Longrightarrow> translate (pool s) (PageTable rt) (cv + word_of_nat k * FRAME_SIZE) = Some None"
  obtains t where "map_code prog (PageTable rt) cv (map word_of_nat [i..<n]) s = Some (True, t)"
    "pages_mapped prog rt cv {unat cv div 4096 + i..<unat cv div 4096 + n} s t"
  using assms(1-4,9)
proof (induction "n - i" arbitrary: i s thesis)
  case 0
  then show ?case using pages_mapped_refl [OF 0(4,5)] by simp
next
  case (Suc d)
  let ?c = "unat cv div 4096"
  have i: "i < n" using Suc.hyps(2) by simp
  obtain t where t: "map_code prog (PageTable rt) cv (word_of_nat i # map word_of_nat [Suc i..<n]) s = map_code prog (PageTable rt) cv (map word_of_nat [Suc i..<n]) t"
    "pages_mapped prog rt cv {?c + i} s t"
    by (rule map_code_step [OF Suc.prems(3,4) _ cv i _ len(2) Suc.prems(6) [OF order_refl i]])
      (use Suc.prems(5) i len(1) in \<open>simp_all add: Suc_diff_le Suc_le_eq\<close>)
  have free: "4 * (n - Suc i) \<le> card (free_frames (pool t))"
  proof -
    have "card (free_frames (pool s)) \<le> card (free_frames (pool t)) + 4" using t(2) by (simp add: pages_mapped_def takes_free_def)
    then show ?thesis using Suc.prems(5) i by arith
  qed
  have un: "translate (pool t) (PageTable rt) (cv + word_of_nat k * FRAME_SIZE) = Some None" if "Suc i \<le> k" "k < n" for k
  proof -
    have "unat (cv + word_of_nat k * FRAME_SIZE) div 4096 = ?c + k" using page_addr(4) [OF cv that(2)] by simp
    then show ?thesis using t(2) Suc.prems(6) [of k] that by (simp add: pages_mapped_def)
  qed
  obtain u where u: "map_code prog (PageTable rt) cv (map word_of_nat [Suc i..<n]) t = Some (True, u)" "pages_mapped prog rt cv {?c + Suc i..<?c + n} t u"
    by (rule Suc.hyps(1) [OF _ _ _ _ _ free un]) (use t(2) i Suc.hyps(2) in \<open>simp_all add: pages_mapped_def\<close>)
  have "{?c + i} \<union> {?c + Suc i..<?c + n} = {?c + i..<?c + n}" using i by auto
  then have "pages_mapped prog rt cv {?c + i..<?c + n} s u" using pages_mapped_trans [OF t(2) u(2)] by simp
  moreover have "map_code prog (PageTable rt) cv (map word_of_nat [i..<n]) s = Some (True, u)" using t(1) u(1) i by (simp add: upt_conv_Cons)
  ultimately show ?case by (intro Suc.prems(1))
qed

definition code_pages :: "u8 list \<Rightarrow> nat" where
  "code_pages prog = (length prog + 4095) div 4096"

definition user_pages :: "u8 list \<Rightarrow> usize \<Rightarrow> nat set" where
  "user_pages prog cv = insert (unat cv div 4096 + 256) {unat cv div 4096..<unat cv div 4096 + code_pages prog}"

lemma code_pages_bounds: "length prog \<le> code_pages prog * 4096" "k < code_pages prog \<Longrightarrow> k * 4096 < length prog"
  "length prog \<le> 2 ^ 20 \<Longrightarrow> code_pages prog \<le> 256"
  by (simp_all add: code_pages_def)

lemma code_frames_eq:
  assumes "length prog \<le> 2 ^ 20"
  shows "uadd (word_of_nat (length prog)) FRAME_SIZE = Some (word_of_nat (length prog) + FRAME_SIZE)"
    "usub (word_of_nat (length prog) + FRAME_SIZE) 1 = Some (word_of_nat (length prog) + FRAME_SIZE - 1)"
    "unat ((word_of_nat (length prog) + FRAME_SIZE - 1) div FRAME_SIZE) = code_pages prog"
proof -
  let ?n = "word_of_nat (length prog) :: usize"
  have l: "unat ?n = length prog" "unat FRAME_SIZE = 4096" using assms by (simp_all add: unat_of_nat kconsts)
  then show "uadd ?n FRAME_SIZE = Some (?n + FRAME_SIZE)" using assms by (simp add: uadd_def)
  have a: "unat (?n + FRAME_SIZE) = length prog + 4096" using assms l by (subst unat_add_no_wrap) simp_all
  then show "usub (?n + FRAME_SIZE) 1 = Some (?n + FRAME_SIZE - 1)" by (simp add: usub_def word_le_nat_alt)
  have "unat (?n + FRAME_SIZE - 1) = length prog + 4095" using a by (subst unat_sub) (simp_all add: word_le_nat_alt)
  then show "unat ((?n + FRAME_SIZE - 1) div FRAME_SIZE) = code_pages prog" by (simp add: unat_div l code_pages_def)
qed

lemma map_program_maps:
  assumes ok: "vm_ok (pool s) rt" "unmapped_free (pool s)" and room: "4 * Suc (code_pages prog) \<le> card (free_frames (pool s))"
    and cv: "unat cv mod 4096 = 0" "unat cv + 0x200000 \<le> 2 ^ 47" and len: "length prog \<le> 2 ^ 20"
    and fresh: "\<And>va. unat cv \<le> unat va \<Longrightarrow> unat va < unat cv + 0x200000 \<Longrightarrow> translate (pool s) (PageTable rt) va = Some None"
  obtains t where "map_program prog (PageTable rt) cv (cv + 0x100000) s = Some (True, t)" "pages_mapped prog rt cv (user_pages prog cv) s t"
proof -
  let ?n = "code_pages prog" and ?sv = "cv + 256 * FRAME_SIZE"
  note b = code_pages_bounds(1) [of prog] code_pages_bounds(3) [OF len]
  have cvn: "unat cv + ?n * 4096 \<le> 2 ^ 47" using cv(2) b(2) by simp
  have cv7: "unat cv + 257 * 4096 \<le> 2 ^ 47" using cv(2) by simp
  note sv = page_addr [OF cv(1) cv7, of 256, simplified numeral_less_iff, simplified]
  have un: "translate (pool s) (PageTable rt) (cv + word_of_nat k * FRAME_SIZE) = Some None" if "k < ?n" for k
    by (rule fresh) (use page_addr(4) [OF cv(1) cvn that] that b(2) in simp_all)
  obtain t where t: "map_code prog (PageTable rt) cv (map word_of_nat [0..<?n]) s = Some (True, t)" "pages_mapped prog rt cv {unat cv div 4096..<unat cv div 4096 + ?n} s t"
    by (rule map_code_maps [of 0 ?n s rt cv prog]) (use ok room cv(1) cvn len un code_pages_bounds(2) in auto)
  have pt: "vm_ok (pool t) rt" "unmapped_free (pool t)" "takes_free (4 * ?n) (pool s) (pool t)" "t = s\<lparr>pool := pool t, umem := umem t\<rparr>"
    using t(2) by (simp_all add: pages_mapped_def)
  have "translate (pool s) (PageTable rt) ?sv = Some None" by (rule fresh) (use sv(4) in simp_all)
  moreover have "unat ?sv div 4096 \<notin> {unat cv div 4096..<unat cv div 4096 + ?n}" using sv(4) b(2) div_mult_self1 [of 4096 "unat cv" 256] by simp
  ultimately have st: "translate (pool t) (PageTable rt) ?sv = Some None" using t(2) by (simp add: pages_mapped_def)
  have four: "4 \<le> card (free_frames (pool t))" using pt(3) room by (simp add: takes_free_def)
  obtain f q q' where al: "alloc_frame (pool t) = Some (Some f, q)" and mp: "pt_map q (PageTable rt) ?sv (frame_phys f) user_flags = Some (Inr (), q')"
    and q': "vm_ok q' rt" "unmapped_free q'" "takes_free 4 (pool t) q'"
    and tr: "\<forall>va'. translate q' (PageTable rt) va' = (if is_canonical va' \<and> va' div 4096 = ?sv div 4096 then Some (Some (frame_phys f + (va' AND 0xfff)))
       else translate (pool t) (PageTable rt) va')"
    and f: "f \<in> free_frames (pool t)" "f \<notin> free_frames q'" and uk: "user_kept (pool t) q' rt"
    and us: "\<forall>va'. is_canonical va' \<and> va' div 4096 = ?sv div 4096 \<longrightarrow> user_page q' rt va' 3"
    by (rule map_page [OF pt(1,2) four sv(5,6) st])
  let ?u = "t\<lparr>pool := q', umem := umem t\<rparr>"
  have "cv + 0x100000 = ?sv" by (simp add: kconsts)
  then have "map_program prog (PageTable rt) cv (cv + 0x100000) s = Some (True, ?u)"
    using mp by (simp add: map_program_def code_frames_eq [OF len] t(1) al rassert_def Let_def)
  moreover have "pages_mapped prog rt cv (user_pages prog cv) s ?u"
  proof -
    have beyond: "\<not> unat (va' :: usize) < unat cv + length prog" if "unat va' div 4096 = unat cv div 4096 + 256" for va'
      using that cv(1) len div_mult_mod_eq [of "unat va'" 4096] div_mult_mod_eq [of "unat cv" 4096] by simp
    have p: "pages_mapped prog rt cv {unat cv div 4096 + 256} t ?u"
      by (rule one_page [OF q' uk f sv(7) us tr]) (use beyond in auto)
    have "{unat cv div 4096..<unat cv div 4096 + ?n} \<union> {unat cv div 4096 + 256} = user_pages prog cv" by (auto simp: user_pages_def)
    then show ?thesis using pages_mapped_trans [OF t(2) p] b(2) by simp
  qed
  ultimately show thesis by (rule that)
qed

lemma kprint_line_prints:
  assumes "uart_drains dev" "\<not> writer_locked s"
  obtains b where "kprint_line dev s str = Some (s\<lparr>io_bus := b, serial_inited := True\<rparr>)"
    "sent b = sent (if serial_inited s then io_bus s else serial_init (io_bus s)) @ crlf (str @ [10])"
proof -
  let ?h = "if serial_inited s then io_bus s else serial_init (io_bus s)"
  obtain b where b: "serial_write_str dev ?h (str @ [10]) = Some b" "sent b = sent ?h @ crlf (str @ [10])"
    using write_str_sends [OF assms(1)] by metis
  moreover have "kprint_line dev s str = Some (s\<lparr>io_bus := b, serial_inited := True\<rparr>)"
    using b(1) assms(2) by (cases s) (simp add: kprint_line_def with_serial_def irq_save_def irq_restore_def rassert_def Let_def split: if_splits)
  ultimately show thesis by (intro that)
qed

lemma start_process_frame:
  "start_process k (s\<lparr>rflags := f, pool := P, umem := U\<rparr>) p a name =
    map_option (\<lambda>t. t\<lparr>rflags := f, pool := P, umem := U\<rparr>) (start_process k s p a name)" for s :: harness
  by (auto simp: start_process_def Let_def split: option.splits Option.bind_splits)

lemma start_process_rest:
  "start_process k s p a name = Some t \<Longrightarrow> t = s\<lparr>kmem := kmem t, procs := procs t\<rparr>" for s :: harness
  by (auto simp: start_process_def Let_def split: Option.bind_splits)

definition proc_base :: "u32 \<Rightarrow> usize" where
  "proc_base p = PROC_BASE + ucast p * PROC_STRIDE"

lemma proc_base_facts:
  assumes "unat p < 16"
  shows "user_code_va p = Some (proc_base p)" "user_stack_top p = Some (proc_base p + 0x101000)" "usub (proc_base p + 0x101000) FRAME_SIZE = Some (proc_base p + 0x100000)"
    "unat (proc_base p) = 0x80000000 + unat p * 0x200000" "unat (proc_base p) mod 4096 = 0" "unat (proc_base p) + 0x200000 \<le> 2 ^ 47"
proof -
  have up: "unat (ucast p :: u64) = unat p" by (simp add: unat_ucast_up)
  have st: "unat PROC_STRIDE = 0x200000" "unat PROC_BASE = 0x80000000" by (simp_all add: kconsts)
  have d: "unat (ucast p * PROC_STRIDE) = unat p * 0x200000" using assms up st by (subst unat_mult_no_wrap) simp_all
  show b: "unat (proc_base p) = 0x80000000 + unat p * 0x200000" unfolding proc_base_def using assms d st by (subst unat_add_no_wrap) simp_all
  have "unat (proc_base p) = 4096 * (0x80000 + unat p * 512)" unfolding b by simp
  then show "unat (proc_base p) mod 4096 = 0" by (simp only: mod_mult_self1_is_0)
  show "unat (proc_base p) + 0x200000 \<le> 2 ^ 47" using assms b by simp
  have m: "umul (ucast p) PROC_STRIDE = Some (ucast p * PROC_STRIDE)" using assms up st by (simp add: umul_def)
  have a: "uadd PROC_BASE (ucast p * PROC_STRIDE) = Some (proc_base p)" using assms d st by (simp add: uadd_def proc_base_def)
  show "user_code_va p = Some (proc_base p)" by (simp add: user_code_va_def m a)
  show "user_stack_top p = Some (proc_base p + 0x101000)" using user_stack_top_Some [OF assms] by (simp add: proc_base_def kconsts)
  have "unat (proc_base p + 0x101000) = unat (proc_base p) + 0x101000" using assms b by (subst unat_add_no_wrap) simp_all
  then show "usub (proc_base p + 0x101000) FRAME_SIZE = Some (proc_base p + 0x100000)" by (simp add: usub_def word_le_nat_alt kconsts)
qed

lemma spawn_runs:
  assumes dev: "uart_drains dev" "\<not> writer_locked s" and p: "free_slot s = Some p" "unat p < 16" and pt: "kernel_pt s = Some pt"
    and t: "start_process k s p (proc_base p) name = Some t"
    and m: "translate (pool s) pt (proc_base p) = Some r"
      "if r \<noteq> None then P = pool s \<and> U = umem s
       else map_program prog pt (proc_base p) (proc_base p + 0x100000) (s\<lparr>rflags := rflags s AND NOT RFLAGS_IF\<rparr>) =
         Some (True, s\<lparr>rflags := rflags s AND NOT RFLAGS_IF, pool := P, umem := U\<rparr>)"
  obtains b where "spawn_process dev k prog s name = Some (Some p, t\<lparr>pool := P, umem := U, io_bus := b, serial_inited := True\<rparr>)"
proof -
  let ?f = "rflags s AND NOT RFLAGS_IF"
  let ?t = "t\<lparr>rflags := ?f, pool := P, umem := U\<rparr>"
  have r: "t = s\<lparr>kmem := kmem t, procs := procs t\<rparr>" by (rule start_process_rest [OF t])
  have "\<not> writer_locked ?t" using dev(2) by (subst r) simp
  then obtain b where b: "kprint_line dev ?t (spawn_message p name (proc_base p) (proc_base p + 0x100000)) = Some (?t\<lparr>io_bus := b, serial_inited := True\<rparr>)"
    using kprint_line_prints [OF dev(1)] by metis
  have fs: "free_slot (s\<lparr>rflags := ?f\<rparr>) = Some p" using p(1) by (simp add: free_slot_def proc_at_def)
  have same: "s\<lparr>rflags := ?f, pool := pool s, umem := umem s\<rparr> = s\<lparr>rflags := ?f\<rparr>" by (cases s) simp
  have st: "start_process k (s\<lparr>rflags := ?f, pool := P, umem := U\<rparr>) p (proc_base p) name = Some ?t" by (simp add: start_process_frame t)
  have "spawn_process_locked dev k prog (s\<lparr>rflags := ?f\<rparr>) name = Some (Some p, ?t\<lparr>io_bus := b, serial_inited := True\<rparr>)"
    unfolding spawn_process_locked_def using m(2) st b
    by (cases "r = None") (simp_all add: pt fs proc_base_facts [OF p(2)] m(1) same)
  moreover have "rflags t = rflags s" by (subst r) simp
  ultimately have "spawn_process dev k prog s name = Some (Some p, t\<lparr>pool := P, umem := U, io_bus := b, serial_inited := True\<rparr>)"
    by (cases t) (simp add: spawn_process_def irq_save_def irq_restore_def Let_def)
  then show thesis by (rule that)
qed

definition in_slot :: "u32 \<Rightarrow> usize \<Rightarrow> bool" where
  "in_slot p va \<longleftrightarrow> unat (proc_base p) \<le> unat va \<and> unat va < unat (proc_base p) + 0x200000"

lemma slot_mapped_view:
  assumes p: "unat p < 16" and m: "pages_mapped prog rt (proc_base p) (user_pages prog (proc_base p)) s t" and len: "length prog \<le> 2 ^ 20"
    and fresh: "\<forall>va. in_slot p va \<longrightarrow> translate (pool s) (PageTable rt) va = Some None"
  shows "i < length prog \<Longrightarrow> \<exists>pa. translate (pool t) (PageTable rt) (proc_base p + word_of_nat i) = Some (Some pa) \<and> umem t pa = prog ! i"
    "0 < j \<Longrightarrow> j \<le> 4096 \<Longrightarrow> \<exists>pa. translate (pool t) (PageTable rt) (proc_base p + 0x101000 - j) = Some (Some pa)"
    "\<not> in_slot p va \<Longrightarrow> translate (pool t) (PageTable rt) va = translate (pool s) (PageTable rt) va"
    "in_slot p va \<Longrightarrow> translate (pool t) (PageTable rt) va = Some (Some pa) \<Longrightarrow> user_page (pool t) rt va 3 \<and> frame_of pa \<in> taken s t \<and>
      (\<forall>va'. in_slot p va' \<and> translate (pool t) (PageTable rt) va' = Some (Some pa) \<longrightarrow> va' = va)"
proof -
  let ?cv = "proc_base p"
  note cv = proc_base_facts(5,6) [OF p]
  note D = pages_mappedD [OF m]
  have page: "(unat ?cv + i) div 4096 = unat ?cv div 4096 + i div 4096" for i
    by (rule div_plus_div_distrib_dvd_left) (use cv(1) in \<open>simp add: dvd_eq_mod_eq_0\<close>)
  show "\<exists>pa. translate (pool t) (PageTable rt) (?cv + word_of_nat i) = Some (Some pa) \<and> umem t pa = prog ! i" if i: "i < length prog"
  proof -
    have "unat (word_of_nat i :: usize) = i" using i len by (simp add: unat_of_nat)
    then have u: "unat (?cv + word_of_nat i) = unat ?cv + i" using i len cv(2) by (subst unat_add_no_wrap) simp_all
    have "i div 4096 < code_pages prog" using i by (simp add: code_pages_def)
    then have "unat (?cv + word_of_nat i) div 4096 \<in> user_pages prog ?cv" by (simp add: user_pages_def u page)
    then show ?thesis using D(1) [of "?cv + word_of_nat i"] i by (auto simp: u)
  qed
  show "\<exists>pa. translate (pool t) (PageTable rt) (?cv + 0x101000 - j) = Some (Some pa)" if "0 < j" "j \<le> 4096"
  proof -
    have "unat (?cv + 0x101000) = unat ?cv + 0x101000" using cv(2) by (subst unat_add_no_wrap) simp_all
    moreover have j: "0 < unat j" "unat j \<le> 4096" using that by (simp_all add: word_less_nat_alt word_le_nat_alt)
    ultimately have "unat (?cv + 0x101000 - j) = unat ?cv + (0x101000 - unat j)" by (subst unat_sub) (simp_all add: word_le_nat_alt)
    moreover have "(0x101000 - unat j) div 4096 = 256" using j by (intro div_nat_eqI) simp_all
    ultimately have "unat (?cv + 0x101000 - j) div 4096 = unat ?cv div 4096 + 256" by (simp only: page)
    then have "unat (?cv + 0x101000 - j) div 4096 \<in> user_pages prog ?cv" by (simp add: user_pages_def)
    then show ?thesis using D(1) [of "?cv + 0x101000 - j"] by blast
  qed
  show "translate (pool t) (PageTable rt) va = translate (pool s) (PageTable rt) va" if o: "\<not> in_slot p va"
  proof -
    have "unat va div 4096 < unat ?cv div 4096" if "unat va < unat ?cv"
      using that cv(1) by (simp add: div_less_iff_less_mult dvd_div_mult_self dvd_eq_mod_eq_0)
    moreover have "unat ?cv div 4096 + 512 \<le> unat va div 4096" if v: "unat ?cv + 0x200000 \<le> unat va"
      using div_le_mono [OF v, of 4096] by (simp add: page)
    ultimately have "unat va div 4096 < unat ?cv div 4096 \<or> unat ?cv div 4096 + 512 \<le> unat va div 4096" using o by (force simp: in_slot_def)
    then have "unat va div 4096 \<notin> user_pages prog ?cv" using code_pages_bounds(3) [OF len] by (auto simp: user_pages_def)
    then show ?thesis by (rule D(2))
  qed
  show "user_page (pool t) rt va 3 \<and> frame_of pa \<in> taken s t \<and>
      (\<forall>va'. in_slot p va' \<and> translate (pool t) (PageTable rt) va' = Some (Some pa) \<longrightarrow> va' = va)"
    if v: "in_slot p va" "translate (pool t) (PageTable rt) va = Some (Some pa)"
  proof -
    have up: "unat w div 4096 \<in> user_pages prog ?cv" if "in_slot p w" "translate (pool t) (PageTable rt) w = Some (Some pa)" for w
      using D(2) [of w] fresh that by force
    have "va' = va" if "in_slot p va'" "translate (pool t) (PageTable rt) va' = Some (Some pa)" for va'
      using m up [OF that] up [OF v] that(2) v(2) unfolding pages_mapped_def by metis
    then show ?thesis using D(1) [OF up [OF v]] v(2) by auto
  qed
qed

lemma harness_only [simp]:
  "sched_inv lay (s\<lparr>pool := P, umem := U, io_bus := b, serial_inited := x\<rparr>) = sched_inv lay s"
  "lives (s\<lparr>pool := P, umem := U, io_bus := b, serial_inited := x\<rparr>) = lives s"
  "proc_context (s\<lparr>pool := P, umem := U, io_bus := b, serial_inited := x\<rparr>) i = proc_context s i" for s :: harness
  by (simp_all add: sched_inv_def procs_ok_def parked_def on_cpu_def lives_def proc_context_def parked_context_def context_of_def saved_frame_def)

text \<open>What a successful spawn does to the processes, and that it leaves the rest alone.\<close>

definition spawned :: "stack_layout \<Rightarrow> u32 \<Rightarrow> harness \<Rightarrow> harness \<Rightarrow> bool" where
  "spawned lay p s t \<longleftrightarrow> sched_inv lay t \<and> lives t = insert (unat p) (lives s) \<and> (\<forall>i\<in>lives s. proc_context t i = proc_context s i) \<and>
     proc_context t (unat p) = initial_frame p (proc_base p) \<and>
     t = s\<lparr>kmem := kmem t, procs := procs t, pool := pool t, umem := umem t, io_bus := io_bus t, serial_inited := True\<rparr>"

lemma start_spawned:
  assumes "layout_ok lay" "sched_inv lay s" "cur s = 0" "free_slot s = Some p"
  obtains t where "unat p < 16" "start_process (kstacks lay) s p (proc_base p) name = Some t"
    "\<forall>P U b. spawned lay p s (t\<lparr>pool := P, umem := U, io_bus := b, serial_inited := True\<rparr>)"
proof -
  note ret = that
  have len: "length (procs s) = 16" using assms(2) by (simp add: sched_inv_def procs_ok_def)
  have p16: "unat p < 16" using free_slot_Some [OF assms(4) len] by simp
  obtain t where t: "start_process (kstacks lay) s p (proc_base p) name = Some t" "sched_inv lay t" "lives t = insert (unat p) (lives s)"
    "\<And>i. i \<in> lives s \<Longrightarrow> proc_context t i = proc_context s i" "proc_context t (unat p) = initial_frame p (proc_base p)"
    by (rule start_process_inv [OF assms]) blast
  have "t = s\<lparr>kmem := kmem t, procs := procs t\<rparr>" by (rule start_process_rest [OF t(1)])
  then have eq: "t\<lparr>pool := P, umem := U, io_bus := b, serial_inited := True\<rparr> =
      s\<lparr>kmem := kmem t, procs := procs t, pool := P, umem := U, io_bus := b, serial_inited := True\<rparr>" for P U b by (cases s; cases t) simp
  have "spawned lay p s (t\<lparr>pool := P, umem := U, io_bus := b, serial_inited := True\<rparr>)" for P U b
    unfolding spawned_def harness_only by (intro conjI ballI t(2-5); simp) (rule eq)
  then show thesis using p16 t(1) by (intro ret allI)
qed

lemma spawn_fresh:
  assumes lay: "layout_ok lay" "sched_inv lay s" "cur s = 0" and p: "free_slot s = Some p" and dev: "uart_drains dev" "\<not> writer_locked s"
    and pt: "kernel_pt s = Some (PageTable rt)" "vm_ok (pool s) rt" "unmapped_free (pool s)"
    and prog: "0 < length prog" "length prog \<le> 2 ^ 20" "4 * Suc (code_pages prog) \<le> card (free_frames (pool s))"
    and fresh: "\<forall>va. in_slot p va \<longrightarrow> translate (pool s) (PageTable rt) va = Some None"
  obtains t m where "spawn_process dev (kstacks lay) prog s name = Some (Some p, t)" "spawned lay p s t" "pool t = pool m" "umem t = umem m" "unat p < 16"
    "pages_mapped prog rt (proc_base p) (user_pages prog (proc_base p)) (s\<lparr>rflags := rflags s AND NOT RFLAGS_IF\<rparr>) m"
proof -
  note ret = that
  let ?s = "s\<lparr>rflags := rflags s AND NOT RFLAGS_IF\<rparr>"
  obtain t where t: "unat p < 16" "start_process (kstacks lay) s p (proc_base p) name = Some t"
    "\<forall>P U b. spawned lay p s (t\<lparr>pool := P, umem := U, io_bus := b, serial_inited := True\<rparr>)" by (rule start_spawned [OF lay p])
  obtain m where m: "map_program prog (PageTable rt) (proc_base p) (proc_base p + 0x100000) ?s = Some (True, m)" "pages_mapped prog rt (proc_base p) (user_pages prog (proc_base p)) ?s m"
    by (rule map_program_maps [of ?s rt prog "proc_base p"]) (use pt prog fresh proc_base_facts(5,6) [OF t(1)] in \<open>auto simp: in_slot_def\<close>)
  have "m = ?s\<lparr>pool := pool m, umem := umem m\<rparr>" using m(2) by (simp only: pages_mapped_def)
  moreover have "translate (pool s) (PageTable rt) (proc_base p) = Some None" using fresh by (simp add: in_slot_def)
  ultimately obtain io where sp: "spawn_process dev (kstacks lay) prog s name = Some (Some p, t\<lparr>pool := pool m, umem := umem m, io_bus := io, serial_inited := True\<rparr>)"
    using spawn_runs [OF dev p t(1) pt(1) t(2), of None "pool m" "umem m" prog] m(1) by auto
  show thesis by (rule ret [OF sp]) (use t(1,3) m(2) in simp_all)
qed

lemma spawn_reuse:
  assumes lay: "layout_ok lay" "sched_inv lay s" "cur s = 0" and p: "free_slot s = Some p" and dev: "uart_drains dev" "\<not> writer_locked s"
    and pt: "kernel_pt s = Some pt" "translate (pool s) pt (proc_base p) = Some (Some pa)"
  obtains t where "spawn_process dev (kstacks lay) prog s name = Some (Some p, t)" "spawned lay p s t" "pool t = pool s" "umem t = umem s"
proof -
  note ret = that
  obtain t where t: "unat p < 16" "start_process (kstacks lay) s p (proc_base p) name = Some t"
    "\<forall>P U b. spawned lay p s (t\<lparr>pool := P, umem := U, io_bus := b, serial_inited := True\<rparr>)" by (rule start_spawned [OF lay p])
  obtain io where sp: "spawn_process dev (kstacks lay) prog s name = Some (Some p, t\<lparr>pool := pool s, umem := umem s, io_bus := io, serial_inited := True\<rparr>)"
    by (rule spawn_runs [OF dev p t(1) pt(1) t(2) pt(2)]) simp_all
  show thesis by (rule ret [OF sp]) (use t(3) in simp_all)
qed

lemma spawned_flags: "spawned lay p s t \<Longrightarrow> rflags t = rflags s"
  unfolding spawned_def by (elim conjE) (erule ssubst, simp)

text \<open>C11: Starting a program in a slot whose address range is unmapped, with four free frames for each of its pages and
  for its stack page, returns its pid and composes the pool, the page table and the scheduler. Every byte of the program is
  at its address from the slot's base on, in the physical memory the page table translates that address to; the 4096 bytes
  below the initial stack pointer are mapped; every mapped page of the slot can be read and written from ring 3
  (the entries on its path carry USER and WRITABLE), lies in a frame taken from the pool for it, and no two addresses of the slot share a byte. No address outside the slot changes its
  translation, no page that ring 3 could write is lost to it, and no frame that was not free changes its bytes. The
  scheduler gains exactly that process, ready to enter the program in ring 3, with every other process's context as it was.
  The interrupt flag is what it was.\<close>

theorem spawn_process_correct:
  assumes lay: "layout_ok lay" "sched_inv lay s" "cur s = 0" and p: "free_slot s = Some p" and dev: "uart_drains dev" "\<not> writer_locked s"
    and pt: "kernel_pt s = Some (PageTable rt)" "vm_ok (pool s) rt" "unmapped_free (pool s)"
    and prog: "0 < length prog" "length prog \<le> 2 ^ 20" "4 * Suc (code_pages prog) \<le> card (free_frames (pool s))"
    and fresh: "\<forall>va. in_slot p va \<longrightarrow> translate (pool s) (PageTable rt) va = Some None"
  shows "\<exists>t. spawn_process dev (kstacks lay) prog s name = Some (Some p, t) \<and> sched_inv lay t \<and> lives t = insert (unat p) (lives s) \<and>
    (\<forall>i\<in>lives s. proc_context t i = proc_context s i) \<and> proc_context t (unat p) = initial_frame p (proc_base p) \<and>
    (\<forall>i < length prog. \<exists>pa. translate (pool t) (PageTable rt) (proc_base p + word_of_nat i) = Some (Some pa) \<and> umem t pa = prog ! i) \<and>
    (\<forall>i. 0 < i \<and> i \<le> 4096 \<longrightarrow> (\<exists>pa. translate (pool t) (PageTable rt) (f_user_rsp (initial_frame p (proc_base p)) - i) = Some (Some pa))) \<and>
    (\<forall>va pa. in_slot p va \<and> translate (pool t) (PageTable rt) va = Some (Some pa) \<longrightarrow>
      user_page (pool t) rt va 3 \<and> frame_of pa \<in> free_frames (pool s) - free_frames (pool t) \<and>
      (\<forall>va'. in_slot p va' \<and> translate (pool t) (PageTable rt) va' = Some (Some pa) \<longrightarrow> va' = va)) \<and>
    (\<forall>va. \<not> in_slot p va \<longrightarrow> translate (pool t) (PageTable rt) va = translate (pool s) (PageTable rt) va) \<and>
    user_kept (pool s) (pool t) rt \<and> (\<forall>pa. frame_of pa \<notin> free_frames (pool s) \<longrightarrow> umem t pa = umem s pa) \<and>
    vm_ok (pool t) rt \<and> unmapped_free (pool t) \<and> rflags t = rflags s"
proof -
  let ?s = "s\<lparr>rflags := rflags s AND NOT RFLAGS_IF\<rparr>"
  obtain t m where t: "spawn_process dev (kstacks lay) prog s name = Some (Some p, t)" "spawned lay p s t" "pool t = pool m" "umem t = umem m" "unat p < 16"
    "pages_mapped prog rt (proc_base p) (user_pages prog (proc_base p)) ?s m"
    by (rule spawn_fresh [OF lay p dev pt prog fresh])
  have ok: "vm_ok (pool m) rt" "unmapped_free (pool m)" "user_kept (pool s) (pool m) rt" using t(6) by (simp_all add: pages_mapped_def)
  have tk: "taken ?s m = free_frames (pool s) - free_frames (pool m)" by (simp add: taken_def)
  have "\<forall>va. in_slot p va \<longrightarrow> translate (pool ?s) (PageTable rt) va = Some None" using fresh by simp
  note v = slot_mapped_view [OF t(5,6) prog(2) this, unfolded tk]
  have um: "umem m pa = umem s pa" if "frame_of pa \<notin> free_frames (pool s)" for pa
    using pages_mappedD(3) [OF t(6), of pa] that by (simp add: tk)
  have "f_user_rsp (initial_frame p (proc_base p)) = proc_base p + 0x101000" by (simp add: initial_frame_def proc_base_def kconsts)
  moreover have "\<forall>va pa. in_slot p va \<and> translate (pool m) (PageTable rt) va = Some (Some pa) \<longrightarrow>
      user_page (pool m) rt va 3 \<and> frame_of pa \<in> free_frames (pool s) - free_frames (pool m) \<and>
      (\<forall>va'. in_slot p va' \<and> translate (pool m) (PageTable rt) va' = Some (Some pa) \<longrightarrow> va' = va)" using v(4) by blast
  ultimately show ?thesis using t(1-4) ok v(1-3) um spawned_flags [OF t(2)] by (intro exI [of _ t]) (simp add: spawned_def)
qed

text \<open>C39: A slot whose code address is already mapped is started as it is: the spawn succeeds and gives the scheduler the
  new process, but neither the page table nor user memory changes. In particular a stack page that is not mapped stays
  unmapped.\<close>

theorem spawn_reuses_slot:
  assumes lay: "layout_ok lay" "sched_inv lay s" "cur s = 0" and p: "free_slot s = Some p" and dev: "uart_drains dev" "\<not> writer_locked s"
    and pt: "kernel_pt s = Some pt" "translate (pool s) pt (proc_base p) = Some (Some pa)"
  shows "\<exists>t. spawn_process dev (kstacks lay) prog s name = Some (Some p, t) \<and> sched_inv lay t \<and> lives t = insert (unat p) (lives s) \<and>
    (\<forall>i\<in>lives s. proc_context t i = proc_context s i) \<and> proc_context t (unat p) = initial_frame p (proc_base p) \<and>
    pool t = pool s \<and> umem t = umem s \<and> rflags t = rflags s"
proof -
  obtain t where t: "spawn_process dev (kstacks lay) prog s name = Some (Some p, t)" "spawned lay p s t" "pool t = pool s" "umem t = umem s"
    by (rule spawn_reuse [OF lay p dev pt])
  show ?thesis using t spawned_flags [OF t(2)] by (intro exI [of _ t]) (simp add: spawned_def)
qed

definition roomy_pmm :: pmm where
  "roomy_pmm = example_pmm\<lparr>ft_num := 256, infos := (\<lambda>_. zero_info\<lparr>owner_word := raw FREE\<rparr>), shards := replicate 64 empty_shard, global := empty_shard\<rparr>"

definition example_harness :: "pmm \<Rightarrow> u32 \<Rightarrow> harness" where
  "example_harness P rt = kernel.extend example_booted
     (harness.fields P example_heap (Some (PageTable rt)) (\<lambda>_. 0) False False)"

lemma roomy_pool: "\<exists>P l g. pmm_inv P l g \<and> card (free_frames P) = 256 \<and> ft_num P = 256 \<and> phys_map_base P = 0xFFFF800000000000 \<and>
    (\<forall>f. mapping_count (infos P f) = 0)"
proof -
  have t: "table_ok roomy_pmm" by (simp add: table_ok_def physmap_covers_def) (simp add: roomy_pmm_def example_pmm_def)
  have f: "fresh_lists roomy_pmm" by (simp add: fresh_lists_def roomy_pmm_def)
  have fr: "free_frames roomy_pmm = {f. unat f < 256}" by (auto simp: free_frames_def in_table_iff roomy_pmm_def)
  have "card (unat ` {f :: u32. unat f < 256}) = card {f :: u32. unat f < 256}" by (rule card_image) (simp add: inj_on_def word_unat_eq_iff)
  moreover have "unat ` {f :: u32. unat f < 256} = {..<256}"
  proof (intro set_eqI iffI)
    fix n :: nat assume "n \<in> {..<256}"
    then have "n = unat (word_of_nat n :: u32)" "unat (word_of_nat n :: u32) < 256" by (simp_all add: unat_of_nat)
    then show "n \<in> unat ` {f :: u32. unat f < 256}" by blast
  qed auto
  ultimately have c: "card (free_frames roomy_pmm) = 256" using fr by simp
  obtain P where P: "pmm_inv P [] (free_list roomy_pmm)" "infos P = infos roomy_pmm" "links_only roomy_pmm P (free_frames roomy_pmm)"
    using build_global_freelist_correct [OF t f] by blast
  have "free_frames P = free_frames roomy_pmm" "ft_num P = 256" "phys_map_base P = 0xFFFF800000000000"
    using P(2,3) by (auto simp: free_frames_def links_only_def in_table_def roomy_pmm_def example_pmm_def)
  moreover have "\<forall>f. mapping_count (infos P f) = 0" unfolding P(2) by (simp add: roomy_pmm_def)
  ultimately show ?thesis using P(1) c by (intro exI conjI) simp_all
qed

lemma roomy_space: "\<exists>rt s. vm_ok s rt \<and> unmapped_free s \<and> card (free_frames s) = 255 \<and> (\<forall>va. resolve s rt va 3 = None)"
proof -
  obtain P l g where P: "pmm_inv P l g" "card (free_frames P) = 256" "ft_num P = 256" "\<forall>f. mapping_count (infos P f) = 0" using roomy_pool by blast
  then have "unat (ft_num P) \<le> 2 ^ 24" "free_frames P \<noteq> {}" by auto
  from pt_new_ok [OF P(1) this] obtain rt s where s: "vm_ok s rt" "\<forall>va. resolve s rt va 3 = None" "rt \<in> free_frames P" "free_frames s = free_frames P - {rt}"
    "\<forall>f. mapping_count (infos s f) = mapping_count (infos P f)" by blast
  have "unmapped_free s" using s(5) P(4) by (simp add: unmapped_free_def)
  moreover have "card (free_frames s) = 255" using s(3,4) P(2) by simp
  ultimately show ?thesis using s(1,2) by blast
qed

lemma example_harness_sched:
  "sched_inv example_stacks (example_harness P rt)" "cur (example_harness P rt) = 0" "free_slot (example_harness P rt) = Some 1" "lives (example_harness P rt) = {0}"
  "kernel_pt (example_harness P rt) = Some (PageTable rt)" "pool (example_harness P rt) = P" "\<not> writer_locked (example_harness P rt)"
proof -
  have si: "sched_inv example_stacks example_booted" using kernel_boot_good [OF example_kernel_boots] by (simp add: kernel_good_def kernel_inv_def)
  have sel: "procs (example_harness P rt) = procs example_booted" "current (example_harness P rt) = current example_booted"
    "kmem (example_harness P rt) = kmem example_booted" "tss_s (example_harness P rt) = tss_s example_booted" "context_of (example_harness P rt) = context_of example_booted"
    by (simp_all add: example_harness_def kernel.defs context_of_def saved_frame_def)
  then show "sched_inv example_stacks (example_harness P rt)" using si by (simp add: sched_inv_def procs_ok_def parked_def on_cpu_def)
  show "free_slot (example_harness P rt) = Some 1" using example_slot sel by (simp add: free_slot_def proc_at_def)
  show "cur (example_harness P rt) = 0" "lives (example_harness P rt) = {0}"
    using sel by (auto simp: example_booted_def init_idle_def update_proc_def example_kernel_def lives_def UNUSED_def live_def nth_list_update)
qed (simp_all add: example_harness_def kernel.defs harness.defs)

theorem spawn_process_correct_witness:
  "\<exists>P rt t pa. unmapped_free P \<and> spawn_process ready_device (kstacks example_stacks) [0xEB, 0xFE] (example_harness P rt) [97] = Some (Some 1, t) \<and>
    lives t = {0, 1} \<and> translate (pool t) (PageTable rt) (proc_base 1) = Some (Some pa) \<and> umem t pa = 0xEB \<and> user_page (pool t) rt (proc_base 1) 3"
proof -
  obtain rt P where P: "vm_ok P rt" "unmapped_free P" "card (free_frames P) = 255" "\<forall>va. resolve P rt va 3 = None" using roomy_space by blast
  let ?s = "example_harness P rt"
  note e = example_harness_sched [of P rt]
  have lay: "layout_ok example_stacks" using kernel_boot_good [OF example_kernel_boots] by (simp add: kernel_good_def)
  have inv: "vm_inv P rt" using P(1) by (simp add: vm_ok_def)
  have fresh: "\<forall>va. in_slot 1 va \<longrightarrow> translate (pool ?s) (PageTable rt) va = Some None"
    using translate_none [OF inv] P(4) is_canonical_low proc_base_facts(4) [of 1] by (simp add: e(6) in_slot_def)
  have ok: "vm_ok (pool ?s) rt" "unmapped_free (pool ?s)" "4 * Suc (code_pages [0xEB, 0xFE]) \<le> card (free_frames (pool ?s))"
    using P(1-3) by (simp_all add: e(6) code_pages_def)
  have "0 < length [0xEB, 0xFE :: u8]" "length [0xEB, 0xFE :: u8] \<le> 2 ^ 20" by simp_all
  from spawn_process_correct [OF lay e(1-3) ready_drains e(7,5) ok(1,2) this ok(3) fresh, of "[97]"]
  obtain t where t: "spawn_process ready_device (kstacks example_stacks) [0xEB, 0xFE] ?s [97] = Some (Some 1, t)" "lives t = insert (unat (1 :: u32)) (lives ?s)"
    and b: "\<forall>i < length [0xEB, 0xFE :: u8]. \<exists>pa. translate (pool t) (PageTable rt) (proc_base 1 + word_of_nat i) = Some (Some pa) \<and> umem t pa = [0xEB, 0xFE] ! i"
    and u: "\<forall>va pa. in_slot 1 va \<and> translate (pool t) (PageTable rt) va = Some (Some pa) \<longrightarrow> user_page (pool t) rt va 3"
    by blast
  have l: "lives t = {0, 1}" using t(2) by (simp add: e(4) insert_commute)
  from b [THEN spec, of 0] obtain pa where pa: "translate (pool t) (PageTable rt) (proc_base 1) = Some (Some pa)" "umem t pa = 0xEB" by auto
  have "user_page (pool t) rt (proc_base 1) 3" using u pa(1) by (auto simp: in_slot_def)
  with t(1) l pa P(2) show ?thesis by blast
qed

text \<open>Below, only the code page of slot 1 is mapped, as when the pool ran dry before the stack frame: the process that
  starts there has no stack page.\<close>

theorem spawn_reuses_slot_witness:
  "\<exists>P rt t. spawn_process ready_device (kstacks example_stacks) [0xEB, 0xFE] (example_harness P rt) [97] = Some (Some 1, t) \<and>
    proc_context t 1 = initial_frame 1 (proc_base 1) \<and>
    translate (pool t) (PageTable rt) (f_user_rsp (initial_frame 1 (proc_base 1)) - 8) = Some None"
proof -
  obtain rt P where P: "vm_ok P rt" "unmapped_free P" "card (free_frames P) = 255" "\<forall>va. resolve P rt va 3 = None" using roomy_space by blast
  have inv: "vm_inv P rt" using P(1) by (simp add: vm_ok_def)
  have b: "unat (proc_base 1) = 0x80200000" using proc_base_facts(4) [of 1] by simp
  have c: "is_canonical (proc_base 1)" "proc_base 1 mod 4096 = 0" using b is_canonical_low by (simp_all add: word_unat_eq_iff unat_mod)
  have sp: "f_user_rsp (initial_frame 1 (proc_base 1)) - 8 = 0x80300FF8" by (simp add: initial_frame_def kconsts)
  have un: "translate P (PageTable rt) va = Some None" if "is_canonical va" for va using translate_none [OF inv that] P(4) by simp
  have four: "4 \<le> card (free_frames P)" using P(3) by simp
  obtain f q Q where Q: "vm_ok Q rt" "\<forall>va'. translate Q (PageTable rt) va' = (if is_canonical va' \<and> va' div 4096 = proc_base 1 div 4096 then
      Some (Some (frame_phys f + (va' AND 0xfff))) else translate P (PageTable rt) va')"
    using map_page [OF P(1,2) four c un [OF c(1)]] by metis
  have k: "is_canonical 0x80300FF8" by (rule is_canonical_low) simp
  have st: "translate Q (PageTable rt) 0x80300FF8 = Some None" using Q(2) un [OF k] b by (simp add: word_unat_eq_iff unat_div)
  let ?s = "example_harness Q rt"
  note e = example_harness_sched [of Q rt]
  have lay: "layout_ok example_stacks" using kernel_boot_good [OF example_kernel_boots] by (simp add: kernel_good_def)
  have "translate (pool ?s) (PageTable rt) (proc_base 1) = Some (Some (frame_phys f + (proc_base 1 AND 0xfff)))" using Q(2) c(1) by (simp add: e(6))
  from spawn_reuses_slot [OF lay e(1-3) ready_drains e(7,5) this, of "[0xEB, 0xFE]" "[97]"]
  obtain t where "spawn_process ready_device (kstacks example_stacks) [0xEB, 0xFE] ?s [97] = Some (Some 1, t)"
    "proc_context t 1 = initial_frame 1 (proc_base 1)" "pool t = Q" by (auto simp: e(6))
  then show ?thesis using st unfolding sp by blast
qed

end
