(* ===== verification/Shell.thy ===== *)
theory Shell
  imports Harness_Spawn
begin

text \<open>
  The shell (\<^verbatim>\<open>boot/src/shell.rs\<close>): the line editor, the commands and the loop around them. Characters come as bytes from
  the keyboard ring or the serial line, so a Rust \<^verbatim>\<open>char\<close> here is at most \<^verbatim>\<open>U+00FF\<close> and a \<^verbatim>\<open>String\<close> is a \<open>string\<close>;
  what is printed is its UTF-8 encoding. The memory of strings and vectors comes from the heap through the
  \<^verbatim>\<open>alloc\<close> crate and is not part of this model. The two fault demos end in the trap the processor raises,
  \<^verbatim>\<open>halt\<close> in the state in which the loop around \<^verbatim>\<open>hlt\<close> begins. \<open>execute\<close> runs a command line undisturbed; \<open>shell_step\<close> is
  the loop cut at the points where an interrupt can come in between, and \<open>execute_steps\<close> relates the two.
\<close>

section \<open>Characters and strings\<close>

definition MAX_LINE :: nat where "MAX_LINE = 127"

definition is_ascii_graphic :: "char \<Rightarrow> bool" where
  "is_ascii_graphic c = (let b = u8_of_char c in 0x21 \<le> b \<and> b \<le> 0x7E)"

definition is_whitespace :: "char \<Rightarrow> bool" where
  "is_whitespace c = (let b = u8_of_char c in 9 \<le> b \<and> b \<le> 13 \<or> b = 0x20 \<or> b = 0x85 \<or> b = 0xA0)"

definition utf8_char :: "char \<Rightarrow> u8 list" where
  "utf8_char c = (let b = u8_of_char c in if b < 0x80 then [b] else [0xC0 OR drop_bit 6 b, 0x80 OR (b AND 0x3F)])"

definition utf8 :: "string \<Rightarrow> u8 list" where
  "utf8 s = concat (map utf8_char s)"

text \<open>The standard library's \<^verbatim>\<open>split_whitespace\<close>, \<^verbatim>\<open>join\<close>, \<^verbatim>\<open>trim\<close> and \<^verbatim>\<open>str::parse::<u32>\<close> (an optional plus sign, at
  least one digit, no overflow).\<close>

function split_whitespace :: "string \<Rightarrow> string list" where
  "split_whitespace xs =
    (case dropWhile is_whitespace xs of
       [] \<Rightarrow> []
     | y # ys \<Rightarrow> (y # takeWhile (\<lambda>c. \<not> is_whitespace c) ys) # split_whitespace (dropWhile (\<lambda>c. \<not> is_whitespace c) ys))"
  by pat_completeness auto

termination
proof (relation "measure length")
  show "(dropWhile (\<lambda>c. \<not> is_whitespace c) ys, xs) \<in> measure length" if "dropWhile is_whitespace xs = y # ys" for xs y ys
    using length_dropWhile_le [of is_whitespace xs] length_dropWhile_le [of "\<lambda>c. \<not> is_whitespace c" ys] that by simp
qed simp

fun join :: "string \<Rightarrow> string list \<Rightarrow> string" where
  "join sep [] = []"
| "join sep [x] = x"
| "join sep (x # y # ys) = x @ sep @ join sep (y # ys)"

definition trim :: "string \<Rightarrow> string" where
  "trim s = rev (dropWhile is_whitespace (rev (dropWhile is_whitespace s)))"

definition to_digit :: "char \<Rightarrow> u32 option" where
  "to_digit c = (let b = u8_of_char c in if 0x30 \<le> b \<and> b \<le> 0x39 then Some (ucast (b - 0x30)) else None)"

fun parse_digits :: "u32 \<Rightarrow> string \<Rightarrow> u32 option" where
  "parse_digits acc [] = Some acc"
| "parse_digits acc (c # xs) = do {
     d \<leftarrow> to_digit c;
     m \<leftarrow> umul acc 10;
     a \<leftarrow> uadd m d;
     parse_digits a xs
   }"

definition parse_u32 :: "string \<Rightarrow> u32 option" where
  "parse_u32 s =
    (let ds = (case s of c # xs \<Rightarrow> if c = CHR ''+'' then xs else s | [] \<Rightarrow> [])
     in if ds = [] then None else parse_digits 0 ds)"

text \<open>\<^verbatim>\<open>core::str::from_utf8\<close> accepts exactly the well-formed sequences.\<close>

definition continuation :: "u8 \<Rightarrow> bool" where
  "continuation b = (b AND 0xC0 = 0x80)"

fun utf8_valid :: "u8 list \<Rightarrow> bool" where
  "utf8_valid [] = True"
| "utf8_valid (b # bs) =
    (if b < 0x80 then utf8_valid bs
     else if b < 0xC2 then False
     else if b < 0xE0 then (case bs of c # r \<Rightarrow> continuation c \<and> utf8_valid r | _ \<Rightarrow> False)
     else if b < 0xF0 then
       (case bs of c # d # r \<Rightarrow> continuation c \<and> continuation d \<and> (b \<noteq> 0xE0 \<or> 0xA0 \<le> c) \<and> (b \<noteq> 0xED \<or> c < 0xA0) \<and> utf8_valid r | _ \<Rightarrow> False)
     else if b < 0xF5 then
       (case bs of c # d # e # r \<Rightarrow> continuation c \<and> continuation d \<and> continuation e \<and> (b \<noteq> 0xF0 \<or> 0x90 \<le> c) \<and> (b \<noteq> 0xF4 \<or> c < 0x90) \<and> utf8_valid r
        | _ \<Rightarrow> False)
     else False)"

declare split_whitespace.simps [simp del]

section \<open>The line editor\<close>

definition edit_line :: "device \<Rightarrow> harness \<Rightarrow> string \<Rightarrow> char \<Rightarrow> (bool \<times> string \<times> harness) option" where
  "edit_line dev s line c =
    (if c = CHR 0x0A \<or> c = CHR 0x0D then do { s \<leftarrow> kprint dev s [13, 10]; Some (True, line, s) }
     else if c = CHR 0x08 \<or> c = CHR 0x7F then
       if line \<noteq> [] then do { s \<leftarrow> kprint dev s [8, 32, 8]; Some (False, butlast line, s) } else Some (False, line, s)
     else if is_ascii_graphic c \<or> c = CHR '' '' then
       if length (utf8 line) < MAX_LINE then do { s \<leftarrow> kprint dev s (utf8_char c); Some (False, line @ [c], s) } else Some (False, line, s)
     else Some (False, line, s))"

section \<open>Commands\<close>

datatype outcome = Returned harness | Trap nat harness | Halted harness

definition DEMO_VA :: usize where "DEMO_VA = 0xFFFF900010000000"

text \<open>The write goes through the MMU: an address the tables do not translate raises a page fault, any other is written
  at the physical address of the walk.\<close>

definition demo_write :: "device \<Rightarrow> harness \<Rightarrow> outcome option" where
  "demo_write dev s = do {
     pt \<leftarrow> kernel_pt s;
     r \<leftarrow> translate (pool s) pt DEMO_VA;
     case r of
       None \<Rightarrow> Some (Trap 14 s)
     | Some pa \<Rightarrow> do {
         va \<leftarrow> phys_to_virt (pool s) pa;
         s \<leftarrow> kprint_line dev (s\<lparr>pool := (pool s)\<lparr>mem := (mem (pool s))(va := 0x12345678)\<rparr>\<rparr>) (bytes ''exception demo: NO EXCEPTION (IDT broken!)'');
         Some (Returned s)
       }
   }"

definition exception_demo :: "device \<Rightarrow> harness \<Rightarrow> outcome option" where
  "exception_demo dev s = do {
     s \<leftarrow> kprint_line dev s (bytes ''exception demo: writing to unmapped VA 0xFFFF_9000_1000_0000'');
     demo_write dev s
   }"

text \<open>With no stack to push the frame of the \<^verbatim>\<open>ud2\<close> on, the processor raises a double fault.\<close>

definition demo_ud2 :: "harness \<Rightarrow> outcome option" where
  "demo_ud2 s = do {
     pt \<leftarrow> kernel_pt s;
     let s = s\<lparr>rsp := DEMO_VA\<rparr>;
     r \<leftarrow> translate (pool s) pt (rsp s - 8);
     Some (Trap (if r = None then 8 else 6) s)
   }"

definition double_fault_demo :: "device \<Rightarrow> harness \<Rightarrow> outcome option" where
  "double_fault_demo dev s = do {
     s \<leftarrow> kprint_line dev s (bytes ''double fault demo: clobbering RSP to an unmapped VA, then ud2'');
     demo_ud2 s
   }"

fun print_lines :: "device \<Rightarrow> harness \<Rightarrow> u8 list list \<Rightarrow> harness option" where
  "print_lines dev s [] = Some s"
| "print_lines dev s (l # ls) = do { s \<leftarrow> kprint_line dev s l; print_lines dev s ls }"

definition ps_line :: "proc_desc \<Rightarrow> u8 list" where
  "ps_line d =
    (let name = rev (dropWhile (\<lambda>b. b = 0) (rev (if utf8_valid (d_name d) then d_name d else bytes ''<bad>'')));
         state = (if d_running d then ''running'' else ''ready'')
     in bytes (''  pid '' @ dec (d_pid d) @ ''  '' @ state @ replicate (8 - length state) CHR '' '' @ '' '') @ name)"

definition ps :: "device \<Rightarrow> harness \<Rightarrow> harness option" where
  "ps dev s = do {
     let ds = snapshot s (unat MAX_PROCESSES);
     s \<leftarrow> kprint_line dev s (bytes (dec (word_of_nat (length ds) :: usize) @ '' process(es):''));
     print_lines dev s (map ps_line ds)
   }"

definition shell_help :: "device \<Rightarrow> harness \<Rightarrow> harness option" where
  "shell_help dev s = kprint_line dev s (bytes ''commands: help, echo <text>, info, ticks, spawn [name], ps, kill <pid>, fault, double, halt'')"

definition info :: "device \<Rightarrow> harness \<Rightarrow> harness option" where
  "info dev s = do {
     free \<leftarrow> free_frame_count (pool s);
     let allocated = heap_allocated (kheap s);
     let total = heap_total (kheap s);
     kprint_line dev s (bytes (''frames free: '' @ dec free @ ''   heap: '' @ dec allocated @ ''/'' @ dec total))
   }"

definition spawn_command :: "device \<Rightarrow> usize \<Rightarrow> u8 list \<Rightarrow> harness \<Rightarrow> string \<Rightarrow> harness option" where
  "spawn_command dev kstk prog s rest = do {
     let name = (if rest = [] then ''proc'' else rest);
     (r, s) \<leftarrow> spawn_process dev kstk prog s (utf8 name);
     case r of
       Some p \<Rightarrow> kprint_line dev s (utf8 (''started pid '' @ dec p @ '' ('' @ [CHR 0x27] @ name @ [CHR 0x27] @ '')''))
     | None \<Rightarrow> kprint_line dev s (bytes ''spawn failed: no free slot or out of memory'')
   }"

definition kill_command :: "device \<Rightarrow> harness \<Rightarrow> string \<Rightarrow> harness option" where
  "kill_command dev s rest =
    (if rest = [] then kprint_line dev s (bytes ''usage: kill <pid>'')
     else case parse_u32 (trim rest) of
       Some p \<Rightarrow>
         (case kill s p of (done, s) \<Rightarrow>
            if done then kprint_line dev s (bytes (''pid '' @ dec p @ '' killed''))
            else kprint_line dev s (bytes (''kill '' @ dec p @ '': not a live process'')))
     | None \<Rightarrow> kprint_line dev s (bytes ''kill: pid must be a number''))"

definition execute :: "device \<Rightarrow> usize \<Rightarrow> u8 list \<Rightarrow> harness \<Rightarrow> string \<Rightarrow> outcome option" where
  "execute dev kstk prog s line =
    (case split_whitespace line of
       [] \<Rightarrow> Some (Returned s)
     | cmd # parts \<Rightarrow>
         let rest = join '' '' parts
         in if cmd = ''help'' then map_option Returned (shell_help dev s)
            else if cmd = ''echo'' then map_option Returned (kprint_line dev s (utf8 rest))
            else if cmd = ''info'' then map_option Returned (info dev s)
            else if cmd = ''ticks'' then map_option Returned (kprint_line dev s (bytes (''ticks = '' @ dec (ticks s))))
            else if cmd = ''spawn'' then map_option Returned (spawn_command dev kstk prog s rest)
            else if cmd = ''ps'' then map_option Returned (ps dev s)
            else if cmd = ''kill'' then map_option Returned (kill_command dev s rest)
            else if cmd = ''fault'' then exception_demo dev s
            else if cmd = ''double'' then double_fault_demo dev s
            else if cmd = ''halt'' \<or> cmd = ''exit'' \<or> cmd = ''shutdown'' then Some (Halted s)
            else map_option Returned (kprint_line dev s (utf8 (''unknown command '' @ [CHR 0x27] @ cmd @ [CHR 0x27] @ '' (type '' @ [CHR 0x27] @ ''help'' @ [CHR 0x27] @ '')''))))"

section \<open>The loop\<close>

definition prompt :: "device \<Rightarrow> harness \<Rightarrow> harness option" where
  "prompt dev s = kprint dev s (bytes ''rolnix> '')"

text \<open>Printing a line is one critical section with interrupts off, and so are \<^verbatim>\<open>spawn_process\<close>, \<^verbatim>\<open>snapshot\<close>, \<^verbatim>\<open>poll_char\<close> and the read from
  the serial line; between them an interrupt can come in and another process can run. A command is a call into the
  kernel, then the lines it prints, then what it ends in.\<close>

datatype finish = Back | Demo_write | Demo_ud2 | Stop

definition dispatch :: "device \<Rightarrow> usize \<Rightarrow> u8 list \<Rightarrow> harness \<Rightarrow> string \<Rightarrow> (u8 list list \<times> finish \<times> harness) option" where
  "dispatch dev kstk prog s line =
    (case split_whitespace line of
       [] \<Rightarrow> Some ([], Back, s)
     | cmd # parts \<Rightarrow>
         let rest = join '' '' parts
         in if cmd = ''help'' then Some ([bytes ''commands: help, echo <text>, info, ticks, spawn [name], ps, kill <pid>, fault, double, halt''], Back, s)
            else if cmd = ''echo'' then Some ([utf8 rest], Back, s)
            else if cmd = ''info'' then do {
              free \<leftarrow> free_frame_count (pool s);
              Some ([bytes (''frames free: '' @ dec free @ ''   heap: '' @ dec (heap_allocated (kheap s)) @ ''/'' @ dec (heap_total (kheap s)))], Back, s)
            }
            else if cmd = ''ticks'' then Some ([bytes (''ticks = '' @ dec (ticks s))], Back, s)
            else if cmd = ''spawn'' then do {
              let name = (if rest = [] then ''proc'' else rest);
              (r, s) \<leftarrow> spawn_process dev kstk prog s (utf8 name);
              Some ([case r of Some p \<Rightarrow> utf8 (''started pid '' @ dec p @ '' ('' @ [CHR 0x27] @ name @ [CHR 0x27] @ '')'')
                     | None \<Rightarrow> bytes ''spawn failed: no free slot or out of memory''], Back, s)
            }
            else if cmd = ''ps'' then
              let ds = snapshot s (unat MAX_PROCESSES)
              in Some (bytes (dec (word_of_nat (length ds) :: usize) @ '' process(es):'') # map ps_line ds, Back, s)
            else if cmd = ''kill'' then
              if rest = [] then Some ([bytes ''usage: kill <pid>''], Back, s)
              else (case parse_u32 (trim rest) of
                Some p \<Rightarrow>
                  (case kill s p of (done, s) \<Rightarrow>
                     Some ([bytes (if done then ''pid '' @ dec p @ '' killed'' else ''kill '' @ dec p @ '': not a live process'')], Back, s))
              | None \<Rightarrow> Some ([bytes ''kill: pid must be a number''], Back, s))
            else if cmd = ''fault'' then Some ([bytes ''exception demo: writing to unmapped VA 0xFFFF_9000_1000_0000''], Demo_write, s)
            else if cmd = ''double'' then Some ([bytes ''double fault demo: clobbering RSP to an unmapped VA, then ud2''], Demo_ud2, s)
            else if cmd = ''halt'' \<or> cmd = ''exit'' \<or> cmd = ''shutdown'' then Some ([], Stop, s)
            else Some ([utf8 (''unknown command '' @ [CHR 0x27] @ cmd @ [CHR 0x27] @ '' (type '' @ [CHR 0x27] @ ''help'' @ [CHR 0x27] @ '')'')], Back, s))"

definition finish_command :: "device \<Rightarrow> finish \<Rightarrow> harness \<Rightarrow> outcome option" where
  "finish_command dev k s =
    (case k of Back \<Rightarrow> Some (Returned s) | Demo_write \<Rightarrow> demo_write dev s | Demo_ud2 \<Rightarrow> demo_ud2 s | Stop \<Rightarrow> Some (Halted s))"

text \<open>Where the shell is: about to print the prompt, to poll the keyboard ring, to poll the serial line, to take a character,
  to execute the line, to print what is left of a command's output, or in \<^verbatim>\<open>halt\<close> (which interrupts still leave).\<close>

datatype shell_pc = At_prompt | At_keyboard | At_serial | At_edit char | At_execute | At_print "u8 list list" finish | At_halt

datatype shell_move = Goes string shell_pc harness | Faults nat harness

definition shell_step :: "device \<Rightarrow> usize \<Rightarrow> u8 list \<Rightarrow> string \<Rightarrow> shell_pc \<Rightarrow> harness \<Rightarrow> shell_move option" where
  "shell_step dev kstk prog line pc s =
    (case pc of
       At_prompt \<Rightarrow> do { s \<leftarrow> prompt dev s; Some (Goes [] At_keyboard s) }
     | At_keyboard \<Rightarrow> do {
         (c, s, k) \<leftarrow> poll_char s (kbd_s s);
         Some (Goes line (case c of Some c \<Rightarrow> At_edit c | None \<Rightarrow> At_serial) (s\<lparr>kbd_s := k\<rparr>))
       }
     | At_serial \<Rightarrow> do {
         (b, s) \<leftarrow> with_serial s (\<lambda>h. Some (try_read dev h));
         Some (Goes line (case b of Some b \<Rightarrow> At_edit (char_of_u8 b) | None \<Rightarrow> At_keyboard) s)
       }
     | At_edit c \<Rightarrow> do {
         (enter, line, s) \<leftarrow> edit_line dev s line c;
         Some (Goes line (if enter then At_execute else At_keyboard) s)
       }
     | At_execute \<Rightarrow> do {
         (ls, k, s) \<leftarrow> dispatch dev kstk prog s line;
         Some (Goes line (At_print ls k) s)
       }
     | At_print ls k \<Rightarrow>
         (case ls of
            l # ls \<Rightarrow> do { s \<leftarrow> kprint_line dev s l; Some (Goes line (At_print ls k) s) }
          | [] \<Rightarrow> do {
              r \<leftarrow> finish_command dev k s;
              Some (case r of Returned s \<Rightarrow> Goes line At_prompt s | Trap n s \<Rightarrow> Faults n s | Halted s \<Rightarrow> Goes line At_halt s)
            })
     | At_halt \<Rightarrow> Some (Goes line At_halt s))"

section \<open>Properties of the editor\<close>

lemma kprint_line_kprint: "kprint_line dev s str = kprint dev s (str @ [10])"
  by (simp add: kprint_line_def kprint_def)

lemma kprint_prints:
  assumes "uart_drains dev" "\<not> writer_locked s"
  obtains b where "kprint dev s str = Some (s\<lparr>io_bus := b, serial_inited := True\<rparr>)"
    "sent b = sent (if serial_inited s then io_bus s else serial_init (io_bus s)) @ crlf str"
proof -
  let ?h = "if serial_inited s then io_bus s else serial_init (io_bus s)"
  obtain b where b: "serial_write_str dev ?h str = Some b" "sent b = sent ?h @ crlf str"
    using write_str_sends [OF assms(1)] by metis
  moreover have "kprint dev s str = Some (s\<lparr>io_bus := b, serial_inited := True\<rparr>)"
    using b(1) assms(2) by (cases s) (simp add: kprint_def with_serial_def irq_save_def irq_restore_def rassert_def Let_def split: if_splits)
  ultimately show thesis by (intro that)
qed

definition printable :: "char \<Rightarrow> bool" where
  "printable c \<longleftrightarrow> is_ascii_graphic c \<or> c = CHR '' ''"

definition line_ok :: "string \<Rightarrow> bool" where
  "line_ok line \<longleftrightarrow> length line \<le> 127 \<and> (\<forall>c\<in>set line. printable c)"

definition is_enter :: "char \<Rightarrow> bool" where
  "is_enter c \<longleftrightarrow> c = CHR 0x0A \<or> c = CHR 0x0D"

text \<open>What a character does to the line: erase the last one, or append a printable one while there is room.\<close>

definition edit :: "string \<Rightarrow> char \<Rightarrow> string" where
  "edit line c =
    (if c = CHR 0x08 \<or> c = CHR 0x7F then butlast line
     else if printable c \<and> length line < 127 then line @ [c] else line)"

text \<open>A terminal, right of the prompt: what is left of the cursor (nearest first) and what is from the cursor on. A
  backspace moves left, any other byte is shown at the cursor.\<close>

definition term_put :: "u8 list \<times> u8 list \<Rightarrow> u8 \<Rightarrow> u8 list \<times> u8 list" where
  "term_put = (\<lambda>(l, r) b. if b = 8 then (case l of [] \<Rightarrow> (l, r) | x # l' \<Rightarrow> (l', x # r)) else (b # l, tl r))"

definition displays :: "u8 list \<times> u8 list \<Rightarrow> string \<Rightarrow> bool" where
  "displays = (\<lambda>(l, r) line. rev l = bytes line \<and> set r \<subseteq> {32})"

lemma printable_bounds: "printable c \<longleftrightarrow> 0x20 \<le> u8_of_char c \<and> u8_of_char c \<le> 0x7E"
proof -
  have "c = CHR '' '' \<longleftrightarrow> u8_of_char c = 0x20"
  proof
    have "char_of_u8 0x20 = CHR '' ''" by code_simp
    then show "c = CHR '' ''" if "u8_of_char c = 0x20" using that char_of_u8_of_char [of c] by simp
  qed (simp add: u8_of_char_def of_char_def)
  then show ?thesis by (auto simp: printable_def is_ascii_graphic_def Let_def word_le_nat_alt word_unat_eq_iff)
qed

lemma utf8_printable: "printable c \<Longrightarrow> utf8_char c = [u8_of_char c]"
  by (simp add: printable_bounds utf8_char_def Let_def word_le_nat_alt word_less_nat_alt)

lemma utf8_line: "(\<forall>c\<in>set line. printable c) \<Longrightarrow> utf8 line = bytes line"
  by (induction line) (simp_all add: utf8_def bytes_def utf8_printable)

lemma edit_ok: "line_ok line \<Longrightarrow> line_ok (edit line c)"
  by (auto simp: line_ok_def edit_def dest: in_set_butlastD)

lemma crlf_plain: "10 \<notin> set xs \<Longrightarrow> crlf xs = xs"
  by (induction xs) auto

lemma bytes_butlast: "bytes (butlast line) = butlast (bytes line)"
  by (simp add: bytes_def map_butlast)

text \<open>One character: the line is edited and its echo keeps the terminal in step.\<close>

lemma edit_line_step:
  assumes dev: "uart_drains dev" "\<not> writer_locked s" "serial_inited s" and ok: "line_ok line" and c: "\<not> is_enter c"
  obtains b echo where "edit_line dev s line c = Some (False, edit line c, s\<lparr>io_bus := b\<rparr>)" "sent b = sent (io_bus s) @ echo"
    "\<And>T. displays T line \<Longrightarrow> displays (foldl term_put T echo) (edit line c)"
proof -
  note ret = that
  have same: "s\<lparr>io_bus := b, serial_inited := True\<rparr> = s\<lparr>io_bus := b\<rparr>" for b using dev(3) by (cases s) simp
  have len: "length (utf8 line) = length line" using ok by (simp add: utf8_line line_ok_def bytes_def)
  consider (erase) "c = CHR 0x08 \<or> c = CHR 0x7F" "line \<noteq> []" | (add) "\<not> (c = CHR 0x08 \<or> c = CHR 0x7F)" "printable c" "length line < 127"
    | (keep) "edit line c = line" "edit_line dev s line c = Some (False, line, s)"
    using c len by (cases "c = CHR 0x08 \<or> c = CHR 0x7F"; cases "line = []"; cases "printable c"; cases "length line < 127")
      (simp_all add: edit_line_def edit_def printable_def MAX_LINE_def is_enter_def)
  then show thesis
  proof cases
    case erase
    obtain b where b: "kprint dev s [8, 32, 8] = Some (s\<lparr>io_bus := b\<rparr>)" "sent b = sent (io_bus s) @ [8, 32, 8]"
      using kprint_prints [OF dev(1,2), of "[8, 32, 8]"] dev(3) same by (auto simp: word_unat_eq_iff)
    have "displays (foldl term_put T [8, 32, 8]) (butlast line)" if d: "displays T line" for T
    proof -
      obtain l r where T: "T = (l, r)" "rev l = bytes line" "set r \<subseteq> {32}" using d by (cases T) (auto simp: displays_def)
      then obtain x l' where "l = x # l'" using erase(2) by (cases l) (auto simp: bytes_def)
      then show ?thesis using T by (simp add: displays_def term_put_def bytes_butlast flip: T(2))
    qed
    then show ?thesis using b erase c by (intro ret [of b "[8, 32, 8]"]) (auto simp: edit_line_def edit_def is_enter_def)
  next
    case add
    let ?b = "u8_of_char c"
    have n: "?b \<noteq> 8" "?b \<noteq> 10" using add(2) by (auto simp: printable_bounds word_le_nat_alt)
    obtain b where b: "kprint dev s [?b] = Some (s\<lparr>io_bus := b\<rparr>)" "sent b = sent (io_bus s) @ [?b]"
      using kprint_prints [OF dev(1,2), of "[?b]"] dev(3) same n by auto
    have "displays (foldl term_put T [?b]) (line @ [c])" if "displays T line" for T
      using that n by (cases T; cases "snd T") (auto simp: displays_def term_put_def bytes_def)
    then show ?thesis using b add c by (intro ret [of b "[?b]"]) (auto simp: edit_line_def edit_def is_enter_def utf8_printable len MAX_LINE_def printable_def)
  next
    case keep
    have "s\<lparr>io_bus := io_bus s\<rparr> = s" by (cases s) simp
    then show ?thesis using keep by (intro ret [of "io_bus s" "[]"]) simp_all
  qed
qed

text \<open>The characters of a line, one after the other.\<close>

fun feed :: "device \<Rightarrow> harness \<Rightarrow> string \<Rightarrow> char list \<Rightarrow> (bool \<times> string \<times> harness) option" where
  "feed dev s line [] = Some (False, line, s)"
| "feed dev s line (c # xs) = do {
     (enter, line, s) \<leftarrow> edit_line dev s line c;
     if enter then Some (True, line, s) else feed dev s line xs
   }"

lemma feed_edits:
  assumes "uart_drains dev" "\<not> writer_locked s" "serial_inited s" "line_ok line" "\<forall>c\<in>set xs. \<not> is_enter c"
  shows "\<exists>b echo. feed dev s line xs = Some (False, foldl edit line xs, s\<lparr>io_bus := b\<rparr>) \<and> sent b = sent (io_bus s) @ echo \<and>
    (\<forall>T. displays T line \<longrightarrow> displays (foldl term_put T echo) (foldl edit line xs))"
  using assms(2-5)
proof (induction xs arbitrary: s line)
  case Nil
  have "s\<lparr>io_bus := io_bus s\<rparr> = s" by (cases s) simp
  then show ?case by (intro exI [of _ "io_bus s"] exI [of _ "[]"]) simp
next
  case (Cons c xs)
  obtain b e where b: "edit_line dev s line c = Some (False, edit line c, s\<lparr>io_bus := b\<rparr>)" "sent b = sent (io_bus s) @ e"
    "\<And>T. displays T line \<Longrightarrow> displays (foldl term_put T e) (edit line c)"
    using edit_line_step [OF assms(1) Cons.prems(1-3)] Cons.prems(4) by (metis list.set_intros(1))
  obtain b' e' where b': "feed dev (s\<lparr>io_bus := b\<rparr>) (edit line c) xs = Some (False, foldl edit (edit line c) xs, s\<lparr>io_bus := b\<rparr>\<lparr>io_bus := b'\<rparr>)"
    "sent b' = sent (io_bus (s\<lparr>io_bus := b\<rparr>)) @ e'" "\<forall>T. displays T (edit line c) \<longrightarrow> displays (foldl term_put T e') (foldl edit (edit line c) xs)"
    using Cons.IH [of "s\<lparr>io_bus := b\<rparr>" "edit line c"] Cons.prems edit_ok by auto
  have "displays (foldl term_put T (e @ e')) (foldl edit line (c # xs))" if "displays T line" for T
    using b(3) [OF that] b'(3) by (simp del: split_paired_All)
  then show ?case using b(1,2) b'(1,2) by (intro exI [of _ b'] exI [of _ "e @ e'"]) simp
qed

lemma feed_append: "feed dev s line xs = Some (False, l, t) \<Longrightarrow> feed dev s line (xs @ ys) = feed dev t l ys"
  by (induction xs arbitrary: s line) (auto simp: bind_eq_Some_conv split: if_splits)

text \<open>C29: The line being edited is always at most 127 printable ASCII characters, whatever comes in over the keyboard and the
  serial line: editing never panics, the line is what the characters edit, and the bytes echoed make a terminal
  that stood right behind the prompt show exactly this line with the cursor at its end. Enter hands over the line.\<close>

theorem line_editor_correct:
  assumes "uart_drains dev" "\<not> writer_locked s" "serial_inited s" "\<forall>c\<in>set xs. \<not> is_enter c" "is_enter e"
  shows "\<exists>t u echo. feed dev s [] xs = Some (False, foldl edit [] xs, t) \<and> line_ok (foldl edit [] xs) \<and>
    sent (io_bus t) = sent (io_bus s) @ echo \<and> displays (foldl term_put ([], []) echo) (foldl edit [] xs) \<and>
    feed dev s [] (xs @ [e]) = Some (True, foldl edit [] xs, u)"
proof -
  have ok: "line_ok []" "displays ([], []) []" by (simp_all add: line_ok_def displays_def bytes_def)
  obtain b echo where b: "feed dev s [] xs = Some (False, foldl edit [] xs, s\<lparr>io_bus := b\<rparr>)" "sent b = sent (io_bus s) @ echo"
    "displays (foldl term_put ([], []) echo) (foldl edit [] xs)"
    using feed_edits [OF assms(1-3) ok(1) assms(4)] ok(2) by blast
  have "line_ok (foldl edit l xs)" if "line_ok l" for l using that by (induction xs arbitrary: l) (simp_all add: edit_ok)
  then have "line_ok (foldl edit [] xs)" using ok(1) by blast
  moreover obtain b' where "kprint dev (s\<lparr>io_bus := b\<rparr>) [13, 10] = Some (s\<lparr>io_bus := b', serial_inited := True\<rparr>)"
    by (rule kprint_prints [OF assms(1), of "s\<lparr>io_bus := b\<rparr>" "[13, 10]"]) (use assms(2) in simp_all)
  then have "feed dev s [] (xs @ [e]) = Some (True, foldl edit [] xs, s\<lparr>io_bus := b', serial_inited := True\<rparr>)"
    using assms(5) by (simp add: feed_append [OF b(1)] edit_line_def is_enter_def)
  ultimately show ?thesis using b by fastforce
qed

theorem line_editor_correct_witness:
  "\<exists>t u echo. feed ready_device (example_harness example_pmm 0\<lparr>serial_inited := True\<rparr>) [] [CHR ''p'', CHR 0x1B, CHR ''x'', CHR 0x7F, CHR ''s''] = Some (False, ''ps'', t) \<and>
    displays (foldl term_put ([], []) echo) ''ps'' \<and>
    feed ready_device (example_harness example_pmm 0\<lparr>serial_inited := True\<rparr>) [] ([CHR ''p'', CHR 0x1B, CHR ''x'', CHR 0x7F, CHR ''s''] @ [CHR 0x0D]) = Some (True, ''ps'', u)"
proof -
  let ?s = "example_harness example_pmm 0\<lparr>serial_inited := True\<rparr>" and ?xs = "[CHR ''p'', CHR 0x1B, CHR ''x'', CHR 0x7F, CHR ''s'']"
  have e: "foldl edit [] ?xs = ''ps''" by code_simp
  have "\<not> writer_locked ?s" "serial_inited ?s" using example_harness_sched(7) by simp_all
  from line_editor_correct [OF ready_drains this, of ?xs "CHR 0x0D", unfolded e] show ?thesis by (auto simp: is_enter_def)
qed

section \<open>Properties of the commands\<close>

lemma digit_facts:
  assumes "d < 10"
  shows "to_digit (digit d) = Some (word_of_nat d)" "digit d \<noteq> CHR ''+''" "\<not> is_whitespace (digit d)"
proof -
  have u: "unat (u8_of_char (digit d)) = 48 + d" using assms by (simp add: unat_u8_of_char digit_def)
  have "unat (u8_of_char (digit d) - 0x30) = d" using u by (subst unat_sub) (simp_all add: word_le_nat_alt)
  then have "(ucast (u8_of_char (digit d) - 0x30) :: u32) = word_of_nat d" using assms by (simp add: word_unat_eq_iff unat_ucast_up unat_of_nat)
  then show "to_digit (digit d) = Some (word_of_nat d)" using u assms by (simp add: to_digit_def Let_def word_le_nat_alt)
  show "digit d \<noteq> CHR ''+''"
  proof
    assume "digit d = CHR ''+''"
    then have "unat (u8_of_char (digit d)) = 43" by (simp add: unat_u8_of_char of_char_def)
    then show False using u by simp
  qed
  show "\<not> is_whitespace (digit d)" using u assms by (auto simp: is_whitespace_def Let_def word_le_nat_alt)
qed

lemma digits_set: "c \<in> set (digits 10 n) \<Longrightarrow> \<exists>d<10. c = digit d"
  by (induction "10 :: nat" n rule: digits.induct) (subst (asm) (2) digits.simps, auto split: if_splits, metis mod_less_divisor zero_less_numeral)

lemma parse_digits_dec:
  assumes "n < 2 ^ 32"
  shows "parse_digits 0 (digits 10 n @ xs) = parse_digits (word_of_nat n) xs"
  using assms
proof (induction "10 :: nat" n arbitrary: xs rule: digits.induct)
  case (1 n)
  show ?case
  proof (cases "n < 10")
    case True
    then show ?thesis by (subst digits.simps) (simp add: digit_facts umul_def uadd_def unat_of_nat)
  next
    case False
    have b: "n div 10 * 10 + n mod 10 = n" by simp
    have lt: "n div 10 * 10 < 2 ^ 32" "n div 10 * 10 + n mod 10 < 2 ^ 32" using 1(2) b by linarith+
    have u: "unat (word_of_nat (n div 10) :: u32) = n div 10" "unat (word_of_nat (n mod 10) :: u32) = n mod 10" using 1(2) by (simp_all add: unat_of_nat)
    have m: "unat (word_of_nat (n div 10) * 10 :: u32) = n div 10 * 10" using u(1) 1(2) by (subst unat_mult_no_wrap) simp_all
    have "parse_digits 0 (digits 10 n @ xs) = parse_digits (word_of_nat (n div 10)) (digit (n mod 10) # xs)"
      using 1(1) [of "digit (n mod 10) # xs"] False 1(2) by (subst digits.simps) simp
    also have "\<dots> = parse_digits (word_of_nat (n div 10) * 10 + word_of_nat (n mod 10)) xs"
      using lt by (simp add: digit_facts umul_def uadd_def u m)
    also have "word_of_nat (n div 10) * 10 + word_of_nat (n mod 10) = (word_of_nat (n div 10 * 10 + n mod 10) :: u32)"
      by (simp only: of_nat_add of_nat_mult of_nat_numeral)
    also have "n div 10 * 10 + n mod 10 = n" by (rule b)
    finally show ?thesis .
  qed
qed

lemma digits_nonempty: "digits b n \<noteq> []"
  by (subst digits.simps) simp

lemma dec_nonspace: "c \<in> set (dec p) \<Longrightarrow> \<not> is_whitespace c \<and> c \<noteq> CHR ''+''"
  unfolding dec_def by (drule digits_set) (auto simp: digit_facts)

lemma parse_dec: "parse_u32 (dec p) = Some p"
proof -
  have n: "dec p \<noteq> []" by (simp add: dec_def digits_nonempty)
  have "parse_digits 0 (dec p) = Some p" using parse_digits_dec [of "unat p" "[]"] unsigned_less [of p] by (simp add: dec_def)
  then show ?thesis using n dec_nonspace [of "hd (dec p)" p] by (cases "dec p") (simp_all add: parse_u32_def)
qed

lemma dropWhile_none: "(\<forall>x\<in>set xs. \<not> P x) \<Longrightarrow> dropWhile P xs = xs"
  by (cases xs) auto

lemma trim_plain: "(\<forall>c\<in>set s. \<not> is_whitespace c) \<Longrightarrow> trim s = s"
  by (simp add: trim_def dropWhile_none)

lemma split_two:
  assumes "\<forall>c\<in>set a. \<not> is_whitespace c" "\<forall>c\<in>set b. \<not> is_whitespace c" "a \<noteq> []" "b \<noteq> []"
  shows "split_whitespace (a @ CHR '' '' # b) = [a, b]"
proof -
  have sp: "is_whitespace CHR '' ''" by code_simp
  obtain x a' where a: "a = x # a'" using assms(3) by (cases a) auto
  obtain y b' where b: "b = y # b'" using assms(4) by (cases b) auto
  have "split_whitespace (a @ CHR '' '' # b) = a # split_whitespace (CHR '' '' # b)"
    using assms(1) sp by (subst split_whitespace.simps) (simp add: a takeWhile_append dropWhile_append)
  also have "split_whitespace (CHR '' '' # b) = b # split_whitespace []"
  proof -
    have d: "dropWhile (\<lambda>c. \<not> is_whitespace c) b' = []" using assms(2) by (simp add: b dropWhile_eq_Nil_conv)
    show ?thesis using assms(2) sp by (subst split_whitespace.simps) (simp add: b d)
  qed
  also have "split_whitespace [] = []" by (simp add: split_whitespace.simps)
  finally show ?thesis .
qed

text \<open>Undisturbed, the steps of the shell do what \<open>execute\<close> does.\<close>

lemma execute_dispatch:
  "execute dev kstk prog s line = do {
     (ls, k, s) \<leftarrow> dispatch dev kstk prog s line;
     s \<leftarrow> print_lines dev s ls;
     finish_command dev k s
   }"
proof (cases "split_whitespace line")
  case Nil
  then show ?thesis by (simp add: execute_def dispatch_def finish_command_def)
next
  case (Cons cmd parts)
  have one: "map_option Returned (kprint_line dev t l) = do { s \<leftarrow> print_lines dev t [l]; finish_command dev Back s }" for t l
    by (simp add: finish_command_def map_option_case bind_eq_Some_conv split: Option.bind_split)
  let ?E = "execute dev kstk prog s line" and ?D = "do { (ls, k, s) \<leftarrow> dispatch dev kstk prog s line; s \<leftarrow> print_lines dev s ls; finish_command dev k s }"
  consider (info) "cmd = ''info''" | (spawn) "cmd = ''spawn''" | (ps) "cmd = ''ps''" | (kill) "cmd = ''kill''" | (fault) "cmd = ''fault''" | (double) "cmd = ''double''"
    | (stop) "cmd = ''halt'' \<or> cmd = ''exit'' \<or> cmd = ''shutdown''"
    | (other) "cmd \<notin> {''info'', ''spawn'', ''ps'', ''kill'', ''fault'', ''double'', ''halt'', ''exit'', ''shutdown''}" by auto
  then show ?thesis
  proof cases
    case info
    then show ?thesis by (cases "free_frame_count (pool s)") (simp_all add: execute_def dispatch_def Cons info_def one)
  next
    case spawn
    then show ?thesis
      by (cases "spawn_process dev kstk prog s (utf8 (if join '' '' parts = [] then ''proc'' else join '' '' parts))")
        (simp_all add: execute_def dispatch_def Cons spawn_command_def Let_def one split: prod.split option.split)
  next
    case ps
    have ret: "map_option Returned m = do { s \<leftarrow> m; Some (Returned s) }" for m by (cases m) simp_all
    show ?thesis using ps by (simp add: execute_def dispatch_def Cons ps_def Let_def finish_command_def ret)
  next
    case kill
    then show ?thesis by (auto simp add: execute_def dispatch_def Cons kill_command_def Let_def one split: option.splits prod.splits if_splits)
  next
    case fault
    then show ?thesis by (simp add: execute_def dispatch_def Cons exception_demo_def finish_command_def)
  next
    case double
    then show ?thesis by (simp add: execute_def dispatch_def Cons double_fault_demo_def finish_command_def)
  next
    case stop
    then show ?thesis by (elim disjE) (simp_all add: execute_def dispatch_def Cons finish_command_def)
  next
    case other
    then show ?thesis by (auto simp add: execute_def dispatch_def Cons Let_def one shell_help_def)
  qed
qed

definition shell_goes :: "device \<Rightarrow> usize \<Rightarrow> u8 list \<Rightarrow> string \<times> shell_pc \<times> harness \<Rightarrow> string \<times> shell_pc \<times> harness \<Rightarrow> bool" where
  "shell_goes dev kstk prog = (\<lambda>(line, pc, s) (line', pc', t). shell_step dev kstk prog line pc s = Some (Goes line' pc' t))"

definition runs_to :: "device \<Rightarrow> usize \<Rightarrow> u8 list \<Rightarrow> harness \<Rightarrow> string \<Rightarrow> outcome \<Rightarrow> bool" where
  "runs_to dev kstk prog s line r \<longleftrightarrow>
    (let reaches = (shell_goes dev kstk prog)\<^sup>*\<^sup>* (line, At_execute, s) in
     case r of
       Returned t \<Rightarrow> reaches (line, At_prompt, t)
     | Trap n t \<Rightarrow> \<exists>pc u. reaches (line, pc, u) \<and> shell_step dev kstk prog line pc u = Some (Faults n t)
     | Halted t \<Rightarrow> reaches (line, At_halt, t))"

lemma print_steps:
  "print_lines dev s ls = Some t \<Longrightarrow> (shell_goes dev kstk prog)\<^sup>*\<^sup>* (line, At_print ls k, s) (line, At_print [] k, t)"
proof (induction ls arbitrary: s)
  case (Cons l ls)
  then obtain u where u: "kprint_line dev s l = Some u" "print_lines dev u ls = Some t" by (auto simp: bind_eq_Some_conv)
  have "shell_goes dev kstk prog (line, At_print (l # ls) k, s) (line, At_print ls k, u)" by (simp add: shell_goes_def shell_step_def u(1))
  then show ?case using Cons.IH [OF u(2)] by (rule converse_rtranclp_into_rtranclp)
qed simp

lemma execute_steps:
  assumes "execute dev kstk prog s line = Some r"
  shows "runs_to dev kstk prog s line r"
proof -
  obtain ls k t u where d: "dispatch dev kstk prog s line = Some (ls, k, t)" "print_lines dev t ls = Some u" "finish_command dev k u = Some r"
    using assms unfolding execute_dispatch by (auto simp: bind_eq_Some_conv)
  have "shell_goes dev kstk prog (line, At_execute, s) (line, At_print ls k, t)" by (simp add: shell_goes_def shell_step_def d(1))
  then have go: "(shell_goes dev kstk prog)\<^sup>*\<^sup>* (line, At_execute, s) (line, At_print [] k, u)"
    using print_steps [OF d(2)] by (rule converse_rtranclp_into_rtranclp)
  have st: "shell_step dev kstk prog line (At_print [] k) u =
      Some (case r of Returned s \<Rightarrow> Goes line At_prompt s | Trap n s \<Rightarrow> Faults n s | Halted s \<Rightarrow> Goes line At_halt s)"
    by (simp add: shell_step_def d(3))
  show ?thesis
  proof (cases r)
    case (Trap n v)
    then show ?thesis using go st by (auto simp: runs_to_def)
  qed (use st rtranclp.rtrancl_into_rtrancl [OF go] in \<open>simp_all add: runs_to_def shell_goes_def\<close>)
qed

lemma kill_eq:
  assumes "length (procs s) = 16"
  shows "kill s p = (let hit = p \<noteq> 0 \<and> unat p \<in> lives s in
    (hit, if hit then s\<lparr>procs := (procs s)[unat p := (procs s ! unat p)\<lparr>pstate := Zombie\<rparr>]\<rparr> else s))"
proof -
  have u: "unat (ucast p :: usize) = unat p" by (simp add: unat_ucast_up)
  show ?thesis
    by (cases "pstate (procs s ! unat p)")
      (auto simp: kill_def update_proc_def proc_at_def u word_le_nat_alt kconsts lives_def live_def Let_def)
qed

text \<open>C40: The pid the shell prints, typed behind \<^verbatim>\<open>kill\<close>, is parsed back to exactly this pid. If it is the pid of a live process
  other than the shell, this process becomes a zombie, nothing else in the system changes, and the message says it has
  been killed; for pid 0, a dead process or a number past the table nothing changes at all and the message says that
  it is not a live process.\<close>

theorem kill_by_printed_pid:
  fixes p :: u32
  assumes "uart_drains dev" "\<not> writer_locked s" "serial_inited s" "length (procs s) = 16"
  shows "let hit = (p \<noteq> 0 \<and> unat p \<in> lives s) in \<exists>b. execute dev kstk prog s (''kill '' @ dec p) =
      Some (Returned (if hit then s\<lparr>procs := (procs s)[unat p := (procs s ! unat p)\<lparr>pstate := Zombie\<rparr>], io_bus := b\<rparr> else s\<lparr>io_bus := b\<rparr>)) \<and>
    sent b = sent (io_bus s) @ crlf (bytes ((if hit then ''pid '' @ dec p @ '' killed'' else ''kill '' @ dec p @ '': not a live process'') @ [CHR 0x0A]))"
proof -
  have k: "\<forall>c\<in>set ''kill''. \<not> is_whitespace c" by code_simp
  have d: "\<forall>c\<in>set (dec p). \<not> is_whitespace c" "dec p \<noteq> []" using dec_nonspace by (blast, simp add: dec_def digits_nonempty)
  have sp: "split_whitespace (''kill '' @ dec p) = [''kill'', dec p]" using split_two [OF k d(1) _ d(2)] by simp
  define hit where "hit \<longleftrightarrow> p \<noteq> 0 \<and> unat p \<in> lives s"
  define t where "t = (if hit then s\<lparr>procs := (procs s)[unat p := (procs s ! unat p)\<lparr>pstate := Zombie\<rparr>]\<rparr> else s)"
  have kt: "kill s p = (hit, t)" by (simp add: kill_eq [OF assms(4)] Let_def t_def hit_def)
  have w: "\<not> writer_locked t" "serial_inited t" "io_bus t = io_bus s" using assms(2,3) by (simp_all add: t_def)
  let ?m = "if hit then ''pid '' @ dec p @ '' killed'' else ''kill '' @ dec p @ '': not a live process''"
  obtain b where b: "kprint dev t (bytes ?m @ [10]) = Some (t\<lparr>io_bus := b, serial_inited := True\<rparr>)"
    "sent b = sent (if serial_inited t then io_bus t else serial_init (io_bus t)) @ crlf (bytes ?m @ [10])"
    by (rule kprint_prints [OF assms(1) w(1)])
  have same: "t\<lparr>io_bus := b, serial_inited := True\<rparr> = t\<lparr>io_bus := b\<rparr>" using w(2) by (cases t) simp
  have nl: "bytes ?m @ [10] = bytes (?m @ [CHR 0x0A])" by (simp add: bytes_def u8_of_char_def of_char_def)
  have ex: "execute dev kstk prog s (''kill '' @ dec p) = map_option Returned (kill_command dev s (dec p))" unfolding execute_def sp by simp
  have "kill_command dev s (dec p) = kprint dev t (bytes ?m @ [10])"
    by (simp add: kill_command_def d(2) trim_plain [OF d(1)] parse_dec kt kprint_line_kprint)
  then have "execute dev kstk prog s (''kill '' @ dec p) = Some (Returned (t\<lparr>io_bus := b\<rparr>))" unfolding ex by (simp add: b(1) same)
  moreover have "t\<lparr>io_bus := b\<rparr> = (if hit then s\<lparr>procs := (procs s)[unat p := (procs s ! unat p)\<lparr>pstate := Zombie\<rparr>], io_bus := b\<rparr> else s\<lparr>io_bus := b\<rparr>)"
    by (simp add: t_def)
  moreover have "sent b = sent (io_bus s) @ crlf (bytes (?m @ [CHR 0x0A]))" using b(2) w by (simp only: nl if_True)
  ultimately show ?thesis unfolding Let_def hit_def [symmetric] by (intro exI [of _ b] conjI) (simp only:)
qed

text \<open>Killing a live process, here a ready one in slot 1.\<close>

theorem kill_by_printed_pid_witness:
  "let s = example_harness example_pmm 0\<lparr>serial_inited := True, procs := (replicate 16 UNUSED)[1 := UNUSED\<lparr>pstate := Ready\<rparr>]\<rparr>
   in \<exists>b. execute ready_device 0 [] s ''kill 1'' = Some (Returned (s\<lparr>procs := (replicate 16 UNUSED)[1 := UNUSED\<lparr>pstate := Zombie\<rparr>], io_bus := b\<rparr>)) \<and>
     sent b = sent (io_bus s) @ bytes (''pid 1 killed'' @ [CHR 0x0D, CHR 0x0A])"
proof -
  let ?s = "example_harness example_pmm 0\<lparr>serial_inited := True, procs := (replicate 16 UNUSED)[1 := UNUSED\<lparr>pstate := Ready\<rparr>]\<rparr>"
  have z: "dec (1 :: u32) = ''1''" by code_simp
  have c: "crlf (bytes (''pid 1 killed'' @ [CHR 0x0A])) = bytes (''pid 1 killed'' @ [CHR 0x0D, CHR 0x0A])" by code_simp
  have "\<not> writer_locked ?s" "serial_inited ?s" "length (procs ?s) = 16" using example_harness_sched(7) by simp_all
  note k = kill_by_printed_pid [OF ready_drains this, where p = 1 and kstk = 0 and prog = "[]"]
  have hit: "(1 :: u32) \<noteq> 0 \<and> unat (1 :: u32) \<in> lives ?s" by (simp add: lives_def live_def)
  have s: "''kill '' @ dec (1 :: u32) = ''kill 1''" "''pid '' @ dec (1 :: u32) @ '' killed'' = ''pid 1 killed''" by (simp_all add: z)
  have u: "(procs ?s)[unat (1 :: u32) := (procs ?s ! unat (1 :: u32))\<lparr>pstate := Zombie\<rparr>] = (replicate 16 UNUSED)[1 := UNUSED\<lparr>pstate := Zombie\<rparr>]" by simp
  from k show ?thesis unfolding Let_def simp_thms(21) if_P [OF hit] s c u .
qed

end
