(* ===== verification/Fault.thy ===== *)
theory Fault
  imports Shell
begin

text \<open>
  What happens on an exception: the stub and the handler of \<^verbatim>\<open>kernel/src/idt.rs\<close> with the sink that
  \<^verbatim>\<open>boot/src/main.rs\<close> registers, \<^verbatim>\<open>fault_sink\<close>, which writes the report to the serial line past the lock. The handler
  then halts with interrupts off; \<open>fault_path\<close> ends in the state it halts in.
\<close>

section \<open>Reporting a fault\<close>

definition fault_sink :: "device \<Rightarrow> bus \<Rightarrow> u8 list \<Rightarrow> bus option" where
  "fault_sink dev b bs = raw_write dev b (if utf8_valid bs then bs else bytes ''<non-utf8>'' @ [13, 10])"

definition fault_path :: "device \<Rightarrow> nat \<Rightarrow> u64 \<Rightarrow> u64 \<Rightarrow> harness \<Rightarrow> harness option" where
  "fault_path dev num code cr2 s = do {
     let s = exception_entry (tss_s s) (entries (idt_s s) ! num) num code s;
     b \<leftarrow> handle_exception (Some (\<lambda>r b. fault_sink dev b (bytes r))) (read_frame (kmem s) (rdi s)) cr2 (io_bus s);
     Some (s\<lparr>io_bus := b\<rparr>)
   }"

section \<open>Reports are ASCII\<close>

definition ascii :: "string \<Rightarrow> bool" where
  "ascii s \<longleftrightarrow> (\<forall>c\<in>set s. u8_of_char c < 0x80)"

lemma ascii_append [simp]: "ascii (xs @ ys) \<longleftrightarrow> ascii xs \<and> ascii ys"
  by (auto simp: ascii_def)

lemma ascii_valid: "ascii s \<Longrightarrow> utf8_valid (bytes s)"
  by (induction s) (simp_all add: ascii_def bytes_def)

lemma digits_base: "c \<in> set (digits b n) \<Longrightarrow> 2 \<le> b \<Longrightarrow> \<exists>d<b. c = digit d"
proof (induction b n rule: digits.induct)
  case (1 b n)
  show ?case
  proof (cases "n < b")
    case True
    then show ?thesis using 1(2) by (subst (asm) digits.simps) auto
  next
    case False
    have "n mod b < b" using 1(3) by simp
    moreover have "c \<in> set (digits b (n div b)) \<or> c = digit (n mod b)" using 1(2,3) False by (subst (asm) digits.simps) auto
    moreover have "\<not> (n < b \<or> b < 2)" using 1(3) False by simp
    ultimately show ?thesis using 1(1) 1(3) by blast
  qed
qed

lemma ascii_digits: "2 \<le> b \<Longrightarrow> b \<le> 16 \<Longrightarrow> ascii (digits b n)"
  by (auto simp: ascii_def digit_def word_less_nat_alt unat_u8_of_char dest!: digits_base)

lemma ascii_names: "i < length EXCEPTION_NAMES \<Longrightarrow> ascii (EXCEPTION_NAMES ! i)"
proof -
  have "list_all (list_all (\<lambda>c. u8_of_char c < 0x80)) EXCEPTION_NAMES" by code_simp
  then show "i < length EXCEPTION_NAMES \<Longrightarrow> ascii (EXCEPTION_NAMES ! i)" by (simp add: list_all_length [of "list_all P" for P] ascii_def) (simp add: list_all_iff)
qed

lemma ascii_literal: "list_all (\<lambda>c. u8_of_char c < 0x80) s \<Longrightarrow> ascii s"
  by (simp add: ascii_def list_all_iff)

lemma ascii_reason: "ascii (page_fault_reason code)"
proof -
  have "list_all (list_all (\<lambda>c. u8_of_char c < 0x80)) [''not present, read'', ''protection violation, read'', ''not present, write'',
      ''protection violation, write'', ''not present, instruction fetch'', ''protection violation, instruction fetch'',
      ''not present, write, reserved-bit'', ''not present, write, user-mode'', ''not present, write, user-mode, reserved-bit'',
      ''not present, write, instruction fetch'', ''unspecified'']" by code_simp
  then show ?thesis unfolding page_fault_reason_def Let_def list.pred_inject by (simp add: ascii_literal)
qed

lemma ascii_numbers: "ascii (hex w)" "ascii (dec v)" "ascii (dec02 v)"
proof -
  show "ascii (dec v)" by (simp add: dec_def ascii_digits)
  moreover have "ascii (replicate n CHR ''0'')" for n by (rule ascii_literal) (simp add: list_all_iff u8_of_char_def of_char_def)
  ultimately show "ascii (dec02 v)" by (simp add: dec02_def Let_def)
  have "ascii ''0x''" by (rule ascii_literal) code_simp
  then show "ascii (hex w)" unfolding hex_def ascii_append by (simp add: ascii_digits)
qed

lemma ascii_report: "ascii (exception_report f cr2)"
proof -
  have lit: "ascii CRLF" "ascii ''EXCEPTION #''" "ascii '' ''" "ascii ''reserved''" "ascii '' (''" "ascii ''): cr2=''" "ascii '': error_code=''" "ascii []"
    "ascii ''  rip=''" "ascii '' cs=''" "ascii '' rflags=''" "ascii '' rsp=''" "ascii ''  rax=''" "ascii '' rbx=''" "ascii '' rbp=''" "ascii '' rdi=''"
    by (rule ascii_literal, code_simp)+
  have name: "ascii (if unat (f_vector f) < length EXCEPTION_NAMES then EXCEPTION_NAMES ! unat (f_vector f) else ''reserved'')" using ascii_names lit(4) by simp
  have arg: "ascii (if f_vector f = 14 then '' ('' @ page_fault_reason (f_error_code f) @ ''): cr2='' @ hex cr2
      else if f_error_code f \<noteq> 0 then '': error_code='' @ hex (f_error_code f) else [])"
    by (simp only: ascii_append lit ascii_numbers ascii_reason simp_thms split: if_split)
  show ?thesis unfolding exception_report_def Let_def by (simp only: ascii_append lit ascii_numbers name arg simp_thms)
qed

text \<open>Whatever the vector, the error code and CR2, the whole report reaches the serial line, and the handler halts with interrupts
  off.\<close>

definition fault_frame :: "nat \<Rightarrow> u64 \<Rightarrow> harness \<Rightarrow> interrupt_frame" where
  "fault_frame num code s =
    (saved_frame (word_of_nat num) (frame_at (exception_stack (tss_s s) (entries (idt_s s) ! num) s)) s)\<lparr>f_error_code := if pushes_code num then code else 0\<rparr>"

lemma fault_path_reports:
  assumes dev: "uart_drains dev" and n: "num < 32"
  shows "\<exists>u. fault_path dev num code cr2 s = Some u \<and> \<not> interrupts_enabled u \<and>
    sent (io_bus u) = sent (io_bus s) @ map (\<lambda>b. if b = 10 then 13 else b) (bytes (exception_report (fault_frame num code s) cr2))"
proof -
  let ?g = "entries (idt_s s) ! num"
  let ?e = "exception_entry (tss_s s) ?g num code s" and ?r = "exception_report (fault_frame num code s) cr2"
  have f: "read_frame (kmem ?e) (rdi ?e) = fault_frame num code s"
    using exception_frame [OF n, where t = "tss_s s" and g = ?g and code = code and m = s] by (simp add: fault_frame_def isr_ec_hardware [OF n])
  have io: "io_bus ?e = io_bus s" and fl: "rflags ?e = rflags s AND NOT RFLAGS_IF"
    by (simp_all add: exception_entry_def enter_on_def isr_common_def isr_stub_def push_frame_def push_def Let_def)
  obtain b where b: "raw_write dev (io_bus s) (bytes ?r) = Some b" "sent b = sent (io_bus s) @ map (\<lambda>b. if b = 10 then 13 else b) (bytes ?r)"
    using raw_write_sends [OF dev] by blast
  have "fault_path dev num code cr2 s = Some (?e\<lparr>io_bus := b\<rparr>)"
    using b(1) by (simp add: fault_path_def handle_exception_def fault_sink_def f io ascii_valid [OF ascii_report] Let_def)
  moreover have "\<not> interrupts_enabled (?e\<lparr>io_bus := b\<rparr>)" by (simp add: interrupts_enabled_def fl RFLAGS_IF_def bit_simps)
  ultimately show ?thesis using b(2) by simp
qed

end
