(* ===== verification/Shell_System.thy ===== *)
theory Shell_System
  imports Fault
begin

text \<open>
  The whole machine at work: the shell in the idle process, the other processes, the interrupts and the faults. The
  invariant joins those of the scheduler, the keyboard, the page table and the pool with the state of the process slots; every
  step of the shell keeps it, and so does every step of the kernel. The steps of the shell are those of \<open>shell_step\<close>: an
  interrupt comes in before or after a call into the kernel or a line of output, not within it.
\<close>

section \<open>The invariant of the running system\<close>

definition slot_fresh :: "pmm \<Rightarrow> u32 \<Rightarrow> u32 \<Rightarrow> bool" where
  "slot_fresh P rt p \<longleftrightarrow> (\<forall>va. in_slot p va \<longrightarrow> translate P (PageTable rt) va = Some None)"

definition user_slots :: "u32 set" where
  "user_slots = {p. 0 < unat p \<and> unat p < 16}"

text \<open>The address range of a process slot is either unmapped or holds the program from an earlier process; the pool has frames
  for every slot that is still unmapped; and the address the fault demos use is unmapped.\<close>

definition slots_ok :: "u8 list \<Rightarrow> pmm \<Rightarrow> u32 \<Rightarrow> bool" where
  "slots_ok prog P rt \<longleftrightarrow> (\<forall>p\<in>user_slots. slot_fresh P rt p \<or> (\<exists>pa. translate P (PageTable rt) (proc_base p) = Some (Some pa))) \<and>
     4 * Suc (code_pages prog) * card {p\<in>user_slots. slot_fresh P rt p} \<le> card (free_frames P) \<and>
     (\<forall>va. DEMO_VA - 8 \<le> va \<and> va \<le> DEMO_VA \<longrightarrow> translate P (PageTable rt) va = Some None)"

definition harness_good :: "stack_layout \<Rightarrow> u8 list \<Rightarrow> harness \<Rightarrow> bool" where
  "harness_good lay prog s \<longleftrightarrow> layout_ok lay \<and> kernel_inv lay (kernel.truncate s) \<and> 0 < length prog \<and> length prog \<le> 2 ^ 20 \<and> \<not> writer_locked s \<and>
     (\<exists>rt. kernel_pt s = Some (PageTable rt) \<and> vm_ok (pool s) rt \<and> unmapped_free (pool s) \<and> slots_ok prog (pool s) rt)"

lemma truncate_fields [simp]:
  "procs (kernel.truncate s) = procs s" "current (kernel.truncate s) = current s" "kmem (kernel.truncate s) = kmem s" "tss_s (kernel.truncate s) = tss_s s"
  "kbd_s (kernel.truncate s) = kbd_s s" "irq_handlers (kernel.truncate s) = irq_handlers s" "io_bus (kernel.truncate s) = io_bus s" "rflags (kernel.truncate s) = rflags s"
  "context_of (kernel.truncate s) = context_of s" "lives (kernel.truncate s) = lives s" "proc_context (kernel.truncate s) i = proc_context s i"
  by (simp_all add: kernel.defs context_of_def saved_frame_def lives_def proc_context_def parked_context_def)

lemma sched_truncate [simp]: "sched_inv lay (kernel.truncate s) = sched_inv lay s"
  by (simp add: sched_inv_def procs_ok_def parked_def on_cpu_def)

lemma kernel_inv_truncate: "kernel_inv lay (kernel.truncate s) \<longleftrightarrow> sched_inv lay s \<and> kbd_ok (kbd_s s) \<and> length (irq_handlers s) = 16"
  by (simp add: kernel_inv_def)

text \<open>Printing changes nothing the invariant is about.\<close>

lemma good_print [simp]:
  "harness_good lay prog (s\<lparr>io_bus := b, serial_inited := x\<rparr>) = harness_good lay prog s"
  "lives (s\<lparr>io_bus := b, serial_inited := x\<rparr>) = lives s" "proc_context (s\<lparr>io_bus := b, serial_inited := x\<rparr>) i = proc_context s i" for s :: harness
  by (simp_all add: harness_good_def kernel_inv_truncate sched_inv_def procs_ok_def parked_def on_cpu_def lives_def proc_context_def parked_context_def
    context_of_def saved_frame_def)

lemma kprint_good:
  assumes "uart_drains dev" "\<not> writer_locked s"
  obtains b where "kprint dev s str = Some (s\<lparr>io_bus := b, serial_inited := True\<rparr>)"
  using kprint_prints [OF assms] by metis

section \<open>Spawning keeps the slots\<close>

lemma user_slots_facts: "finite user_slots" "card user_slots = 15"
proof -
  have "inj_on unat user_slots" by (simp add: inj_on_def word_unat_eq_iff)
  then have "card (unat ` user_slots) = card user_slots" by (rule card_image)
  moreover have "unat ` user_slots = {1..<16}"
  proof (intro set_eqI iffI)
    fix n :: nat assume "n \<in> {1..<16}"
    then have "n = unat (word_of_nat n :: u32)" "0 < unat (word_of_nat n :: u32)" "unat (word_of_nat n :: u32) < 16" by (simp_all add: unat_of_nat)
    then show "n \<in> unat ` user_slots" unfolding user_slots_def by blast
  qed (auto simp: user_slots_def)
  ultimately show "card user_slots = 15" by simp
  then show "finite user_slots" by (metis card.infinite zero_neq_numeral)
qed

lemma slots_apart:
  assumes "p \<in> user_slots" "q \<in> user_slots" "p \<noteq> q" "in_slot q va"
  shows "\<not> in_slot p va"
proof -
  have b: "unat (proc_base p) = 0x80000000 + unat p * 0x200000" "unat (proc_base q) = 0x80000000 + unat q * 0x200000"
    using assms(1,2) proc_base_facts(4) by (simp_all add: user_slots_def)
  have "unat p < unat q \<or> unat q < unat p" using assms(3) by (auto simp: word_unat_eq_iff)
  then show ?thesis using assms(4) unfolding in_slot_def b by auto
qed

lemma slots_ok_spawn:
  assumes ok: "slots_ok prog (pool s) rt" and p: "p \<in> user_slots" "slot_fresh (pool s) rt p" and prog: "0 < length prog" "length prog \<le> 2 ^ 20"
    and m: "pages_mapped prog rt (proc_base p) (user_pages prog (proc_base p)) s m"
  shows "slots_ok prog (pool m) rt"
proof -
  have p16: "unat p < 16" using p(1) by (simp add: user_slots_def)
  note b = proc_base_facts [OF p16] and v = slot_mapped_view [OF p16 m prog(2) p(2) [unfolded slot_fresh_def]]
  obtain pa where pa: "translate (pool m) (PageTable rt) (proc_base p) = Some (Some pa)" using v(1) [OF prog(1)] by auto
  have np: "\<not> slot_fresh (pool m) rt p" using pa by (auto simp: slot_fresh_def in_slot_def intro!: exI [of _ "proc_base p"])
  have q: "slot_fresh (pool m) rt q = slot_fresh (pool s) rt q \<and> translate (pool m) (PageTable rt) (proc_base q) = translate (pool s) (PageTable rt) (proc_base q)"
    if "q \<in> user_slots" "q \<noteq> p" for q
  proof -
    have "translate (pool m) (PageTable rt) va = translate (pool s) (PageTable rt) va" if "in_slot q va" for va
      using v(3) [OF slots_apart [OF p(1) \<open>q \<in> user_slots\<close> _ that]] \<open>q \<noteq> p\<close> by auto
    then show ?thesis by (auto simp: slot_fresh_def in_slot_def)
  qed
  let ?F = "\<lambda>P. {p\<in>user_slots. slot_fresh P rt p}"
  have "?F (pool m) = ?F (pool s) - {p}" using q np by auto
  moreover have "card (?F (pool s)) = Suc (card (?F (pool s) - {p}))"
    by (rule card.remove) (use p user_slots_facts(1) in auto)
  ultimately have c: "card (?F (pool s)) = Suc (card (?F (pool m)))" by (simp only:)
  have "card (user_pages prog (proc_base p)) = Suc (code_pages prog)"
    using code_pages_bounds(3) [OF prog(2)] by (simp add: user_pages_def)
  then have "card (free_frames (pool s)) \<le> card (free_frames (pool m)) + 4 * Suc (code_pages prog)" using m by (simp add: pages_mapped_def takes_free_def)
  moreover have "4 * Suc (code_pages prog) * card (?F (pool s)) \<le> card (free_frames (pool s))" using ok by (simp only: slots_ok_def)
  ultimately have "4 * Suc (code_pages prog) * card (?F (pool m)) \<le> card (free_frames (pool m))" unfolding c by (simp only: mult_Suc_right)
  moreover have "translate (pool m) (PageTable rt) va = Some None" if "DEMO_VA - 8 \<le> va \<and> va \<le> DEMO_VA" for va
  proof -
    have "\<not> in_slot p va" using that b(4) p16 by (simp add: DEMO_VA_def word_le_nat_alt in_slot_def)
    then show ?thesis using v(3) [of va] ok that by (simp add: slots_ok_def)
  qed
  moreover have "slot_fresh (pool m) rt q \<or> (\<exists>pa. translate (pool m) (PageTable rt) (proc_base q) = Some (Some pa))" if "q \<in> user_slots" for q
    using q [OF that] pa ok that by (cases "q = p") (auto simp: slots_ok_def)
  ultimately show ?thesis by (simp only: slots_ok_def) blast
qed

section \<open>Commands under the invariant\<close>

lemma spawned_rest:
  assumes "spawned lay p s t"
  shows "kbd_s t = kbd_s s" "irq_handlers t = irq_handlers s" "kernel_pt t = kernel_pt s" "writer_locked t = writer_locked s" "current t = current s"
proof -
  have e: "t = s\<lparr>kmem := kmem t, procs := procs t, pool := pool t, umem := umem t, io_bus := io_bus t, serial_inited := True\<rparr>"
    using assms by (simp only: spawned_def)
  show "kbd_s t = kbd_s s" "irq_handlers t = irq_handlers s" "kernel_pt t = kernel_pt s" "writer_locked t = writer_locked s" "current t = current s"
    by (subst e, simp)+
qed

lemma spawn_full:
  assumes "kernel_pt s = Some pt" "free_slot s = None"
  shows "spawn_process dev k prog s name = Some (None, s)"
proof -
  have "free_slot (s\<lparr>rflags := f\<rparr>) = None" for f using assms(2) by (simp add: free_slot_def proc_at_def)
  then show ?thesis using assms(1) by (cases s) (simp add: spawn_process_def spawn_process_locked_def irq_save_def irq_restore_def Let_def)
qed

text \<open>What a command line does to the set of processes: \<^verbatim>\<open>spawn\<close> fills the first free slot, \<^verbatim>\<open>kill\<close> empties the one it
  names unless it is the shell's.\<close>

definition lives_after :: "harness \<Rightarrow> string \<Rightarrow> nat set" where
  "lives_after s line =
    (case split_whitespace line of
       [] \<Rightarrow> lives s
     | cmd # parts \<Rightarrow>
         if cmd = ''spawn'' then (case free_slot s of None \<Rightarrow> lives s | Some p \<Rightarrow> insert (unat p) (lives s))
         else if cmd = ''kill'' then (case parse_u32 (trim (join '' '' parts)) of Some p \<Rightarrow> if p = 0 then lives s else lives s - {unat p} | None \<Rightarrow> lives s)
         else lives s)"

definition command_ok :: "stack_layout \<Rightarrow> u8 list \<Rightarrow> harness \<Rightarrow> harness \<Rightarrow> nat set \<Rightarrow> bool" where
  "command_ok lay prog s t L \<longleftrightarrow> harness_good lay prog t \<and> cur t = 0 \<and> lives t = L \<and> (\<forall>i\<in>lives s \<inter> L. proc_context t i = proc_context s i)"

lemma goodD:
  assumes "harness_good lay prog s"
  shows "layout_ok lay" "sched_inv lay s" "\<not> writer_locked s" "0 < length prog" "length prog \<le> 2 ^ 20" "length (procs s) = 16"
  using assms by (simp_all add: harness_good_def kernel_inv_truncate sched_inv_def procs_ok_def)

lemma print_good:
  assumes dev: "uart_drains dev" and ok: "command_ok lay prog s t L"
  shows "\<exists>u. kprint dev t str = Some u \<and> command_ok lay prog s u L"
proof -
  have "\<not> writer_locked t" using ok goodD(3) by (auto simp: command_ok_def)
  then obtain b where "kprint dev t str = Some (t\<lparr>io_bus := b, serial_inited := True\<rparr>)" by (rule kprint_good [OF dev])
  then show ?thesis using ok by (simp add: command_ok_def)
qed

lemma print_ok: "uart_drains dev \<Longrightarrow> command_ok lay prog s t L \<Longrightarrow> \<exists>u. kprint_line dev t str = Some u \<and> command_ok lay prog s u L"
  unfolding kprint_line_kprint by (rule print_good)

lemma print_lines_ok:
  assumes "uart_drains dev" "command_ok lay prog s t L"
  shows "\<exists>u. print_lines dev t ls = Some u \<and> command_ok lay prog s u L"
  using assms(2)
proof (induction ls arbitrary: t)
  case (Cons l ls)
  obtain u where u: "kprint_line dev t l = Some u" "command_ok lay prog s u L" using print_ok [OF assms(1) Cons.prems] by blast
  then show ?case using Cons.IH [OF u(2)] by simp
qed simp

lemma command_refl: "harness_good lay prog s \<Longrightarrow> cur s = 0 \<Longrightarrow> command_ok lay prog s s (lives s)"
  by (simp add: command_ok_def)

lemma spawn_process_ok:
  assumes dev: "uart_drains dev" and good: "harness_good lay prog s" and idle: "cur s = 0"
  shows "\<exists>t. spawn_process dev (kstacks lay) prog s name = Some (free_slot s, t) \<and>
    command_ok lay prog s t (case free_slot s of None \<Rightarrow> lives s | Some p \<Rightarrow> insert (unat p) (lives s))"
proof -
  note g = goodD [OF good]
  obtain rt where rt: "kernel_pt s = Some (PageTable rt)" "vm_ok (pool s) rt" "unmapped_free (pool s)" "slots_ok prog (pool s) rt"
    using good by (auto simp: harness_good_def)
  have kb: "kbd_ok (kbd_s s)" "length (irq_handlers s) = 16" using good by (simp_all add: harness_good_def kernel_inv_truncate)
  show ?thesis
  proof (cases "free_slot s")
    case None
    then show ?thesis using spawn_full [OF rt(1) None] command_refl [OF good idle] by simp
  next
    case (Some p)
    have p: "p \<in> user_slots" using free_slot_Some [OF Some g(6)] by (simp add: user_slots_def)
    have fin: "command_ok lay prog s t (insert (unat p) (lives s))"
      if "spawned lay p s t" "vm_ok (pool t) rt" "unmapped_free (pool t)" "slots_ok prog (pool t) rt" for t
      using that spawned_rest [OF that(1)] rt(1) kb g idle by (auto simp: command_ok_def harness_good_def kernel_inv_truncate spawned_def)
    have "\<exists>t. spawn_process dev (kstacks lay) prog s name = Some (Some p, t) \<and> command_ok lay prog s t (insert (unat p) (lives s))"
    proof (cases "slot_fresh (pool s) rt p")
      case True
      let ?F = "{p\<in>user_slots. slot_fresh (pool s) rt p}"
      have "0 < card ?F" unfolding card_gt_0_iff using True p user_slots_facts(1) by auto
      then have "4 * Suc (code_pages prog) \<le> 4 * Suc (code_pages prog) * card ?F" using mult_le_mono2 [of 1 "card ?F"] by simp
      also have "\<dots> \<le> card (free_frames (pool s))" using rt(4) by (simp only: slots_ok_def)
      finally have room: "4 * Suc (code_pages prog) \<le> card (free_frames (pool s))" .
      obtain t m where t: "spawn_process dev (kstacks lay) prog s name = Some (Some p, t)" "spawned lay p s t" "pool t = pool m" "umem t = umem m" "unat p < 16"
        "pages_mapped prog rt (proc_base p) (user_pages prog (proc_base p)) (s\<lparr>rflags := rflags s AND NOT RFLAGS_IF\<rparr>) m"
        by (rule spawn_fresh [OF g(1,2) idle Some dev g(3) rt(1-3) g(4,5) room True [unfolded slot_fresh_def]])
      have "vm_ok (pool m) rt" "unmapped_free (pool m)" using t(6) by (simp_all add: pages_mapped_def)
      moreover have "slots_ok prog (pool m) rt" by (rule slots_ok_spawn [OF _ p _ g(4,5) t(6)]) (use rt(4) True in simp_all)
      ultimately show ?thesis using t(1-3) fin by auto
    next
      case False
      then obtain pa where pa: "translate (pool s) (PageTable rt) (proc_base p) = Some (Some pa)" using rt(4) p by (auto simp: slots_ok_def)
      obtain t where t: "spawn_process dev (kstacks lay) prog s name = Some (Some p, t)" "spawned lay p s t" "pool t = pool s" "umem t = umem s"
        by (rule spawn_reuse [OF g(1,2) idle Some dev g(3) rt(1) pa])
      then show ?thesis using fin rt by auto
    qed
    then show ?thesis using Some by simp
  qed
qed

lemma kill_lives:
  fixes s :: harness
  assumes len: "length (procs s) = 16"
  shows "lives (snd (kill s p)) = (if p = 0 then lives s else lives s - {unat p})"
proof -
  have u: "unat (ucast p :: usize) = unat p" by (simp add: unat_ucast_up)
  show ?thesis using len
    by (auto simp: kill_def update_proc_def proc_at_def u word_le_nat_alt kconsts lives_def live_def nth_list_update unat_eq_0 split: if_splits)
qed

lemma kill_ok:
  assumes good: "harness_good lay prog s" and idle: "cur s = 0"
  shows "command_ok lay prog s (snd (kill s p)) (if p = 0 then lives s else lives s - {unat p})"
proof -
  note g = goodD [OF good]
  let ?t = "snd (kill s p)"
  have r: "kbd_s ?t = kbd_s s" "irq_handlers ?t = irq_handlers s" "kernel_pt ?t = kernel_pt s" "writer_locked ?t = writer_locked s" "pool ?t = pool s"
    by (simp_all add: kill_def update_proc_def)
  have "command_ok lay prog s ?t (lives ?t)"
    using good idle r kill_inv [OF g(2) idle, of p] by (auto simp: command_ok_def harness_good_def kernel_inv_truncate)
  then show ?thesis by (simp only: kill_lives [OF g(6)])
qed

lemma frame_count_ok: "harness_good lay prog s \<Longrightarrow> \<exists>n. free_frame_count (pool s) = Some n"
  using alloc_counts(1) by (fastforce simp: harness_good_def vm_ok_def vm_inv_def tree_inv_def pmm_inv_def)

text \<open>How a command line ends.\<close>

definition finish_of :: "string \<Rightarrow> finish" where
  "finish_of line =
    (case split_whitespace line of
       [] \<Rightarrow> Back
     | cmd # parts \<Rightarrow>
         if cmd = ''fault'' then Demo_write else if cmd = ''double'' then Demo_ud2
         else if cmd \<in> {''halt'', ''exit'', ''shutdown''} then Stop else Back)"

lemma finish_words:
  "finish_of line = Demo_write \<Longrightarrow> \<exists>rest. split_whitespace line = ''fault'' # rest"
  "finish_of line = Demo_ud2 \<Longrightarrow> \<exists>rest. split_whitespace line = ''double'' # rest"
  "finish_of line = Stop \<Longrightarrow> \<exists>cmd rest. split_whitespace line = cmd # rest \<and> cmd \<in> {''halt'', ''exit'', ''shutdown''}"
  unfolding finish_of_def by (simp_all split: list.splits if_splits)

lemma dispatch_ok:
  assumes dev: "uart_drains dev" and good: "harness_good lay prog s" and idle: "cur s = 0"
  shows "\<exists>ls t. dispatch dev (kstacks lay) prog s line = Some (ls, finish_of line, t) \<and> command_ok lay prog s t (lives_after s line)"
proof (cases "split_whitespace line")
  case Nil
  then show ?thesis using command_refl [OF good idle] by (simp add: dispatch_def finish_of_def lives_after_def)
next
  case (Cons cmd parts)
  let ?rest = "join '' '' parts"
  note refl = command_refl [OF good idle]
  consider (spawn) "cmd = ''spawn''" | (kill) "cmd = ''kill''" | (info) "cmd = ''info''" | (other) "cmd \<noteq> ''spawn''" "cmd \<noteq> ''kill''" "cmd \<noteq> ''info''" by blast
  then show ?thesis
  proof cases
    case spawn
    let ?name = "utf8 (if ?rest = [] then ''proc'' else ?rest)"
    obtain t where t: "spawn_process dev (kstacks lay) prog s ?name = Some (free_slot s, t)"
      "command_ok lay prog s t (case free_slot s of None \<Rightarrow> lives s | Some p \<Rightarrow> insert (unat p) (lives s))"
      using spawn_process_ok [OF dev good idle] by blast
    then show ?thesis using spawn by (simp add: dispatch_def finish_of_def lives_after_def Cons Let_def)
  next
    case kill
    show ?thesis
    proof (cases "parse_u32 (trim ?rest)")
      case None
      then show ?thesis using kill refl by (simp add: dispatch_def finish_of_def lives_after_def Cons Let_def)
    next
      case (Some p)
      then have "?rest \<noteq> []" by (auto simp: trim_def parse_u32_def)
      then show ?thesis using kill Some kill_ok [OF good idle, of p]
        by (cases "kill s p") (simp add: dispatch_def finish_of_def lives_after_def Cons Let_def)
    qed
  next
    case info
    then show ?thesis using frame_count_ok [OF good] refl by (auto simp: dispatch_def finish_of_def lives_after_def Cons)
  next
    case other
    then show ?thesis using refl by (simp add: dispatch_def finish_of_def lives_after_def Cons Let_def)
  qed
qed

lemma finish_ok:
  assumes good: "harness_good lay prog s"
  shows "\<exists>u. finish_command dev k s = Some (case k of Back \<Rightarrow> Returned s | Demo_write \<Rightarrow> Trap 14 s | Demo_ud2 \<Rightarrow> Trap 8 u | Stop \<Rightarrow> Halted s)"
proof -
  obtain rt where rt: "kernel_pt s = Some (PageTable rt)" "\<And>va. DEMO_VA - 8 \<le> va \<Longrightarrow> va \<le> DEMO_VA \<Longrightarrow> translate (pool s) (PageTable rt) va = Some None"
    using good by (auto simp: harness_good_def slots_ok_def)
  have "translate (pool s) (PageTable rt) DEMO_VA = Some None" "translate (pool s) (PageTable rt) (DEMO_VA - 8) = Some None"
    by (rule rt(2); simp add: DEMO_VA_def)+
  then show ?thesis using rt(1) by (cases k) (simp_all add: finish_command_def demo_write_def demo_ud2_def)
qed

text \<open>What a command line ends in, by its first word.\<close>

definition outcome_ok :: "stack_layout \<Rightarrow> u8 list \<Rightarrow> harness \<Rightarrow> string \<Rightarrow> outcome \<Rightarrow> bool" where
  "outcome_ok lay prog s line r \<longleftrightarrow>
    (case split_whitespace line of
       [] \<Rightarrow> \<exists>t. r = Returned t \<and> command_ok lay prog s t (lives s)
     | cmd # parts \<Rightarrow>
         if cmd = ''fault'' then \<exists>t. r = Trap 14 t
         else if cmd = ''double'' then \<exists>t. r = Trap 8 t
         else if cmd \<in> {''halt'', ''exit'', ''shutdown''} then \<exists>t. r = Halted t
         else \<exists>t. r = Returned t \<and> command_ok lay prog s t (lives_after s line))"

lemma execute_ok:
  assumes dev: "uart_drains dev" and good: "harness_good lay prog s" and idle: "cur s = 0"
  shows "\<exists>r. execute dev (kstacks lay) prog s line = Some r \<and> outcome_ok lay prog s line r"
proof -
  obtain ls t where d: "dispatch dev (kstacks lay) prog s line = Some (ls, finish_of line, t)" "command_ok lay prog s t (lives_after s line)"
    using dispatch_ok [OF dev good idle] by blast
  obtain u where u: "print_lines dev t ls = Some u" "command_ok lay prog s u (lives_after s line)" using print_lines_ok [OF dev d(2)] by blast
  then have "harness_good lay prog u" by (simp add: command_ok_def)
  from finish_ok [OF this] obtain v where v: "finish_command dev (finish_of line) u =
      Some (case finish_of line of Back \<Rightarrow> Returned u | Demo_write \<Rightarrow> Trap 14 u | Demo_ud2 \<Rightarrow> Trap 8 v | Stop \<Rightarrow> Halted u)" by blast
  have "outcome_ok lay prog s line (case finish_of line of Back \<Rightarrow> Returned u | Demo_write \<Rightarrow> Trap 14 u | Demo_ud2 \<Rightarrow> Trap 8 v | Stop \<Rightarrow> Halted u)"
    using u(2) by (cases "split_whitespace line") (auto simp: outcome_ok_def finish_of_def lives_after_def)
  then show ?thesis using d(1) u(1) v by (simp add: execute_dispatch)
qed

section \<open>A step of the shell\<close>

lemma good_kbd [simp]:
  assumes "kbd_ok (kbd_s s)" "kbd_ok k"
  shows "harness_good lay prog (s\<lparr>kbd_s := k\<rparr>) = harness_good lay prog s"
  using assms by (simp add: harness_good_def kernel_inv_truncate sched_inv_def procs_ok_def parked_def on_cpu_def context_of_def saved_frame_def)

lemma same_procs_kbd [simp]: "lives (s\<lparr>kbd_s := k\<rparr>) = lives s" "proc_context (s\<lparr>kbd_s := k\<rparr>) i = proc_context s i" for s :: harness
  by (simp_all add: lives_def proc_context_def parked_context_def context_of_def saved_frame_def)

lemma keyboard_ok:
  assumes good: "harness_good lay prog s" and idle: "cur s = 0"
  shows "\<exists>c k. poll_char s (kbd_s s) = Some (c, s, k) \<and> command_ok lay prog s (s\<lparr>kbd_s := k\<rparr>) (lives s)"
proof -
  have kb: "kbd_ok (kbd_s s)" using good by (simp add: harness_good_def kernel_inv_truncate)
  obtain c k where k: "poll_char s (kbd_s s) = Some (c, s, k)" "kbd_ok k" using poll_char_queued [OF kb, of s] by blast
  have "command_ok lay prog s (s\<lparr>kbd_s := k\<rparr>) (lives s)" using good idle kb k(2) by (simp add: command_ok_def)
  then show ?thesis using k(1) by blast
qed

lemma serial_ok:
  assumes good: "harness_good lay prog s" and idle: "cur s = 0"
  shows "\<exists>b t. with_serial s (\<lambda>h. Some (try_read dev h)) = Some (b, t) \<and> command_ok lay prog s t (lives s)"
proof -
  have w: "\<not> writer_locked s" by (rule goodD(3) [OF good])
  have "\<exists>r b. with_serial s (\<lambda>h. Some (try_read dev h)) = Some (r, s\<lparr>io_bus := b, serial_inited := True\<rparr>)"
    using w by (cases s) (simp add: with_serial_def irq_save_def irq_restore_def rassert_def Let_def split: prod.splits)
  then obtain r b where "with_serial s (\<lambda>h. Some (try_read dev h)) = Some (r, s\<lparr>io_bus := b, serial_inited := True\<rparr>)" by blast
  moreover have "command_ok lay prog s (s\<lparr>io_bus := b, serial_inited := True\<rparr>) (lives s)" using good idle by (simp add: command_ok_def)
  ultimately show ?thesis by blast
qed

lemma edit_line_ok:
  assumes dev: "uart_drains dev" and ok: "command_ok lay prog s t (lives s)" and line: "line_ok line"
  shows "\<exists>e line' u. edit_line dev t line c = Some (e, line', u) \<and> line_ok line' \<and> command_ok lay prog s u (lives s)"
proof -
  note pr = print_good [OF dev ok]
  obtain u1 u2 u3 where u: "kprint dev t [13, 10] = Some u1" "command_ok lay prog s u1 (lives s)" "kprint dev t [8, 32, 8] = Some u2" "command_ok lay prog s u2 (lives s)"
    "kprint dev t (utf8_char c) = Some u3" "command_ok lay prog s u3 (lives s)" using pr by metis
  have len: "length (utf8 line) = length line" using line by (simp add: utf8_line line_ok_def bytes_def)
  have "edit_line dev t line c = Some (True, line, u1) \<or> edit_line dev t line c = Some (False, butlast line, u2) \<or>
      edit_line dev t line c = Some (False, line @ [c], u3) \<and> length line < 127 \<and> (is_ascii_graphic c \<or> c = CHR '' '') \<or> edit_line dev t line c = Some (False, line, t)"
    unfolding edit_line_def len MAX_LINE_def u(1,3,5) by simp
  moreover have "line_ok (butlast line)" using line by (auto simp: line_ok_def dest: in_set_butlastD)
  moreover have "line_ok (line @ [c])" if "length line < 127" "is_ascii_graphic c \<or> c = CHR '' ''" using that line by (auto simp: line_ok_def printable_def)
  ultimately show ?thesis using ok line u(2,4,6) by metis
qed

text \<open>The output of a command belongs to the line that is being executed, and so does the halt.\<close>

definition pc_ok :: "string \<Rightarrow> shell_pc \<Rightarrow> bool" where
  "pc_ok line pc \<longleftrightarrow> (case pc of At_print ls k \<Rightarrow> k = finish_of line | At_halt \<Rightarrow> finish_of line = Stop | _ \<Rightarrow> True)"

definition move_ok :: "stack_layout \<Rightarrow> u8 list \<Rightarrow> string \<Rightarrow> harness \<Rightarrow> shell_move \<Rightarrow> bool" where
  "move_ok lay prog line s m \<longleftrightarrow>
    (case m of
       Goes line' pc t \<Rightarrow> line_ok line' \<and> pc_ok line' pc \<and> (\<exists>L. command_ok lay prog s t L)
     | Faults n t \<Rightarrow> (finish_of line, n) \<in> {(Demo_write, 14), (Demo_ud2, 8)})"

lemma shell_step_ok:
  assumes dev: "uart_drains dev" and good: "harness_good lay prog s" and idle: "cur s = 0" and line: "line_ok line" and pc: "pc_ok line pc"
  shows "\<exists>m. shell_step dev (kstacks lay) prog line pc s = Some m \<and> move_ok lay prog line s m"
proof -
  note refl = command_refl [OF good idle]
  have goes: "move_ok lay prog line s (Goes l pc' t)" if "line_ok l" "pc_ok l pc'" "command_ok lay prog s t L" for l pc' t L
    using that by (auto simp: move_ok_def)
  have nil: "line_ok []" by (simp add: line_ok_def)
  show ?thesis
  proof (cases pc)
    case At_prompt
    obtain t where "kprint dev s (bytes ''rolnix> '') = Some t" "command_ok lay prog s t (lives s)" using print_good [OF dev refl] by blast
    then show ?thesis using At_prompt goes [OF nil _] by (simp add: shell_step_def prompt_def pc_ok_def)
  next
    case At_keyboard
    obtain c k where "poll_char s (kbd_s s) = Some (c, s, k)" "command_ok lay prog s (s\<lparr>kbd_s := k\<rparr>) (lives s)"
      using keyboard_ok [OF good idle] by blast
    then show ?thesis using At_keyboard goes [OF line] by (simp add: shell_step_def pc_ok_def split: option.split)
  next
    case At_serial
    obtain b t where "with_serial s (\<lambda>h. Some (try_read dev h)) = Some (b, t)" "command_ok lay prog s t (lives s)"
      using serial_ok [OF good idle] by blast
    then show ?thesis using At_serial goes [OF line] by (simp add: shell_step_def pc_ok_def split: option.split)
  next
    case (At_edit c)
    obtain e l t where "edit_line dev s line c = Some (e, l, t)" "line_ok l" "command_ok lay prog s t (lives s)"
      using edit_line_ok [OF dev refl line] by blast
    then show ?thesis using At_edit goes by (simp add: shell_step_def pc_ok_def)
  next
    case At_execute
    obtain ls t where "dispatch dev (kstacks lay) prog s line = Some (ls, finish_of line, t)" "command_ok lay prog s t (lives_after s line)"
      using dispatch_ok [OF dev good idle] by blast
    then show ?thesis using At_execute goes [OF line] by (simp add: shell_step_def pc_ok_def)
  next
    case (At_print ls k)
    then have k: "k = finish_of line" using pc by (simp add: pc_ok_def)
    show ?thesis
    proof (cases ls)
      case (Cons l ls')
      obtain t where "kprint_line dev s l = Some t" "command_ok lay prog s t (lives s)" using print_ok [OF dev refl] by blast
      then show ?thesis using At_print Cons k goes [OF line] by (simp add: shell_step_def pc_ok_def)
    next
      case Nil
      obtain u where "finish_command dev k s = Some (case k of Back \<Rightarrow> Returned s | Demo_write \<Rightarrow> Trap 14 s | Demo_ud2 \<Rightarrow> Trap 8 u | Stop \<Rightarrow> Halted s)"
        using finish_ok [OF good] by blast
      moreover have "move_ok lay prog line s (Goes line At_prompt s)" "finish_of line = Stop \<Longrightarrow> move_ok lay prog line s (Goes line At_halt s)"
        by (rule goes [OF line _ refl], simp add: pc_ok_def)+
      ultimately show ?thesis using At_print Nil k by (cases k) (simp_all add: shell_step_def, simp_all add: move_ok_def)
    qed
  next
    case At_halt
    then show ?thesis using pc goes [OF line _ refl] by (simp add: shell_step_def)
  qed
qed

section \<open>The running system\<close>

text \<open>\<^verbatim>\<open>SYS_PUTC\<close> ends in \<^verbatim>\<open>user_putc\<close>, which writes the byte to the serial line.\<close>

definition user_console :: "device \<Rightarrow> console_sink" where
  "user_console dev c b = write_byte dev b c"

lemma user_putc_console:
  "\<not> writer_locked s \<Longrightarrow> serial_inited s \<Longrightarrow> user_putc dev s c = map_option (\<lambda>b. s\<lparr>io_bus := b\<rparr>) (user_console dev c (io_bus s))"
  by (cases s; cases "write_byte dev (io_bus s) c")
    (simp_all add: user_putc_def user_console_def with_serial_def irq_save_def irq_restore_def rassert_def Let_def)

definition with_kernel :: "harness \<Rightarrow> kernel \<Rightarrow> byte_mem \<Rightarrow> harness" where
  "with_kernel s k u = (kernel.extend k (kernel.more s))\<lparr>umem := u\<rparr>"

text \<open>The shell takes its next step when it has the CPU; interrupts come in between its steps, and the other processes run,
  change user memory, make system calls and raise exceptions of any kind but the double fault (which is a fault in the
  delivery of another). An exception, of a process or of one of the shell's demos, ends in the handler that reports it and
  halts; the error code and CR2 are what the processor gives.\<close>

datatype sys = Up string shell_pc harness | Stopped harness

inductive sys_step :: "device \<Rightarrow> stack_layout \<Rightarrow> u8 list \<Rightarrow> sys \<Rightarrow> sys \<Rightarrow> bool" for dev lay prog where
  shell: "cur s = 0 \<Longrightarrow> shell_step dev (kstacks lay) prog line pc s = Some (Goes line' pc' t) \<Longrightarrow>
    sys_step dev lay prog (Up line pc s) (Up line' pc' t)"
| demo: "cur s = 0 \<Longrightarrow> shell_step dev (kstacks lay) prog line pc s = Some (Faults num t) \<Longrightarrow> fault_path dev num code cr2 t = Some u \<Longrightarrow>
    sys_step dev lay prog (Up line pc s) (Stopped u)"
| irq: "kstep dev (user_console dev) lay (Irq n) (kernel.truncate s) k \<Longrightarrow>
    sys_step dev lay prog (Up line pc s) (Up line pc (with_kernel s k (umem s)))"
| syscall: "kstep dev (user_console dev) lay Syscall (kernel.truncate s) k \<Longrightarrow>
    sys_step dev lay prog (Up line pc s) (Up line pc (with_kernel s k (umem s)))"
| run: "cur s \<noteq> 0 \<Longrightarrow> kstep dev (user_console dev) lay Run (kernel.truncate s) k \<Longrightarrow>
    sys_step dev lay prog (Up line pc s) (Up line pc (with_kernel s k u))"
| fault: "cur s \<noteq> 0 \<Longrightarrow> num < 32 \<Longrightarrow> num \<noteq> 8 \<Longrightarrow> fault_path dev num code cr2 s = Some u \<Longrightarrow>
    sys_step dev lay prog (Up line pc s) (Stopped u)"

inductive_cases sys_step_cases: "sys_step dev lay prog x y"

definition sys_good :: "device \<Rightarrow> stack_layout \<Rightarrow> u8 list \<Rightarrow> sys \<Rightarrow> bool" where
  "sys_good dev lay prog x \<longleftrightarrow> uart_drains dev \<and>
    (case x of Up line pc s \<Rightarrow> line_ok line \<and> pc_ok line pc \<and> harness_good lay prog s | Stopped s \<Rightarrow> \<not> interrupts_enabled s)"

text \<open>The state in which \<^verbatim>\<open>run_shell\<close> enters the shell. The page table is the one \<^verbatim>\<open>new_kernel\<close> has built: it translates the identity
  window and the physmap window up to the end of RAM, at most 2 GiB, and nothing else. (With more RAM the identity window
  reaches into the address ranges of the processes.) The pool has 60 frames, four for each of the 15 process slots, for the
  stack page and each page of the program. (With fewer, a \<^verbatim>\<open>spawn\<close> may panic for want of a page table.)\<close>

definition PHYS_MAP_BASE :: usize where "PHYS_MAP_BASE = 0xFFFF800000000000"

definition windows_only :: "pmm \<Rightarrow> u32 \<Rightarrow> bool" where
  "windows_only P rt \<longleftrightarrow> (\<exists>window. unat window \<le> 0x80000000 \<and> (\<forall>va. translate P (PageTable rt) va = Some (kernel_view PHYS_MAP_BASE window va)))"

definition sys_boot :: "device \<Rightarrow> stack_layout \<Rightarrow> u8 list \<Rightarrow> sys \<Rightarrow> bool" where
  "sys_boot dev lay prog x \<longleftrightarrow> (\<exists>s rt. x = Up [] At_prompt s \<and> uart_drains dev \<and> kernel_boot lay (kernel.truncate s) \<and>
     0 < length prog \<and> length prog \<le> 2 ^ 20 \<and> \<not> writer_locked s \<and> kernel_pt s = Some (PageTable rt) \<and> vm_ok (pool s) rt \<and> unmapped_free (pool s) \<and>
     windows_only (pool s) rt \<and> 60 * Suc (code_pages prog) \<le> card (free_frames (pool s)))"

lemma windows_slots:
  assumes "windows_only P rt"
  shows "p \<in> user_slots \<Longrightarrow> slot_fresh P rt p" "DEMO_VA - 8 \<le> va \<Longrightarrow> translate P (PageTable rt) va = Some None"
proof -
  obtain w where w: "unat w \<le> 0x80000000" "\<And>va. translate P (PageTable rt) va = Some (kernel_view PHYS_MAP_BASE w va)"
    using assms by (auto simp: windows_only_def)
  have out: "translate P (PageTable rt) va = Some None" if "0x80000000 \<le> unat va" "unat va < 0xFFFF800000000000 \<or> 0xFFFF800080000000 \<le> unat va" for va
    using that w by (auto simp: kernel_view_def PHYS_MAP_BASE_def word_le_nat_alt word_less_nat_alt)
  show "slot_fresh P rt p" if "p \<in> user_slots"
    using that proc_base_facts(4) [of p] by (auto simp: slot_fresh_def in_slot_def user_slots_def intro!: out)
  show "translate P (PageTable rt) va = Some None" if "DEMO_VA - 8 \<le> va"
    by (rule out) (use that in \<open>simp_all add: DEMO_VA_def word_le_nat_alt\<close>)
qed

lemma with_kernel_good:
  assumes "harness_good lay prog s" "kernel_inv lay k"
  shows "harness_good lay prog (with_kernel s k u)"
proof -
  have "kernel.truncate (with_kernel s k u) = k" by (cases k) (simp add: with_kernel_def kernel.defs)
  moreover have "pool (with_kernel s k u) = pool s" "kernel_pt (with_kernel s k u) = kernel_pt s" "writer_locked (with_kernel s k u) = writer_locked s"
    by (cases s; simp add: with_kernel_def kernel.defs)+
  ultimately show ?thesis using assms by (simp add: harness_good_def)
qed

lemma sys_step_good:
  assumes "sys_good dev lay prog x" "sys_step dev lay prog x y"
  shows "sys_good dev lay prog y"
proof -
  have dev: "uart_drains dev" using assms(1) by (simp add: sys_good_def)
  have k: "kernel_inv lay k" if "harness_good lay prog s" "kstep dev (user_console dev) lay l (kernel.truncate s) k" for s k l
    using that kstep_steady [OF _ _ that(2)] by (simp add: harness_good_def steady_def)
  have halts: "\<not> interrupts_enabled u" if "fault_path dev num code cr2 s = Some u" "num < 32" for num code cr2 s u
    using fault_path_reports [OF dev that(2), of code cr2 s] that(1) by auto
  show ?thesis using assms(2)
  proof cases
    case (shell s line pc line' pc' t)
    then have g: "harness_good lay prog s" "line_ok line" "pc_ok line pc" using assms(1) by (simp_all add: sys_good_def)
    then show ?thesis using shell_step_ok [OF dev g(1) shell(3) g(2,3)] shell dev by (auto simp: sys_good_def move_ok_def command_ok_def)
  next
    case (demo s line pc num t code cr2 u)
    then have g: "harness_good lay prog s" "line_ok line" "pc_ok line pc" using assms(1) by (simp_all add: sys_good_def)
    then have "num < 32" using shell_step_ok [OF dev g(1) demo(3) g(2,3)] demo by (auto simp: move_ok_def)
    then show ?thesis using demo halts dev by (simp add: sys_good_def)
  qed (use assms(1) dev k halts with_kernel_good in \<open>auto simp: sys_good_def\<close>)
qed

lemma sys_boot_good: "sys_boot dev lay prog x \<Longrightarrow> sys_good dev lay prog x"
proof -
  assume "sys_boot dev lay prog x"
  then obtain s rt where x: "x = Up [] At_prompt s" and b: "uart_drains dev" "kernel_boot lay (kernel.truncate s)" "0 < length prog" "length prog \<le> 2 ^ 20"
    "\<not> writer_locked s" and rt: "kernel_pt s = Some (PageTable rt)" "vm_ok (pool s) rt" "unmapped_free (pool s)" "windows_only (pool s) rt"
    "60 * Suc (code_pages prog) \<le> card (free_frames (pool s))" unfolding sys_boot_def by blast
  note w = windows_slots [OF rt(4)]
  have "{p\<in>user_slots. slot_fresh (pool s) rt p} = user_slots" using w(1) by auto
  then have "slots_ok prog (pool s) rt" using w rt(5) by (simp add: slots_ok_def user_slots_facts)
  then show ?thesis using b rt(1-3) kernel_boot_good [of lay "kernel.truncate s"] unfolding sys_good_def x
    by (auto simp: harness_good_def kernel_good_def line_ok_def pc_ok_def)
qed

interpretation shell_sys: safe_system "sys_boot dev lay prog" "sys_step dev lay prog" "sys_good dev lay prog" for dev lay prog
  by unfold_locales (auto intro: sys_boot_good sys_step_good)

text \<open>C1: The system never panics and never hangs. It starts where \<^verbatim>\<open>run_shell\<close> enters the shell: at most 2 GiB of RAM, and 60 free
  frames for the stack page and each page of the user program. From there, whatever is typed and received, however
  interrupts, processes and the steps of the shell interleave, and whatever the processes do: every interrupt and every system
  call is handled to its end; an exception, whatever its vector, error code and CR2, is reported in full on the serial line, and
  the machine halts with interrupts off, as it is meant to; and the next step of the shell returns, with the line being edited at
  most 127 printable characters. The shell itself raises an exception only when it executes \<^verbatim>\<open>fault\<close> (a page fault) or \<^verbatim>\<open>double\<close> (a
  double fault), and stops only for \<^verbatim>\<open>halt\<close> and its synonyms. The shell and the current process are always live.\<close>

theorem system_never_panics:
  assumes "sys_boot dev lay prog x" "(sys_step dev lay prog)\<^sup>*\<^sup>* x y"
  shows "case y of
    Stopped u \<Rightarrow> \<not> interrupts_enabled u
  | Up line pc s \<Rightarrow> line_ok line \<and> {0, cur s} \<subseteq> lives s \<and> (\<forall>n<16. irq_path dev n (kernel.truncate s) \<noteq> None) \<and>
      (cur s \<noteq> 0 \<longrightarrow> syscall_path (user_console dev) (kernel.truncate s) \<noteq> None) \<and>
      (\<forall>num<32. \<forall>code cr2. \<exists>u. fault_path dev num code cr2 s = Some u \<and> \<not> interrupts_enabled u \<and>
         sent (io_bus u) = sent (io_bus s) @ map (\<lambda>b. if b = 10 then 13 else b) (bytes (exception_report (fault_frame num code s) cr2))) \<and>
      (cur s = 0 \<longrightarrow> (\<exists>m. shell_step dev (kstacks lay) prog line pc s = Some m \<and>
         (\<forall>n t. m = Faults n t \<longrightarrow> (\<exists>rest. (split_whitespace line, n) \<in> {(''fault'' # rest, 14), (''double'' # rest, 8)})) \<and>
         (\<forall>line' t. m = Goes line' At_halt t \<longrightarrow> (\<exists>cmd rest. split_whitespace line' = cmd # rest \<and> cmd \<in> {''halt'', ''exit'', ''shutdown''}))))"
proof (cases y)
  case (Stopped u)
  then show ?thesis using shell_sys.reachable_inv [OF assms] by (simp add: sys_good_def)
next
  case (Up line pc s)
  then have g: "uart_drains dev" "line_ok line" "pc_ok line pc" "harness_good lay prog s"
    using shell_sys.reachable_inv [OF assms] by (simp_all add: sys_good_def)
  have k: "layout_ok lay" "kernel_inv lay (kernel.truncate s)" using g(4) by (simp_all add: harness_good_def)
  have "irq_path dev n (kernel.truncate s) \<noteq> None" if "n < 16" for n using irq_path_returns [OF k that, of dev] by (metis option.distinct(1))
  moreover have "\<forall>c b. user_console dev c b \<noteq> None" using write_byte_sends [OF g(1)] by (metis user_console_def option.distinct(1))
  then have "syscall_path (user_console dev) (kernel.truncate s) \<noteq> None" if "cur s \<noteq> 0"
    using syscall_path_done [OF k, of "user_console dev"] that by (metis option.distinct(1) putc_ok_def truncate_fields(2))
  moreover have "\<exists>m. shell_step dev (kstacks lay) prog line pc s = Some m \<and>
      (\<forall>n t. m = Faults n t \<longrightarrow> (\<exists>rest. (split_whitespace line, n) \<in> {(''fault'' # rest, 14), (''double'' # rest, 8)})) \<and>
      (\<forall>line' t. m = Goes line' At_halt t \<longrightarrow> (\<exists>cmd rest. split_whitespace line' = cmd # rest \<and> cmd \<in> {''halt'', ''exit'', ''shutdown''}))" if z: "cur s = 0"
  proof -
    obtain m where m: "shell_step dev (kstacks lay) prog line pc s = Some m" "move_ok lay prog line s m" using shell_step_ok [OF g(1,4) z g(2,3)] by blast
    then show ?thesis by (intro exI [of _ m]) (auto simp: move_ok_def pc_ok_def dest!: finish_words)
  qed
  moreover have "{0, cur s} \<subseteq> lives s" using goodD(2) [OF g(4)] by (auto simp: sched_inv_def procs_ok_def lives_def)
  ultimately show ?thesis using g(2) fault_path_reports [OF g(1)] Up by simp
qed

text \<open>A pool of 1 MiB with the address space that \<^verbatim>\<open>new_kernel\<close> builds over it: one large page in each window.\<close>

lemma example_windows: "\<exists>rt P. vm_ok P rt \<and> unmapped_free P \<and> 250 \<le> card (free_frames P) \<and> windows_only P rt"
proof -
  obtain P l g where P: "pmm_inv P l g" "card (free_frames P) = 256" "ft_num P = 256" "phys_map_base P = 0xFFFF800000000000" "\<forall>f. mapping_count (infos P f) = 0"
    using roomy_pool by blast
  have "is_power_of_two 0x200000" unfolding is_power_of_two_iff by (rule exI [of _ 21]) simp
  then have w: "align_up 0x100000 LARGE_PAGE = Some 0x200000" by (simp add: align_up_def uadd_def usub_def LARGE_PAGE_def)
  have "unat (0x200000 :: u64) \<le> 2 ^ 44" "unat (phys_map_base P) mod 0x200000 = 0" "0xFFFF800000000000 \<le> phys_map_base P"
    "unat (phys_map_base P) + unat (0x200000 :: u64) < 2 ^ 64" by (simp_all add: P(4))
  from new_kernel_post [OF P(1) w this] obtain r s where s: "case r of None \<Rightarrow> card (free_frames P) < 1 + 4 * (unat (0x200000 :: u64) div 0x200000)
     | Some pt \<Rightarrow> vm_inv s (root pt) \<and> same_counts P s \<and> card (free_frames P) \<le> card (free_frames s) + 1 + 4 * (unat (0x200000 :: u64) div 0x200000) \<and>
         (unat (ft_num P) \<le> 2 ^ 24 \<longrightarrow> vm_ok s (root pt)) \<and> (\<forall>va. translate s pt va = Some (kernel_view (phys_map_base P) 0x200000 va))"
    by blast
  obtain rt where "r = Some (PageTable rt)" using s P(2) by (cases r) (simp_all, metis page_table.collapse)
  then have r: "same_counts P s" "256 \<le> card (free_frames s) + 5" "vm_ok s rt" "\<forall>va. translate s (PageTable rt) va = Some (kernel_view PHYS_MAP_BASE 0x200000 va)"
    using s by (simp_all add: P(2-4) PHYS_MAP_BASE_def)
  have "unmapped_free s" using r(1) P(5) by (simp add: unmapped_free_def same_counts_def)
  moreover have "windows_only s rt" unfolding windows_only_def using r(4) by (intro exI [of _ "0x200000"]) simp
  ultimately show ?thesis using r(2,3) by (intro exI [of _ rt] exI [of _ s]) simp
qed

lemma example_sys_boot: "\<exists>P rt. sys_boot ready_device example_stacks [0xEB, 0xFE] (Up [] At_prompt (example_harness P rt))"
proof -
  obtain rt P where P: "vm_ok P rt" "unmapped_free P" "250 \<le> card (free_frames P)" "windows_only P rt" using example_windows by blast
  have "kernel.truncate (example_harness P rt) = example_booted" by (simp add: example_harness_def kernel.defs)
  then show ?thesis using P ready_drains example_kernel_boots example_harness_sched(5-7) [of P rt]
    by (intro exI [of _ P] exI [of _ rt]) (simp add: sys_boot_def code_pages_def)
qed

text \<open>The first step of the shell is taken, the next one returns, and so does an interrupt; a fault would be reported.\<close>

theorem system_never_panics_witness:
  "\<exists>P rt t m u. let s = example_harness P rt in sys_boot ready_device example_stacks [0xEB, 0xFE] (Up [] At_prompt s) \<and>
    sys_step ready_device example_stacks [0xEB, 0xFE] (Up [] At_prompt s) (Up [] At_keyboard t) \<and>
    shell_step ready_device (kstacks example_stacks) [0xEB, 0xFE] [] At_keyboard t = Some m \<and>
    irq_path ready_device 0 (kernel.truncate t) \<noteq> None \<and> fault_path ready_device 13 0 0 t = Some u"
proof -
  obtain P rt where b: "sys_boot ready_device example_stacks [0xEB, 0xFE] (Up [] At_prompt (example_harness P rt))" using example_sys_boot by blast
  let ?s = "example_harness P rt"
  note e = example_harness_sched [of P rt]
  obtain x where x: "kprint ready_device ?s (bytes ''rolnix> '') = Some (?s\<lparr>io_bus := x, serial_inited := True\<rparr>)" by (rule kprint_good [OF ready_drains e(7)])
  let ?t = "?s\<lparr>io_bus := x, serial_inited := True\<rparr>"
  have st: "sys_step ready_device example_stacks [0xEB, 0xFE] (Up [] At_prompt ?s) (Up [] At_keyboard ?t)"
    by (rule sys_step.shell) (simp_all add: e(2) shell_step_def prompt_def x)
  have z: "cur ?t = 0" using e(2) by simp
  note c = system_never_panics [OF b r_into_rtranclp [of "sys_step ready_device example_stacks [0xEB, 0xFE]", OF st], unfolded sys.case]
  have "(0 :: nat) < 16" "(13 :: nat) < 32" by simp_all
  with c z obtain m u where "shell_step ready_device (kstacks example_stacks) [0xEB, 0xFE] [] At_keyboard ?t = Some m" "irq_path ready_device 0 (kernel.truncate ?t) \<noteq> None"
    "fault_path ready_device 13 0 0 ?t = Some u" by meson
  then show ?thesis using b st unfolding Let_def by blast
qed

text \<open>C10: In every reachable state in which the shell has the CPU, every command line does what it says, by its first word. \<^verbatim>\<open>spawn\<close>
  adds the first free slot to the live processes, \<^verbatim>\<open>kill\<close> removes the named process unless it is the shell, and no other line
  changes who lives; the contexts of those that live on are untouched, the invariant is kept, and the command returns.
  \<^verbatim>\<open>fault\<close> ends in a page fault and \<^verbatim>\<open>double\<close> in a double fault, as they announce; \<^verbatim>\<open>halt\<close>, \<^verbatim>\<open>exit\<close> and \<^verbatim>\<open>shutdown\<close> halt; nothing
  else does any of this. The steps of the shell, undisturbed, lead to just this outcome.\<close>

theorem commands_correct:
  assumes "sys_boot dev lay prog x" "(sys_step dev lay prog)\<^sup>*\<^sup>* x (Up line pc s)" "cur s = 0"
  shows "\<exists>r. execute dev (kstacks lay) prog s cmd = Some r \<and> outcome_ok lay prog s cmd r \<and> runs_to dev (kstacks lay) prog s cmd r"
proof -
  have "uart_drains dev" "harness_good lay prog s" using shell_sys.reachable_inv [OF assms(1,2)] by (simp_all add: sys_good_def)
  from execute_ok [OF this assms(3)] show ?thesis using execute_steps by blast
qed

theorem commands_correct_witness:
  "\<exists>P rt t u. execute ready_device (kstacks example_stacks) [0xEB, 0xFE] (example_harness P rt) ''spawn a'' = Some (Returned t) \<and> lives t = {0, 1} \<and>
    execute ready_device (kstacks example_stacks) [0xEB, 0xFE] (example_harness P rt) ''fault now'' = Some (Trap 14 u)"
proof -
  obtain P rt where b: "sys_boot ready_device example_stacks [0xEB, 0xFE] (Up [] At_prompt (example_harness P rt))" using example_sys_boot by blast
  note e = example_harness_sched [of P rt] and c = commands_correct [OF b rtranclp.rtrancl_refl example_harness_sched(2)]
  have ns: "\<forall>c\<in>set ''spawn''. \<not> is_whitespace c" "\<forall>c\<in>set ''a''. \<not> is_whitespace c" "\<forall>c\<in>set ''fault''. \<not> is_whitespace c" "\<forall>c\<in>set ''now''. \<not> is_whitespace c"
    by code_simp+
  have sp: "split_whitespace ''spawn a'' = [''spawn'', ''a'']" "split_whitespace ''fault now'' = [''fault'', ''now'']"
    using split_two [OF ns(1,2)] split_two [OF ns(3,4)] by simp_all
  obtain r where r: "execute ready_device (kstacks example_stacks) [0xEB, 0xFE] (example_harness P rt) ''spawn a'' = Some r"
    "outcome_ok example_stacks [0xEB, 0xFE] (example_harness P rt) ''spawn a'' r" using c by blast
  obtain q where q: "execute ready_device (kstacks example_stacks) [0xEB, 0xFE] (example_harness P rt) ''fault now'' = Some q"
    "outcome_ok example_stacks [0xEB, 0xFE] (example_harness P rt) ''fault now'' q" using c by blast
  obtain t where "r = Returned t" "lives t = {0, 1}" using r(2) e(3,4) by (auto simp: outcome_ok_def command_ok_def lives_after_def sp insert_commute)
  moreover obtain u where "q = Trap 14 u" using q(2) by (auto simp: outcome_ok_def sp)
  ultimately show ?thesis using r(1) q(1) by blast
qed

end
