(* ===== verification/Spec2Isabelle.thy ===== *)
theory Spec2Isabelle
  imports Spinlock Boot_Map Shell_System
begin

text \<open>
  A verification library for rolnix, a small x86-64 kernel: the kernel crate \<^verbatim>\<open>src/kernel/src\<close> and the boot harness
  \<^verbatim>\<open>src/boot/src\<close>, which boots the kernel, tests it and runs a shell over the serial line and the keyboard.

  \<^bold>\<open>The program.\<close> The bootloader's memory map (\<^verbatim>\<open>multiboot.rs\<close>, \<^verbatim>\<open>main.rs\<close>) goes into \<^verbatim>\<open>pmm_init\<close> (\<^verbatim>\<open>boot.rs\<close>), which builds
  the frame table (\<^verbatim>\<open>frame.rs\<close>), the free lists (\<^verbatim>\<open>allocator.rs\<close>) and the untyped regions (\<^verbatim>\<open>untyped.rs\<close>). The page tables
  (\<^verbatim>\<open>vmm.rs\<close>) and the heap (\<^verbatim>\<open>heap.rs\<close>) live on that memory. Interrupts come in through the descriptor tables (\<^verbatim>\<open>tss.rs\<close>,
  \<^verbatim>\<open>idt.rs\<close>) from the controllers (\<^verbatim>\<open>pic.rs\<close>, \<^verbatim>\<open>pit.rs\<close>) and drive the scheduler (\<^verbatim>\<open>sched.rs\<close>) and the keyboard
  (\<^verbatim>\<open>keyboard.rs\<close>); ring-3 processes make system calls (\<^verbatim>\<open>user.rs\<close>). The shell (\<^verbatim>\<open>shell.rs\<close>), process 0, starts and kills
  processes through the harness.

  \<^bold>\<open>How code becomes definitions.\<close> The semantics is that of the dev profile: an arithmetic overflow, a failed assertion, an
  \<^verbatim>\<open>expect\<close>, a panic and a loop that never ends are \<open>None\<close> of the option monad, a \<^verbatim>\<open>Result\<close> is a sum, integers are words of their
  width (\<open>Rolnix_Prelude\<close>: \<open>uadd\<close>, \<open>usub\<close> and \<open>umul\<close> are the checked operations). State is passed in records that extend one another:
  \<open>mem_state\<close> (physmap memory, by virtual address of 8-byte cells), \<open>frame_state\<close> (with the frame table) and \<open>pmm\<close> (with the
  allocator); \<open>heap\<close>; \<open>cpu\<close>, \<open>regs\<close>, \<open>mach\<close> (with stack memory), \<open>sched\<close>, \<open>kernel\<close> and \<open>harness\<close>, which also holds a \<open>pmm\<close>, a \<open>heap\<close>,
  the kernel page table, the bytes of user frames by physical address, and the state of the serial lock. Port I/O is a history of
  events whose input comes from a device, a parameter; what a theorem needs of the device is a named premise, such as
  \<open>uart_drains\<close> (the transmitter is ready again after finitely many polls).

  \<^bold>\<open>Theories.\<close>
  \<^item> \<open>Rolnix_Prelude\<close>: machine integers, the collections \<open>kconsts\<close> and others, lemmas on words, lists and options. \<open>Interfaces\<close>: the
    contracts as locales (\<open>unit_source\<close>, \<open>unit_pool\<close>, \<open>address_space\<close>, \<open>bounded_fifo\<close>, \<open>safe_system\<close>), each interpreted where its
    provider is modelled.
  \<^item> \<open>Arch\<close> (\<^verbatim>\<open>arch.rs\<close>), \<open>Frame\<close> (\<^verbatim>\<open>frame.rs\<close>), \<open>Allocator\<close> (\<^verbatim>\<open>allocator.rs\<close>), \<open>Untyped\<close> (\<^verbatim>\<open>untyped.rs\<close>, \<^verbatim>\<open>owned.rs\<close>): the memory
    manager on its free lists in memory. \<open>pmm_inv\<close> ties lists and frame table together. \<open>Pool\<close> shows what each operation does and
    interprets \<open>unit_pool\<close>; \<open>Pmm_System\<close> runs them in any order and shows the pool sound, with wrapping reference counts.
  \<^item> \<open>Boot\<close> (\<^verbatim>\<open>boot.rs\<close>), \<open>Boot_Alloc\<close>, \<open>Boot_Regions\<close>, \<open>Boot_Frames\<close>, \<open>Boot_Init\<close>: \<^verbatim>\<open>pmm_init\<close> succeeds on every bootable map and its
    result satisfies \<open>pmm_inv\<close>; kernel memory is never handed out. \<open>Multiboot\<close> and \<open>Boot_Map\<close>: the map that is passed to it.
  \<^item> \<open>Vmm\<close> (\<^verbatim>\<open>vmm.rs\<close>), \<open>Vmm_Tree\<close>, \<open>Vmm_Grow\<close>, \<open>Vmm_Map\<close>, \<open>Vmm_Space\<close>: page tables as a tree in memory. \<open>resolve\<close> is the
    specification of a walk, \<open>user_page\<close> says whether ring 3 may write a page; \<^verbatim>\<open>map\<close>, \<^verbatim>\<open>unmap\<close>, \<^verbatim>\<open>translate\<close> and \<^verbatim>\<open>new_kernel\<close> change
    and read exactly what they should.
  \<^item> \<open>Kernel_Heap\<close> (\<^verbatim>\<open>heap.rs\<close>), \<open>Heap_Lists\<close>, \<open>Heap_Ops\<close>, \<open>Heap_System\<close>: the free list in memory, allocation and release, and all
    runs of them.
  \<^item> \<open>Ports\<close> (\<^verbatim>\<open>io.rs\<close>), \<open>Pic\<close> (\<^verbatim>\<open>pic.rs\<close>, \<^verbatim>\<open>pit.rs\<close>), \<open>Serial\<close> (\<^verbatim>\<open>serial.rs\<close>), \<open>Keyboard\<close> (\<^verbatim>\<open>keyboard.rs\<close>), \<open>Tss\<close> (\<^verbatim>\<open>tss.rs\<close>), \<open>Idt\<close>
    (\<^verbatim>\<open>idt.rs\<close>): the devices and descriptor tables.
  \<^item> \<open>Machine\<close> (the assembly of \<^verbatim>\<open>idt.rs\<close> and \<^verbatim>\<open>sched.rs\<close>), \<open>Sched\<close> (\<^verbatim>\<open>sched.rs\<close>), \<open>User\<close> (\<^verbatim>\<open>user.rs\<close>), \<open>Kstacks\<close>, \<open>Switching\<close>,
    \<open>Kernel_Paths\<close>, \<open>Preemption\<close>: contexts on kernel stacks, the paths through the gates, and the kernel as a transition
    system - never stuck, preemption transparent, waiting bounded, system calls as specified.
  \<^item> \<open>Spinlock\<close> (\<^verbatim>\<open>spinlock.rs\<close>): any number of CPUs, interleaved at the atomic accesses.
  \<^item> \<open>Harness\<close> and \<open>Harness_Spawn\<close> (\<^verbatim>\<open>main.rs\<close>): printing, memory routines and \<^verbatim>\<open>spawn_process\<close>, where pool, page table and scheduler
    meet. \<open>Shell\<close> (\<^verbatim>\<open>shell.rs\<close>): editor, commands and the loop. \<open>Fault\<close>: the way of an exception to the report and the halt.
    \<open>Shell_System\<close>: the whole machine, in which the steps of the shell interleave with interrupts, system calls, running
    processes and their exceptions.

  \<^bold>\<open>Bounds and fuel.\<close> Loops over tables and regions recurse on the data or on the number of rounds the code allows. The waits for a
  device that have no bound in the code (\<^verbatim>\<open>wait_thr\<close>) are partial functions, proved to return under the premise on the device;
  the bounded ones carry the code's counter. \<open>vm_ok\<close> assumes RAM below 64 GiB, because the entry mask cuts addresses there
  (\<open>pt_map_truncates\<close>). \<open>sys_boot\<close> assumes at most 2 GiB, because otherwise the identity window overlaps the processes, and 60 free
  frames for each page of the program and the stack page (15 slots, at most four frames each), because \<^verbatim>\<open>spawn_process\<close> panics when
  it cannot get a page table. A program is between 1 byte and 1 MiB long, up to where its stack page begins.

  \<^bold>\<open>What is not modelled.\<close> The boot flow and the self tests of \<^verbatim>\<open>main.rs\<close>, which call the modelled operations in turn; the panic
  handler around its buffer; \<^verbatim>\<open>entry.s\<close>, the user program and the build files. Of the machine: the TLB, non-maskable
  interrupts and machine checks, the stack the compiled handlers use, and the timing of devices. Formatting is the text it produces;
  the memory that strings and vectors take from the heap is left out. On the one CPU an atomic access is a single step, and in the
  running system so is each call of the shell into the kernel and each line it prints; all of these but \<^verbatim>\<open>kill\<close> and the reads behind
  \<^verbatim>\<open>info\<close> and \<^verbatim>\<open>ticks\<close> run with interrupts off. An exception of a user process halts the machine, as the handler does. The
  processes are otherwise arbitrary: they may change their registers, user memory and make any system call, but not the kernel's memory.
\<close>

end
